theory Spec2Isabelle
  imports Main "HOL-Library.Multiset"
begin

section \<open>Data model of \<^verbatim>\<open>sequenceBuilderV5.ts\<close>\<close>

text \<open>
  Values of type \<^verbatim>\<open>any\<close> that flow between tasks: the two empty values of JavaScript,
  strings, (integer) numbers, BigInts and an object that refers to itself. Numbers of the
  source (\<^verbatim>\<open>retryCount\<close>, \<^verbatim>\<open>priority\<close>, the semaphore counter, time stamps) are modelled as
  integers.
\<close>

datatype val = VUndefined | VNull | VStr string | VNum int | VBigInt int | VCircular

text \<open>
  \<^verbatim>\<open>log(type, message, data)\<close> prints \<^verbatim>\<open>JSON.stringify(data, null, 2)\<close> when \<^verbatim>\<open>data\<close> is truthy.
  \<^verbatim>\<open>JSON.stringify\<close> throws a \<^verbatim>\<open>TypeError\<close> on a BigInt and on a circular structure, also
  inside an array. The runner logs the argument array (an array is truthy, also when it is
  empty) and the result of the action.
\<close>

fun serializable :: "val \<Rightarrow> bool" where
  "serializable (VBigInt n) = False"
| "serializable VCircular = False"
| "serializable v = True"

fun truthy :: "val \<Rightarrow> bool" where
  "truthy VUndefined = False"
| "truthy VNull = False"
| "truthy (VStr s) = (s \<noteq> [])"
| "truthy (VNum n) = (n \<noteq> 0)"
| "truthy (VBigInt n) = (n \<noteq> 0)"
| "truthy VCircular = True"

definition log_throws :: "val \<Rightarrow> bool" where
  "log_throws data \<longleftrightarrow> truthy data \<and> \<not> serializable data"

definition log_args_throws :: "val list \<Rightarrow> bool" where
  "log_args_throws args \<longleftrightarrow> list_ex (\<lambda>a. \<not> serializable a) args"

text \<open>
  What is thrown inside the runner: what the action throws or rejects with, which is an
  error with a message, or \<^verbatim>\<open>undefined\<close> or \<^verbatim>\<open>null\<close>; the \<^verbatim>\<open>TypeError\<close> of \<^verbatim>\<open>JSON.stringify\<close>; and the
  \<^verbatim>\<open>TypeError\<close> of reading \<^verbatim>\<open>error.message\<close> when \<^verbatim>\<open>error\<close> is \<^verbatim>\<open>undefined\<close> or \<^verbatim>\<open>null\<close>.
\<close>

datatype thrown = Thrown string | Nullish | NotSerializable | NoMessage

fun has_message :: "thrown \<Rightarrow> bool" where
  "has_message Nullish = False"
| "has_message e = True"

datatype on_error = Continue | Abort

datatype status = Success | Failed

record ExecutionMetrics =
  startTime :: int
  endTime :: int
  duration :: int

text \<open>
  Interface \<^verbatim>\<open>Task\<close>. Optional fields are options. An action is effectful code: the model
  gives it the number of times it has been invoked before (so that an action may fail a few
  times and then succeed) and the argument list; it answers with \<open>Inr v\<close> (the awaited value)
  or \<open>Inl e\<close> (it throws or rejects with \<open>e\<close>), and with the milliseconds that
  passed until it settled. The fields \<^verbatim>\<open>artifact\<close>, \<^verbatim>\<open>metrics\<close> and \<^verbatim>\<open>status\<close>, which the
  run mutates, live in the record \<open>TaskState\<close>, held in a store indexed by the id of the
  graph node that owns the task object.
\<close>

record Task =
  task_id :: string
  action :: "nat \<Rightarrow> val list \<Rightarrow> (thrown + val) \<times> nat"
  dependencies :: "string list option"
  retryCount :: "int option"
  retryDelay :: "int option"
  onError :: "on_error option"
  priority :: "int option"

record TaskState =
  artifact :: val
  metrics :: "ExecutionMetrics option"
  status :: "status option"

definition initial_state :: TaskState where
  "initial_state = \<lparr>artifact = VUndefined, metrics = None, status = None\<rparr>"

section \<open>The task runner: \<^verbatim>\<open>executeTaskWithRetries\<close>\<close>

text \<open>
  What one run of the retry loop does, in order: each call of the action, each
  \<^verbatim>\<open>await delay(retryDelay)\<close>, each assignment to \<^verbatim>\<open>task.metrics\<close> and to \<^verbatim>\<open>task.status\<close>.
\<close>

datatype run_event =
    Invoke nat "val list"
  | Delay int
  | SetMetrics ExecutionMetrics
  | SetStatus status

record RunResult =
  outcome :: "thrown + val"
  state :: TaskState
  attemptCount :: int
  finished :: int
  events :: "run_event list"

text \<open>
  \<^verbatim>\<open>delay(ms)\<close> resolves when the timer of \<^verbatim>\<open>setTimeout(resolve, ms)\<close> fires. Node sets a
  duration below 1 or above \<open>2\<^sup>3\<^sup>1 - 1\<close> to 1 millisecond. The clock of the model advances by
  exactly the duration of the timer.
\<close>

definition timeout :: "int \<Rightarrow> int" where
  "timeout ms = (if ms < 1 \<or> 2147483647 < ms then 1 else ms)"

definition delay :: "int \<Rightarrow> int \<Rightarrow> int" where
  "delay ms now = now + timeout ms"

text \<open>
  The body of the \<^verbatim>\<open>try\<close> block, for attempt \<open>n\<close> entered at the clock \<open>now\<close>: the log of the
  arguments, the stamp of \<^verbatim>\<open>startTime\<close>, the call of the action, the writes of the metrics and
  of the status, the log of the result. It ends with the result or with what was thrown, and
  gives the fields of the task, the events and the clock at that moment. Whatever is thrown
  here, by the action or by a log, goes to the \<^verbatim>\<open>catch\<close> block.
\<close>

definition try_block ::
  "Task \<Rightarrow> val list \<Rightarrow> nat \<Rightarrow> TaskState \<Rightarrow> int \<Rightarrow> (thrown + val) \<times> TaskState \<times> run_event list \<times> int" where
  "try_block task args n st now =
     (if log_args_throws args then (Inl NotSerializable, st, [], now)
      else
        (let startTime = now in
         case action task n args of
           (Inl e, elapsed) \<Rightarrow> (Inl e, st, [Invoke n args], now + int elapsed)
         | (Inr r, elapsed) \<Rightarrow>
             (let endTime = now + int elapsed;
                  m = \<lparr>startTime = startTime, endTime = endTime, duration = endTime - startTime\<rparr>;
                  st' = st\<lparr>metrics := Some m, status := Some Success\<rparr>;
                  evs = [Invoke n args, SetMetrics m, SetStatus Success]
              in if log_throws r then (Inl NotSerializable, st', evs, endTime)
                 else (Inr r, st', evs, endTime))))"

text \<open>
  The \<^verbatim>\<open>while (attempts <= maxAttempts)\<close> loop. \<open>now\<close> is the clock (\<^verbatim>\<open>Date.now()\<close>) when the
  iteration starts. When the \<^verbatim>\<open>try\<close> block ends with a result, the runner returns it. The
  \<^verbatim>\<open>catch\<close> block increments \<^verbatim>\<open>attempts\<close> and reads \<^verbatim>\<open>error.message\<close>, which throws a \<^verbatim>\<open>TypeError\<close>
  out of the runner when the error is \<^verbatim>\<open>undefined\<close> or \<^verbatim>\<open>null\<close>; otherwise it either marks the
  task failed and rethrows, or sleeps and loops. A loop that is never entered falls off the
  end of the function, which then resolves with \<^verbatim>\<open>undefined\<close>. The spans of the tracer are not
  part of the model.
\<close>

function retry_loop ::
  "Task \<Rightarrow> val list \<Rightarrow> int \<Rightarrow> int \<Rightarrow> TaskState \<Rightarrow> run_event list \<Rightarrow> int \<Rightarrow> int \<Rightarrow> RunResult"
where
  "retry_loop task args maxAttempts rDelay st evs attempts now =
     (if attempts \<le> maxAttempts then
        (case try_block task args (nat attempts) st now of
           (Inr r, st1, tevs, now1) \<Rightarrow>
             \<lparr>outcome = Inr r, state = st1, attemptCount = attempts, finished = now1,
              events = evs @ tevs\<rparr>
         | (Inl e, st1, tevs, now1) \<Rightarrow>
             (let attempts' = attempts + 1
              in if \<not> has_message e then
                   \<lparr>outcome = Inl NoMessage, state = st1, attemptCount = attempts',
                    finished = now1, events = evs @ tevs\<rparr>
                 else if attempts' > maxAttempts then
                   \<lparr>outcome = Inl e,
                    state = st1\<lparr>status := Some Failed\<rparr>,
                    attemptCount = attempts',
                    finished = now1,
                    events = evs @ tevs @ [SetStatus Failed]\<rparr>
                 else retry_loop task args maxAttempts rDelay st1
                        (evs @ tevs @ [Delay rDelay]) attempts' (delay rDelay now1)))
      else \<lparr>outcome = Inr VUndefined, state = st, attemptCount = attempts, finished = now,
             events = evs\<rparr>)"
  by pat_completeness auto
termination
  by (relation "measure (\<lambda>(task, args, maxAttempts, rDelay, st, evs, attempts, now).
        nat (maxAttempts + 1 - attempts))") auto

declare retry_loop.simps [simp del]

definition executeTaskWithRetries :: "Task \<Rightarrow> val list \<Rightarrow> TaskState \<Rightarrow> int \<Rightarrow> RunResult" where
  "executeTaskWithRetries task args st now =
     (let attempts = 0;
          maxAttempts = (case retryCount task of None \<Rightarrow> 0 | Some n \<Rightarrow> n);
          rDelay = (case retryDelay task of None \<Rightarrow> 0 | Some d \<Rightarrow> d)
      in retry_loop task args maxAttempts rDelay st [] attempts now)"


text \<open>
  Vocabulary for statements about a run: whether the \<open>i\<close>-th call of the action fails, how
  long it takes, the clock at the start of attempt \<open>k\<close> when all earlier attempts failed and
  were retried, and the events of \<open>k\<close> failed attempts that were each followed by the delay.
\<close>

definition fails :: "Task \<Rightarrow> val list \<Rightarrow> nat \<Rightarrow> bool" where
  "fails task args i = isl (fst (action task i args))"

definition elapsed :: "Task \<Rightarrow> val list \<Rightarrow> nat \<Rightarrow> int" where
  "elapsed task args i = int (snd (action task i args))"

fun attempt_start :: "Task \<Rightarrow> val list \<Rightarrow> int \<Rightarrow> int \<Rightarrow> nat \<Rightarrow> int" where
  "attempt_start task args d t0 0 = t0"
| "attempt_start task args d t0 (Suc k) =
     delay d (attempt_start task args d t0 k + elapsed task args k)"

definition retries :: "val list \<Rightarrow> int \<Rightarrow> nat \<Rightarrow> run_event list" where
  "retries args d k = concat (map (\<lambda>i. [Invoke i args, Delay d]) [0..<k])"

fun is_invoke :: "run_event \<Rightarrow> bool" where
  "is_invoke (Invoke i args) = True"
| "is_invoke e = False"

fun is_set_metrics :: "run_event \<Rightarrow> bool" where
  "is_set_metrics (SetMetrics m) = True"
| "is_set_metrics e = False"

definition maxAttempts_of :: "Task \<Rightarrow> int" where
  "maxAttempts_of task = (case retryCount task of None \<Rightarrow> 0 | Some n \<Rightarrow> n)"

definition retryDelay_of :: "Task \<Rightarrow> int" where
  "retryDelay_of task = (case retryDelay task of None \<Rightarrow> 0 | Some d \<Rightarrow> d)"

text \<open>
  The inputs on which no log of the runner throws and the \<^verbatim>\<open>catch\<close> block can read the message
  of every error: every argument can be serialized, and each call of the action that the
  retries allow either returns a value that the log can print or throws an error that is
  neither \<^verbatim>\<open>undefined\<close> nor \<^verbatim>\<open>null\<close>.
\<close>

definition regular :: "Task \<Rightarrow> val list \<Rightarrow> bool" where
  "regular task args \<longleftrightarrow>
     \<not> log_args_throws args \<and>
     (\<forall>n \<le> nat (maxAttempts_of task).
        case fst (action task n args) of Inl e \<Rightarrow> has_message e | Inr r \<Rightarrow> \<not> log_throws r)"

definition run_succeeds_at ::
  "Task \<Rightarrow> val list \<Rightarrow> int \<Rightarrow> TaskState \<Rightarrow> int \<Rightarrow> nat \<Rightarrow> RunResult \<Rightarrow> bool" where
  "run_succeeds_at task args d st t0 k R \<longleftrightarrow>
     (let s = attempt_start task args d t0 k;
          m = \<lparr>startTime = s, endTime = s + elapsed task args k, duration = elapsed task args k\<rparr>
      in \<not> fails task args k \<and>
         outcome R = fst (action task k args) \<and>
         events R = retries args d k @ [Invoke k args, SetMetrics m, SetStatus Success] \<and>
         attemptCount R = int k \<and>
         finished R = s + elapsed task args k \<and>
         state R = st\<lparr>metrics := Some m, status := Some Success\<rparr>)"

definition run_fails_at ::
  "Task \<Rightarrow> val list \<Rightarrow> int \<Rightarrow> TaskState \<Rightarrow> int \<Rightarrow> nat \<Rightarrow> RunResult \<Rightarrow> bool" where
  "run_fails_at task args d st t0 k R \<longleftrightarrow>
     fails task args k \<and>
     outcome R = fst (action task k args) \<and>
     events R = retries args d k @ [Invoke k args, SetStatus Failed] \<and>
     attemptCount R = int k + 1 \<and>
     finished R = attempt_start task args d t0 k + elapsed task args k \<and>
     state R = st\<lparr>status := Some Failed\<rparr>"

section \<open>The dependency graph: \<^verbatim>\<open>GraphNode\<close>, \<^verbatim>\<open>Graph.addTask\<close>\<close>

text \<open>
  A node points to its task and to other nodes. Each node of a graph is stored under its id
  in \<^verbatim>\<open>Graph.nodes\<close>, so a pointer to a node is modelled by the node's id. The \<^verbatim>\<open>Map\<close> iterates in
  insertion order: the graph is the list of its entries in that order. \<open>node_id\<close> is the
  field \<^verbatim>\<open>id\<close>, \<open>node_task\<close> the field \<^verbatim>\<open>task\<close> and \<open>node_dependencies\<close> the field \<^verbatim>\<open>dependencies\<close> of \<^verbatim>\<open>GraphNode\<close>.
\<close>

record GraphNode =
  node_id :: string
  node_task :: Task
  node_dependencies :: "string list"
  dependents :: "string list"
  inDegree :: int

type_synonym Graph = "(string \<times> GraphNode) list"

datatype error =
    DependencyNotFound string string
  | CycleDetected
  | AbortedAt string
  | TimelineTypeError
  | TimelineRangeError

definition new_GraphNode :: "Task \<Rightarrow> GraphNode" where
  "new_GraphNode t =
     \<lparr>node_id = task_id t, node_task = t, node_dependencies = [], dependents = [], inDegree = 0\<rparr>"

text \<open>Mutation of the node object stored under a key.\<close>

definition update_node :: "string \<Rightarrow> (GraphNode \<Rightarrow> GraphNode) \<Rightarrow> Graph \<Rightarrow> Graph" where
  "update_node k f g = map (\<lambda>(k', n). if k' = k then (k', f n) else (k', n)) g"

text \<open>
  The body of \<^verbatim>\<open>task.dependencies.forEach\<close> in \<^verbatim>\<open>addTask\<close>, for the node stored under \<open>nid\<close>:
  a dependency that is not in the map yet throws; otherwise the two nodes are linked and
  the in-degree of the node is incremented.
\<close>

fun link_dependencies :: "string \<Rightarrow> Graph \<Rightarrow> string list \<Rightarrow> error + Graph" where
  "link_dependencies nid g [] = Inr g"
| "link_dependencies nid g (depId # rest) =
     (case map_of g depId of
        None \<Rightarrow> Inl (DependencyNotFound depId nid)
      | Some depNode \<Rightarrow>
          (let g1 = update_node nid (\<lambda>n. n\<lparr>node_dependencies := node_dependencies n @ [depId]\<rparr>) g;
               g2 = update_node depId (\<lambda>n. n\<lparr>dependents := dependents n @ [nid]\<rparr>) g1;
               g3 = update_node nid (\<lambda>n. n\<lparr>inDegree := inDegree n + 1\<rparr>) g2
           in link_dependencies nid g3 rest))"

definition addTask :: "Graph \<Rightarrow> Task \<Rightarrow> error + Graph" where
  "addTask g t =
     (let g1 = (case map_of g (task_id t) of
                  None \<Rightarrow> g @ [(task_id t, new_GraphNode t)]
                | Some node \<Rightarrow> g)
      in case dependencies t of
           None \<Rightarrow> Inr g1
         | Some deps \<Rightarrow> link_dependencies (task_id t) g1 deps)"

text \<open>\<^verbatim>\<open>this.tasks.forEach((task) => this.dag.addTask(task))\<close>: the first throw ends the loop.\<close>

fun addTasks :: "Graph \<Rightarrow> Task list \<Rightarrow> error + Graph" where
  "addTasks g [] = Inr g"
| "addTasks g (t # ts) = (case addTask g t of Inl e \<Rightarrow> Inl e | Inr g' \<Rightarrow> addTasks g' ts)"

section \<open>The planner: \<^verbatim>\<open>topologicalSortWithPriority\<close>\<close>

definition priority_of :: "GraphNode \<Rightarrow> int" where
  "priority_of n = (case priority (node_task n) of None \<Rightarrow> 0 | Some p \<Rightarrow> p)"

text \<open>
  \<^verbatim>\<open>queue.sort((a, b) => (b.task.priority ?? 0) - (a.task.priority ?? 0))\<close>: a stable sort
  by descending priority.
\<close>

definition sort_queue :: "GraphNode list \<Rightarrow> GraphNode list" where
  "sort_queue queue = sort_key (\<lambda>n. - priority_of n) queue"

text \<open>
  \<^verbatim>\<open>node.dependents.forEach\<close>: decrement the in-degree of each dependent and push it to the
  queue when the in-degree has become zero.
\<close>

fun release_dependents :: "string list \<Rightarrow> Graph \<Rightarrow> GraphNode list \<Rightarrow> Graph \<times> GraphNode list" where
  "release_dependents [] g queue = (g, queue)"
| "release_dependents (c # cs) g queue =
     (case map_of g c of
        None \<Rightarrow> release_dependents cs g queue
      | Some dependent \<Rightarrow>
          (let g' = update_node c (\<lambda>n. n\<lparr>inDegree := inDegree n - 1\<rparr>) g;
               dependent' = dependent\<lparr>inDegree := inDegree dependent - 1\<rparr>
           in release_dependents cs g'
                (if inDegree dependent' = 0 then queue @ [dependent'] else queue)))"

definition positive_count :: "Graph \<Rightarrow> nat" where
  "positive_count g = length (filter (\<lambda>(k, n). 0 < inDegree n) g)"

lemma positive_count_update_le:
  "positive_count (update_node c (\<lambda>n. n\<lparr>inDegree := inDegree n - 1\<rparr>) g) \<le> positive_count g"
  unfolding positive_count_def update_node_def
  by (induction g) (auto simp: le_SucI split: if_splits)

lemma positive_count_update_less:
  "map_of g c = Some d \<Longrightarrow> inDegree d = 1 \<Longrightarrow>
   positive_count (update_node c (\<lambda>n. n\<lparr>inDegree := inDegree n - 1\<rparr>) g) < positive_count g"
proof (induction g)
  case Nil
  then show ?case by simp
next
  case (Cons a g)
  obtain k n where a: "a = (k, n)" by (cases a)
  show ?case
  proof (cases "k = c")
    case True
    then have "n = d" using Cons.prems(1) a by simp
    then show ?thesis
      using positive_count_update_le[of c g] Cons.prems(2) a True
      by (simp add: positive_count_def update_node_def)
  next
    case False
    then have "map_of g c = Some d" using Cons.prems(1) a by simp
    from Cons.IH[OF this Cons.prems(2)] show ?thesis
      using a False by (simp add: positive_count_def update_node_def)
  qed
qed

lemma release_dependents_measure:
  "release_dependents cs g queue = (g', queue') \<Longrightarrow>
   2 * positive_count g' + length queue' \<le> 2 * positive_count g + length queue"
proof (induction cs arbitrary: g queue)
  case Nil
  then show ?case by simp
next
  case (Cons c cs)
  show ?case
  proof (cases "map_of g c")
    case None
    then show ?thesis using Cons by simp
  next
    case (Some d)
    let ?g = "update_node c (\<lambda>n. n\<lparr>inDegree := inDegree n - 1\<rparr>) g"
    show ?thesis
    proof (cases "inDegree d = 1")
      case True
      then have "release_dependents cs ?g (queue @ [d\<lparr>inDegree := inDegree d - 1\<rparr>]) = (g', queue')"
        using Cons.prems Some by (simp add: Let_def)
      from Cons.IH[OF this] positive_count_update_less[OF Some True] show ?thesis by simp
    next
      case False
      then have "release_dependents cs ?g queue = (g', queue')"
        using Cons.prems Some by (simp add: Let_def)
      from Cons.IH[OF this] positive_count_update_le[of c g] show ?thesis by simp
    qed
  qed
qed

text \<open>
  The \<^verbatim>\<open>while (queue.length > 0)\<close> loop: sort the queue, shift its head to the output, release
  the dependents of the head.
\<close>

function sort_loop :: "Graph \<Rightarrow> GraphNode list \<Rightarrow> GraphNode list \<Rightarrow> GraphNode list" where
  "sort_loop g queue sortedNodes =
     (case sort_queue queue of
        [] \<Rightarrow> sortedNodes
      | node # rest \<Rightarrow>
          (case release_dependents (dependents node) g rest of
             (g', queue') \<Rightarrow> sort_loop g' queue' (sortedNodes @ [node])))"
  by pat_completeness auto
termination
  apply (relation "measure (\<lambda>(g, queue, sortedNodes). 2 * positive_count g + length queue)")
   apply simp
  subgoal for g queue sortedNodes node rest g' queue'
  proof -
    assume s: "sort_queue queue = node # rest"
      and r: "(g', queue') = release_dependents (dependents node) g rest"
    have "length (sort_queue queue) = length queue" by (simp add: sort_queue_def)
    then have "length queue = Suc (length rest)" using s by simp
    moreover have "2 * positive_count g' + length queue' \<le> 2 * positive_count g + length rest"
      using release_dependents_measure[of "dependents node" g rest g' queue'] r by simp
    ultimately show ?thesis by simp
  qed
  done

declare sort_loop.simps [simp del]

definition topologicalSortWithPriority :: "Graph \<Rightarrow> error + GraphNode list" where
  "topologicalSortWithPriority g =
     (let queue = filter (\<lambda>node. inDegree node = 0) (map snd g);
          sortedNodes = sort_loop g queue []
      in if length sortedNodes \<noteq> length g then Inl CycleDetected else Inr sortedNodes)"

section \<open>Vocabulary for graphs and plans\<close>

text \<open>
  The dependencies, the dependents and the in-degree of the node stored under a key (empty
  lists and zero for a key that is not in the graph).
\<close>

definition deps :: "Graph \<Rightarrow> string \<Rightarrow> string list" where
  "deps g k = (case map_of g k of None \<Rightarrow> [] | Some n \<Rightarrow> node_dependencies n)"

definition dpts :: "Graph \<Rightarrow> string \<Rightarrow> string list" where
  "dpts g k = (case map_of g k of None \<Rightarrow> [] | Some n \<Rightarrow> dependents n)"

definition deg :: "Graph \<Rightarrow> string \<Rightarrow> int" where
  "deg g k = (case map_of g k of None \<Rightarrow> 0 | Some n \<Rightarrow> inDegree n)"

text \<open>
  What \<^verbatim>\<open>addTask\<close> maintains: keys are distinct, a node is stored under its own id, links go to
  nodes of the graph, the in-degree of a node is the number of its dependencies, and the
  node \<open>c\<close> is as often a dependent of \<open>p\<close> as \<open>p\<close> is a dependency of \<open>c\<close>.
\<close>

definition wf_graph :: "Graph \<Rightarrow> bool" where
  "wf_graph g \<longleftrightarrow>
     distinct (map fst g) \<and>
     (\<forall>k n. map_of g k = Some n \<longrightarrow> node_id n = k) \<and>
     (\<forall>k. set (deps g k) \<subseteq> fst ` set g) \<and>
     (\<forall>k. set (dpts g k) \<subseteq> fst ` set g) \<and>
     (\<forall>k. deg g k = int (length (deps g k))) \<and>
     (\<forall>p c. count_list (dpts g p) c = count_list (deps g c) p)"

text \<open>The three updates of one iteration of the loop in addTask.\<close>

definition link_one :: "string \<Rightarrow> string \<Rightarrow> Graph \<Rightarrow> Graph" where
  "link_one nid depId g =
     update_node nid (\<lambda>n. n\<lparr>inDegree := inDegree n + 1\<rparr>)
       (update_node depId (\<lambda>n. n\<lparr>dependents := dependents n @ [nid]\<rparr>)
          (update_node nid (\<lambda>n. n\<lparr>node_dependencies := node_dependencies n @ [depId]\<rparr>) g))"

text \<open>
  The sort mutates the in-degrees only. Its invariant, for the graph \<open>g0\<close> it started from:
  the in-degree of a node is the number of its dependencies not output yet, plus the
  decrements that the current \<^verbatim>\<open>forEach\<close> over the dependents of the last output node still
  has to make (\<open>pending\<close>); queued and output nodes have in-degree zero and are distinct; a
  node whose in-degree is zero is queued or output; every output node comes after its
  dependencies.
\<close>

definition same_but_degree :: "Graph \<Rightarrow> Graph \<Rightarrow> bool" where
  "same_but_degree g g0 \<longleftrightarrow>
     map (\<lambda>(k, n). (k, n\<lparr>inDegree := 0\<rparr>)) g = map (\<lambda>(k, n). (k, n\<lparr>inDegree := 0\<rparr>)) g0"

definition open_deps :: "string set \<Rightarrow> string list \<Rightarrow> nat" where
  "open_deps E ds = length (filter (\<lambda>p. p \<notin> E) ds)"

fun deps_before :: "string set \<Rightarrow> GraphNode list \<Rightarrow> bool" where
  "deps_before seen [] = True"
| "deps_before seen (n # ns) =
     (set (node_dependencies n) \<subseteq> seen \<and> deps_before (insert (node_id n) seen) ns)"

definition kahn_inv :: "Graph \<Rightarrow> Graph \<Rightarrow> GraphNode list \<Rightarrow> GraphNode list \<Rightarrow> string list \<Rightarrow> bool" where
  "kahn_inv g0 g queue out pending \<longleftrightarrow>
     same_but_degree g g0 \<and>
     (\<forall>k. k \<in> fst ` set g \<longrightarrow> deg g k =
        int (open_deps (node_id ` set out) (deps g0 k)) + int (count_list pending k)) \<and>
     (\<forall>m. m \<in> set (out @ queue) \<longrightarrow> map_of g (node_id m) = Some m \<and> inDegree m = 0) \<and>
     distinct (map node_id (out @ queue)) \<and>
     (\<forall>k. k \<in> fst ` set g \<longrightarrow> deg g k = 0 \<longrightarrow> k \<in> node_id ` set (out @ queue)) \<and>
     deps_before {} out \<and>
     set pending \<subseteq> fst ` set g"

text \<open>
  A graph in which every node depends on nodes inserted before it only, and a list of task
  descriptors with distinct ids in which every descriptor names earlier descriptors only.
\<close>

definition forward :: "Graph \<Rightarrow> bool" where
  "forward g \<longleftrightarrow> (\<forall>i < length g. set (deps g (map fst g ! i)) \<subseteq> set (take i (map fst g)))"

definition deplist :: "Task \<Rightarrow> string list" where
  "deplist t = (case dependencies t of None \<Rightarrow> [] | Some ds \<Rightarrow> ds)"

definition tasks_in_order :: "Task list \<Rightarrow> bool" where
  "tasks_in_order ts \<longleftrightarrow>
     distinct (map task_id ts) \<and>
     (\<forall>i < length ts. set (deplist (ts ! i)) \<subseteq> set (take i (map task_id ts)))"

text \<open>
  The edges of a graph: \<open>(p, c)\<close> when \<open>p\<close> is a dependency of the node stored under \<open>c\<close>.
\<close>

definition edges :: "Graph \<Rightarrow> (string \<times> string) set" where
  "edges g = {(p, c). p \<in> set (deps g c)}"

section \<open>The planner of the specification\<close>

text \<open>
  The planner as the specification words it: the ready pool is kept in the order of
  insertion; each step extracts from the pool the node with the highest priority, the
  earliest inserted among those of equal priority, appends it to the output, decrements
  the in-degrees of its children and pushes every child whose in-degree has become zero.
  \<open>extract_best\<close> splits the pool into that node and the others, in their order.
\<close>

fun extract_best :: "GraphNode list \<Rightarrow> (GraphNode \<times> GraphNode list) option" where
  "extract_best [] = None"
| "extract_best (x # xs) =
     (case extract_best xs of
        None \<Rightarrow> Some (x, [])
      | Some (m, others) \<Rightarrow>
          if priority_of m \<le> priority_of x then Some (x, xs) else Some (m, x # others))"

lemma extract_best_None: "extract_best pool = None \<longleftrightarrow> pool = []"
  by (cases pool) (auto split: option.splits if_splits)

lemma extract_best_length:
  "extract_best pool = Some (m, others) \<Longrightarrow> length pool = Suc (length others)"
  by (induction pool arbitrary: m others)
     (auto simp: extract_best_None split: option.splits if_splits)

function planner_loop :: "Graph \<Rightarrow> GraphNode list \<Rightarrow> GraphNode list \<Rightarrow> GraphNode list" where
  "planner_loop g pool out =
     (case extract_best pool of
        None \<Rightarrow> out
      | Some (node, others) \<Rightarrow>
          (case release_dependents (dependents node) g others of
             (g', pool') \<Rightarrow> planner_loop g' pool' (out @ [node])))"
  by pat_completeness auto
termination
  apply (relation "measure (\<lambda>(g, pool, out). 2 * positive_count g + length pool)")
   apply simp
  subgoal for g pool out x node others g' pool'
    using release_dependents_measure[of "dependents node" g others g' pool']
      extract_best_length[of pool node others]
    by simp
  done

declare planner_loop.simps [simp del]

definition planner_spec :: "Graph \<Rightarrow> error + GraphNode list" where
  "planner_spec g =
     (let pool = filter (\<lambda>node. inDegree node = 0) (map snd g);
          out = planner_loop g pool []
      in if length out \<noteq> length g then Inl CycleDetected else Inr out)"

text \<open>What \<open>extract_best\<close> extracts, in the words of the specification.\<close>

definition is_best_of :: "GraphNode list \<Rightarrow> GraphNode \<Rightarrow> GraphNode list \<Rightarrow> bool" where
  "is_best_of pool n others \<longleftrightarrow>
     (\<exists>i < length pool. pool ! i = n \<and> others = take i pool @ drop (Suc i) pool \<and>
        (\<forall>j < length pool. priority_of (pool ! j) \<le> priority_of n) \<and>
        (\<forall>j < i. priority_of (pool ! j) < priority_of n))"

section \<open>The semaphore\<close>

text \<open>
  Class \<^verbatim>\<open>Semaphore\<close>: a counter of free permits and the FIFO array \<^verbatim>\<open>tasks\<close> of the resolvers
  of pending \<^verbatim>\<open>acquire()\<close> promises. A resolver is identified with the client that waits on
  it. \<open>acquire\<close> answers \<open>True\<close> when the promise it returns is already resolved and \<open>False\<close>
  when the caller has been queued; \<open>release\<close> answers with the waiter it has resolved, if any.
\<close>

record 'a Semaphore =
  tasks :: "'a list"
  counter :: int

definition new_Semaphore :: "int \<Rightarrow> 'a Semaphore" where
  "new_Semaphore maxConcurrency = \<lparr>tasks = [], counter = maxConcurrency\<rparr>"

definition acquire :: "'a \<Rightarrow> 'a Semaphore \<Rightarrow> bool \<times> 'a Semaphore" where
  "acquire who s =
     (if counter s > 0 then (True, s\<lparr>counter := counter s - 1\<rparr>)
      else (False, s\<lparr>tasks := tasks s @ [who]\<rparr>))"

definition release :: "'a Semaphore \<Rightarrow> 'a option \<times> 'a Semaphore" where
  "release s =
     (let s1 = s\<lparr>counter := counter s + 1\<rparr>
      in case tasks s1 of
           [] \<Rightarrow> (None, s1)
         | nextTask # rest \<Rightarrow> (Some nextTask, s1\<lparr>tasks := rest, counter := counter s1 - 1\<rparr>))"

text \<open>
  The semaphore in use. A client that is neither holding a permit nor waiting may call
  \<open>acquire\<close>; a client that holds a permit may call \<open>release\<close>. The state keeps, beside the
  semaphore, the clients that hold a permit, and two histories: every client that had to
  wait, in the order of arrival, and every waiter admitted by a \<open>release\<close>, in the order of
  admission.
\<close>

record 'a SemSystem =
  sem :: "'a Semaphore"
  holders :: "'a list"
  queued :: "'a list"
  admitted :: "'a list"

definition sem_init :: "int \<Rightarrow> 'a SemSystem" where
  "sem_init K = \<lparr>sem = new_Semaphore K, holders = [], queued = [], admitted = []\<rparr>"

definition do_acquire :: "'a \<Rightarrow> 'a SemSystem \<Rightarrow> 'a SemSystem" where
  "do_acquire who sys =
     (case acquire who (sem sys) of
        (True, s) \<Rightarrow> sys\<lparr>sem := s, holders := holders sys @ [who]\<rparr>
      | (False, s) \<Rightarrow> sys\<lparr>sem := s, queued := queued sys @ [who]\<rparr>)"

definition do_release :: "'a \<Rightarrow> 'a SemSystem \<Rightarrow> 'a SemSystem" where
  "do_release who sys =
     (case release (sem sys) of
        (None, s) \<Rightarrow> sys\<lparr>sem := s, holders := remove1 who (holders sys)\<rparr>
      | (Some w, s) \<Rightarrow> sys\<lparr>sem := s, holders := remove1 who (holders sys) @ [w],
                           admitted := admitted sys @ [w]\<rparr>)"

inductive reachable :: "int \<Rightarrow> 'a SemSystem \<Rightarrow> bool" for K :: int where
  init: "reachable K (sem_init K)"
| acq: "reachable K sys \<Longrightarrow> who \<notin> set (holders sys) \<Longrightarrow> who \<notin> set (tasks (sem sys)) \<Longrightarrow>
        reachable K (do_acquire who sys)"
| rel: "reachable K sys \<Longrightarrow> who \<in> set (holders sys) \<Longrightarrow> reachable K (do_release who sys)"

text \<open>
  The invariant of the semaphore in use with capacity \<open>K\<close>: free permits and permits held add
  up to \<open>K\<close>, no permit is free while a client waits, and the clients still waiting are those
  that arrived and were not admitted yet, in the order of arrival.
\<close>

definition sem_inv :: "int \<Rightarrow> 'a SemSystem \<Rightarrow> bool" where
  "sem_inv K sys \<longleftrightarrow>
     counter (sem sys) + int (length (holders sys)) = K \<and>
     0 \<le> counter (sem sys) \<and>
     (tasks (sem sys) = [] \<or> counter (sem sys) = 0) \<and>
     queued sys = admitted sys @ tasks (sem sys)"

section \<open>The driver: \<^verbatim>\<open>executeTasksWithConcurrencyLimit\<close>\<close>

text \<open>
  Levels are JavaScript numbers. \<^verbatim>\<open>Math.max\<close> of no argument is \<^verbatim>\<open>-Infinity\<close>, and is \<^verbatim>\<open>NaN\<close> as
  soon as one argument is \<^verbatim>\<open>undefined\<close> or \<^verbatim>\<open>NaN\<close>; adding one to either leaves it as it is.
\<close>

datatype level = Level nat | NaN | NegInfinity

fun max_level :: "level \<Rightarrow> level \<Rightarrow> level" where
  "max_level NaN y = NaN"
| "max_level x NaN = NaN"
| "max_level NegInfinity y = y"
| "max_level x NegInfinity = x"
| "max_level (Level a) (Level b) = Level (max a b)"

fun math_max :: "level list \<Rightarrow> level" where
  "math_max [] = NegInfinity"
| "math_max (x # xs) = max_level x (math_max xs)"

fun plus_one :: "level \<Rightarrow> level" where
  "plus_one (Level a) = Level (a + 1)"
| "plus_one NaN = NaN"
| "plus_one NegInfinity = NegInfinity"

text \<open>\<^verbatim>\<open>nodeLevels.get(dep)!\<close> as an argument of \<^verbatim>\<open>Math.max\<close>: a missing entry counts as \<^verbatim>\<open>NaN\<close>.\<close>

definition get_level :: "(string \<rightharpoonup> level) \<Rightarrow> string \<Rightarrow> level" where
  "get_level nodeLevels dep = (case nodeLevels dep of None \<Rightarrow> NaN | Some l \<Rightarrow> l)"

text \<open>The \<^verbatim>\<open>sortedNodes.forEach\<close> that fills \<^verbatim>\<open>nodeLevels\<close>.\<close>

fun assign_levels :: "GraphNode list \<Rightarrow> (string \<rightharpoonup> level) \<Rightarrow> (string \<rightharpoonup> level)" where
  "assign_levels [] nodeLevels = nodeLevels"
| "assign_levels (node # rest) nodeLevels =
     (let lvl = (if length (node_dependencies node) > 0
                 then plus_one (math_max (map (get_level nodeLevels) (node_dependencies node)))
                 else Level 0)
      in assign_levels rest (nodeLevels(node_id node \<mapsto> lvl)))"

text \<open>
  What the driver does, as a trace: a launch has acquired its permit, gathered the
  artifacts of its dependencies and entered the runner (\<open>Started\<close>, with the arguments and
  the clock); the runner of a launch has settled and the launch has released its permit
  (\<open>Ended\<close>, with the outcome and the clock).
\<close>

datatype exec_event =
    Started string "val list" int
  | Ended string "thrown + val" int

text \<open>
  The state of an execution: the clock, the mutable fields of the task objects, the
  semaphore, the launches that hold a permit and whose runner has not settled yet (each with
  the result its runner is going to produce), the trace, and the first rejection among the
  launches of the current \<^verbatim>\<open>Promise.all\<close>.
\<close>

record Exec =
  clock :: int
  store :: "string \<Rightarrow> TaskState"
  semaphore :: "GraphNode Semaphore"
  running :: "(GraphNode \<times> RunResult) list"
  trace :: "exec_event list"
  rejection :: "error option"

text \<open>
  A launch after \<^verbatim>\<open>await semaphore.acquire()\<close>: it reads the artifacts of the dependencies in
  the order of \<^verbatim>\<open>node.dependencies\<close> and calls the runner with them.
\<close>

definition dependencyResults :: "Exec \<Rightarrow> GraphNode \<Rightarrow> val list" where
  "dependencyResults ex node = map (\<lambda>depNode. artifact (store ex depNode)) (node_dependencies node)"

definition start_node :: "GraphNode \<Rightarrow> Exec \<Rightarrow> Exec" where
  "start_node node ex =
     (let args = dependencyResults ex node;
          R = executeTaskWithRetries (node_task node) args (store ex (node_id node)) (clock ex)
      in ex\<lparr>running := running ex @ [(node, R)],
             trace := trace ex @ [Started (node_id node) args (clock ex)]\<rparr>)"

text \<open>The callback of \<^verbatim>\<open>nodesAtLevel.map\<close> up to its first \<^verbatim>\<open>await\<close>.\<close>

definition launch :: "GraphNode \<Rightarrow> Exec \<Rightarrow> Exec" where
  "launch node ex =
     (case acquire node (semaphore ex) of
        (True, s) \<Rightarrow> start_node node (ex\<lparr>semaphore := s\<rparr>)
      | (False, s) \<Rightarrow> ex\<lparr>semaphore := s\<rparr>)"

text \<open>
  The rest of the callback, when the runner of \<open>node\<close> has settled with \<open>R\<close>: the runner's writes
  to the task, the artifact (the result on success, \<^verbatim>\<open>null\<close> on a failure that is not an
  abort), the rejection of the launch on an abort (\<^verbatim>\<open>Promise.all\<close> keeps the first one), and in
  the \<^verbatim>\<open>finally\<close> block the release of the permit, which may admit a waiting launch.
\<close>

definition settle :: "GraphNode \<Rightarrow> RunResult \<Rightarrow> Exec \<Rightarrow> Exec" where
  "settle node R ex =
     (let ex1 = ex\<lparr>clock := finished R, store := (store ex)(node_id node := state R)\<rparr>;
          ex2 = (case outcome R of
                   Inr result \<Rightarrow>
                     ex1\<lparr>store := (store ex1)(node_id node := (state R)\<lparr>artifact := result\<rparr>)\<rparr>
                 | Inl e \<Rightarrow>
                     if onError (node_task node) = Some Abort
                     then ex1\<lparr>rejection := (case rejection ex1 of
                                               None \<Rightarrow> Some (AbortedAt (node_id node))
                                             | Some first \<Rightarrow> Some first)\<rparr>
                     else ex1\<lparr>store := (store ex1)(node_id node := (state R)\<lparr>artifact := VNull\<rparr>)\<rparr>);
          ex3 = ex2\<lparr>trace := trace ex2 @ [Ended (node_id node) (outcome R) (finished R)]\<rparr>
      in case release (semaphore ex3) of
           (None, s) \<Rightarrow> ex3\<lparr>semaphore := s\<rparr>
         | (Some nextTask, s) \<Rightarrow> start_node nextTask (ex3\<lparr>semaphore := s\<rparr>))"

text \<open>
  Which running launch settles next: the one whose runner finishes first, and among those
  that finish at the same clock the one that started first. The function splits the list
  into that launch and the others.
\<close>

fun next_settled ::
  "(GraphNode \<times> RunResult) list \<Rightarrow> ((GraphNode \<times> RunResult) \<times> (GraphNode \<times> RunResult) list) option"
where
  "next_settled [] = None"
| "next_settled (x # xs) =
     (case next_settled xs of
        None \<Rightarrow> Some (x, [])
      | Some (m, others) \<Rightarrow>
          if finished (snd x) \<le> finished (snd m) then Some (x, xs) else Some (m, x # others))"

lemma next_settled_None: "next_settled xs = None \<longleftrightarrow> xs = []"
  by (cases xs) (auto split: option.splits if_splits)

lemma next_settled_length:
  "next_settled xs = Some (m, others) \<Longrightarrow> length xs = Suc (length others)"
  by (induction xs arbitrary: m others)
     (auto simp: next_settled_None split: option.splits if_splits)

lemma settle_measure:
  "length (running (settle node R ex)) + length (tasks (semaphore (settle node R ex)))
   \<le> length (running ex) + length (tasks (semaphore ex))"
  by (auto simp: settle_def start_node_def release_def Let_def split: sum.splits list.splits)

text \<open>The launches of one level run until none holds a permit.\<close>

function drain :: "Exec \<Rightarrow> Exec" where
  "drain ex =
     (case next_settled (running ex) of
        None \<Rightarrow> ex
      | Some ((node, R), others) \<Rightarrow> drain (settle node R (ex\<lparr>running := others\<rparr>)))"
  by pat_completeness auto
termination
  apply (relation "measure (\<lambda>ex. length (running ex) + length (tasks (semaphore ex)))")
   apply simp
  subgoal for ex x2 x y node R
    using settle_measure[of node R "ex\<lparr>running := y\<rparr>"] next_settled_length[of "running ex" x y]
    by simp
  done

declare drain.simps [simp del]

text \<open>
  \<^verbatim>\<open>await Promise.all(nodesAtLevel.map(...))\<close>: every callback runs up to its \<^verbatim>\<open>acquire\<close>, in
  the order of the array; then the launches run. A launch left waiting for a permit when no
  launch is running any more is never resumed, and \<^verbatim>\<open>Promise.all\<close> never settles. After the
  first rejection nothing cancels the other launches of the level: they run to their end.
\<close>

definition run_level :: "GraphNode list \<Rightarrow> Exec \<Rightarrow> Exec" where
  "run_level nodesAtLevel ex = drain (fold launch nodesAtLevel (ex\<lparr>rejection := None\<rparr>))"

text \<open>How an awaited promise ends.\<close>

datatype 'a promise = Fulfilled 'a | RejectedWith error | NeverSettles

text \<open>The \<^verbatim>\<open>for\<close> loop over the levels; a rejected \<^verbatim>\<open>await\<close> leaves the loop.\<close>

fun run_levels ::
  "GraphNode list \<Rightarrow> (string \<rightharpoonup> level) \<Rightarrow> nat list \<Rightarrow> Exec \<Rightarrow> unit promise \<times> Exec" where
  "run_levels sortedNodes nodeLevels [] ex = (Fulfilled (), ex)"
| "run_levels sortedNodes nodeLevels (lvl # rest) ex =
     (let nodesAtLevel = filter (\<lambda>node. nodeLevels (node_id node) = Some (Level lvl)) sortedNodes;
          ex' = run_level nodesAtLevel ex
      in if tasks (semaphore ex') \<noteq> [] then (NeverSettles, ex')
         else case rejection ex' of
                Some e \<Rightarrow> (RejectedWith e, ex')
              | None \<Rightarrow> run_levels sortedNodes nodeLevels rest ex')"

text \<open>The values of \<^verbatim>\<open>level\<close> for which the body of the \<^verbatim>\<open>for\<close> loop runs.\<close>

fun levels_upto :: "level \<Rightarrow> nat list" where
  "levels_upto (Level m) = [0..<Suc m]"
| "levels_upto NaN = []"
| "levels_upto NegInfinity = []"

definition initial_exec :: "int \<Rightarrow> int \<Rightarrow> Exec" where
  "initial_exec maxConcurrency now =
     \<lparr>clock = now, store = (\<lambda>i. initial_state), semaphore = new_Semaphore maxConcurrency,
      running = [], trace = [], rejection = None\<rparr>"

definition executeTasksWithConcurrencyLimit ::
  "GraphNode list \<Rightarrow> int \<Rightarrow> int \<Rightarrow> unit promise \<times> Exec" where
  "executeTasksWithConcurrencyLimit sortedNodes maxConcurrency executionStart =
     (let nodeLevels = assign_levels sortedNodes Map.empty;
          maxLevel = math_max (map (\<lambda>node. get_level nodeLevels (node_id node)) sortedNodes)
      in run_levels sortedNodes nodeLevels (levels_upto maxLevel)
           (initial_exec maxConcurrency executionStart))"

section \<open>The timeline: \<^verbatim>\<open>generateTimeline\<close>\<close>

text \<open>
  The numbers of JavaScript as far as the timeline needs them: an integer, an infinity or
  \<^verbatim>\<open>NaN\<close>. \<open>floor_scaled x totalDuration width\<close> is \<^verbatim>\<open>Math.floor((x / totalDuration) * width)\<close> for integers: a
  division by zero gives an infinity, or \<^verbatim>\<open>NaN\<close> for \<^verbatim>\<open>0 / 0\<close>, and an infinity times zero is
  \<^verbatim>\<open>NaN\<close>. \<open>max_one\<close> is \<^verbatim>\<open>Math.max(1, x)\<close>. \<^verbatim>\<open>String.prototype.repeat\<close> throws a \<^verbatim>\<open>RangeError\<close> for a
  negative or infinite count and takes \<^verbatim>\<open>NaN\<close> as zero. The quotients are exact where the source
  has doubles, and \<^verbatim>\<open>0.7\<close> is seven tenths: the rounding of a double may change a count by one,
  not its sign nor whether it is finite, and only these decide whether \<^verbatim>\<open>repeat\<close> throws.
  Strings are taken to stay below the length limit of the engine.
\<close>

datatype number = Finite int | PlusInfinity | MinusInfinity | NotANumber

definition floor_scaled :: "int \<Rightarrow> int \<Rightarrow> int \<Rightarrow> number" where
  "floor_scaled x totalDuration width =
     (if totalDuration = 0 then
        (if x = 0 \<or> width = 0 then NotANumber
         else if (0 < x) = (0 < width) then PlusInfinity else MinusInfinity)
      else Finite ((x * width) div totalDuration))"

fun max_one :: "number \<Rightarrow> number" where
  "max_one (Finite n) = Finite (max 1 n)"
| "max_one PlusInfinity = PlusInfinity"
| "max_one MinusInfinity = Finite 1"
| "max_one NotANumber = NotANumber"

fun repeat_throws :: "number \<Rightarrow> bool" where
  "repeat_throws (Finite n) = (n < 0)"
| "repeat_throws PlusInfinity = True"
| "repeat_throws MinusInfinity = True"
| "repeat_throws NotANumber = False"

text \<open>
  \<^verbatim>\<open>this.tasks\<close>: the task objects in the order of \<^verbatim>\<open>addLayer\<close>, each with its fields. The node of
  an id holds the first object with that id and only that object is run: a later object
  with the same id keeps the fields it was created with.
\<close>

fun task_objects :: "string list \<Rightarrow> (string \<Rightarrow> TaskState) \<Rightarrow> Task list \<Rightarrow> (Task \<times> TaskState) list" where
  "task_objects seen st [] = []"
| "task_objects seen st (t # ts) =
     (t, if task_id t \<in> set seen then initial_state else st (task_id t)) #
     task_objects (task_id t # seen) st ts"

text \<open>
  \<^verbatim>\<open>generateTimeline(tasks, executionStart)\<close>, as far as it can throw; \<open>columns\<close> is
  \<^verbatim>\<open>process.stdout.columns\<close>, which is \<^verbatim>\<open>undefined\<close> when the standard output is not a terminal. The
  tasks that have metrics are sorted by \<^verbatim>\<open>startTime\<close>; when there is none, reading the metrics
  of the last one throws a \<^verbatim>\<open>TypeError\<close>. For each task the bar is built with two calls of
  \<^verbatim>\<open>repeat\<close>, for the offset of its start and for its duration. The result is the error thrown,
  if any.
\<close>

definition generateTimeline :: "nat option \<Rightarrow> (Task \<times> TaskState) list \<Rightarrow> int \<Rightarrow> error option" where
  "generateTimeline columns taskObjects executionStart =
     (let sortedTasks = sort_key (\<lambda>(i, m). startTime m)
            (List.map_filter (\<lambda>(t, s). map_option (\<lambda>m. (task_id t, m)) (metrics s)) taskObjects)
      in if sortedTasks = [] then Some TimelineTypeError
         else
           (let totalDuration = endTime (snd (last sortedTasks)) - executionStart;
                terminalWidth = (case columns of None \<Rightarrow> 80 | Some c \<Rightarrow> if c = 0 then 80 else int c);
                padding = 2;
                availableWidth = terminalWidth - padding * 2;
                nameLengths = map (\<lambda>(i, m). int (length i)) sortedTasks;
                maxNameLength = fold max (tl nameLengths) (hd nameLengths);
                nameColumnWidth = maxNameLength + 5;
                remainingWidth = availableWidth - nameColumnWidth - 3;
                progressBarWidth = (7 * remainingWidth) div 10;
                firstStart = startTime (snd (hd sortedTasks))
            in if list_ex (\<lambda>(i, m).
                     repeat_throws (floor_scaled (startTime m - firstStart) totalDuration progressBarWidth) \<or>
                     repeat_throws (max_one (floor_scaled (duration m) totalDuration progressBarWidth)))
                   sortedTasks
               then Some TimelineRangeError else None))"

section \<open>\<^verbatim>\<open>Sequence.build\<close>\<close>

record SequenceConfig =
  verbose :: "bool option"
  maxConcurrency :: "int option"

text \<open>
  \<^verbatim>\<open>build()\<close> adds the tasks to the graph and sorts it; an exception there rejects the promise
  of \<^verbatim>\<open>build()\<close>. The execution itself runs inside a \<^verbatim>\<open>try\<close> whose \<^verbatim>\<open>catch\<close> logs the error and
  does not rethrow it: the promise is then fulfilled. After a successful execution the same
  \<^verbatim>\<open>try\<close> draws the timeline, which may throw into that \<^verbatim>\<open>catch\<close>, logs the performance metrics
  (of the tasks whose status is success, which have metrics) and the spans of the tracer;
  these two do not throw. The result carries the error that was caught, if any, and the final
  state. \<open>build_on columns\<close> is \<^verbatim>\<open>build()\<close> on a standard output of that many columns, and \<open>build\<close>
  is \<^verbatim>\<open>build()\<close> when the standard output is not a terminal.
\<close>

definition build_on ::
  "nat option \<Rightarrow> SequenceConfig \<Rightarrow> Task list \<Rightarrow> int \<Rightarrow> (error option \<times> Exec) promise" where
  "build_on columns config ts now =
     (case addTasks [] ts of
        Inl e \<Rightarrow> RejectedWith e
      | Inr dag \<Rightarrow>
          (case topologicalSortWithPriority dag of
             Inl e \<Rightarrow> RejectedWith e
           | Inr sortedNodes \<Rightarrow>
               (let executionStart = now
                in case executeTasksWithConcurrencyLimit sortedNodes
                          (case maxConcurrency config of None \<Rightarrow> 2 | Some k \<Rightarrow> k)
                          executionStart of
                     (Fulfilled u, ex) \<Rightarrow>
                       Fulfilled (generateTimeline columns (task_objects [] (store ex) ts) executionStart, ex)
                   | (RejectedWith e, ex) \<Rightarrow> Fulfilled (Some e, ex)
                   | (NeverSettles, ex) \<Rightarrow> NeverSettles)))"

definition build :: "SequenceConfig \<Rightarrow> Task list \<Rightarrow> int \<Rightarrow> (error option \<times> Exec) promise" where
  "build config ts now = build_on None config ts now"

section \<open>Vocabulary for executions\<close>

text \<open>
  The level that the loop over \<^verbatim>\<open>sortedNodes\<close> gives a node, and the maps in which every
  level is a number.
\<close>

definition node_level :: "(string \<rightharpoonup> level) \<Rightarrow> GraphNode \<Rightarrow> level" where
  "node_level nodeLevels node =
     (if length (node_dependencies node) > 0
      then plus_one (math_max (map (get_level nodeLevels) (node_dependencies node)))
      else Level 0)"

definition all_numbers :: "(string \<rightharpoonup> level) \<Rightarrow> bool" where
  "all_numbers nodeLevels \<longleftrightarrow> (\<forall>k l. nodeLevels k = Some l \<longrightarrow> (\<exists>n. l = Level n))"

text \<open>Reading a trace: whose event, when, of which kind.\<close>

fun event_id :: "exec_event \<Rightarrow> string" where
  "event_id (Started i args t) = i"
| "event_id (Ended i r t) = i"

fun event_time :: "exec_event \<Rightarrow> int" where
  "event_time (Started i args t) = t"
| "event_time (Ended i r t) = t"

fun is_started :: "exec_event \<Rightarrow> bool" where
  "is_started (Started i args t) = True"
| "is_started (Ended i r t) = False"

definition started_ids :: "exec_event list \<Rightarrow> string list" where
  "started_ids T = map event_id (filter is_started T)"

definition ended_ids :: "exec_event list \<Rightarrow> string list" where
  "ended_ids T = map event_id (filter (\<lambda>e. \<not> is_started e) T)"

text \<open>
  The fields of a task once its launch has settled, whether the launch rejects, and the
  part of \<open>settle\<close> that comes before the release of the permit; the result of the runner
  for a node that starts in a given state.
\<close>

definition final_state :: "GraphNode \<Rightarrow> RunResult \<Rightarrow> TaskState" where
  "final_state node R =
     (case outcome R of
        Inr result \<Rightarrow> (state R)\<lparr>artifact := result\<rparr>
      | Inl e \<Rightarrow> if onError (node_task node) = Some Abort then state R
                 else (state R)\<lparr>artifact := VNull\<rparr>)"

definition aborts :: "GraphNode \<Rightarrow> RunResult \<Rightarrow> bool" where
  "aborts node R \<longleftrightarrow> isl (outcome R) \<and> onError (node_task node) = Some Abort"

definition finish :: "GraphNode \<Rightarrow> RunResult \<Rightarrow> Exec \<Rightarrow> Exec" where
  "finish node R ex =
     ex\<lparr>clock := finished R,
        store := (store ex)(node_id node := final_state node R),
        rejection := (if aborts node R
                      then (case rejection ex of None \<Rightarrow> Some (AbortedAt (node_id node))
                            | Some first \<Rightarrow> Some first)
                      else rejection ex),
        trace := trace ex @ [Ended (node_id node) (outcome R) (finished R)]\<rparr>"

definition run_of :: "Exec \<Rightarrow> GraphNode \<Rightarrow> RunResult" where
  "run_of ex node =
     executeTaskWithRetries (node_task node) (dependencyResults ex node) (store ex (node_id node)) (clock ex)"

text \<open>
  The invariant of one level, for the state \<open>ex0\<close> the level started in and the nodes
  launched so far: the trace has grown by \<open>T\<close>; the launches started are those running and
  those ended; the nodes launched are those started and those waiting for a permit; the
  clock does not go back, every event of \<open>T\<close> happened between the start of the level and
  now, and no running launch is to settle in the past.
\<close>

definition level_trace_inv :: "Exec \<Rightarrow> GraphNode list \<Rightarrow> Exec \<Rightarrow> bool" where
  "level_trace_inv ex0 launched ex \<longleftrightarrow>
     (\<exists>T. trace ex = trace ex0 @ T \<and>
        mset (started_ids T) = mset (map (\<lambda>r. node_id (fst r)) (running ex)) + mset (ended_ids T) \<and>
        mset (map node_id launched) =
          mset (started_ids T) + mset (map node_id (tasks (semaphore ex))) \<and>
        (\<forall>e. e \<in> set T \<longrightarrow> clock ex0 \<le> event_time e \<and> event_time e \<le> clock ex)) \<and>
     clock ex0 \<le> clock ex \<and>
     (\<forall>r. r \<in> set (running ex) \<longrightarrow> clock ex \<le> finished (snd r))"

text \<open>Before position \<open>j\<close> the trace has the end of \<open>p\<close>, no later than the time \<open>t\<close>.\<close>

definition ends_before :: "exec_event list \<Rightarrow> string \<Rightarrow> nat \<Rightarrow> int \<Rightarrow> bool" where
  "ends_before T p j t \<longleftrightarrow> (\<exists>i<j. \<exists>r t'. T ! i = Ended p r t' \<and> t' \<le> t)"

text \<open>
  The events an execution has added to the trace since the state \<open>ex0\<close>; the failures among
  them of nodes whose policy is to abort; the artifact a node has once its launch has ended;
  the number of launches in flight at the end of a trace.
\<close>

definition added :: "Exec \<Rightarrow> Exec \<Rightarrow> exec_event list" where
  "added ex0 ex = drop (length (trace ex0)) (trace ex)"

fun is_failure :: "exec_event \<Rightarrow> bool" where
  "is_failure (Ended i (Inl e) t) = True"
| "is_failure ev = False"

definition abort_policy :: "GraphNode list \<Rightarrow> string \<Rightarrow> bool" where
  "abort_policy nodes i \<longleftrightarrow> (\<exists>n \<in> set nodes. node_id n = i \<and> onError (node_task n) = Some Abort)"

definition abort_ids :: "GraphNode list \<Rightarrow> exec_event list \<Rightarrow> string list" where
  "abort_ids nodes T = map event_id (filter (\<lambda>e. is_failure e \<and> abort_policy nodes (event_id e)) T)"

definition artifact_after :: "GraphNode \<Rightarrow> thrown + val \<Rightarrow> val \<Rightarrow> val" where
  "artifact_after n r before =
     (case r of Inr v \<Rightarrow> v
      | Inl e \<Rightarrow> if onError (node_task n) = Some Abort then before else VNull)"

fun in_flight :: "exec_event list \<Rightarrow> int" where
  "in_flight [] = 0"
| "in_flight (Started i args t # T) = in_flight T + 1"
| "in_flight (Ended i r t # T) = in_flight T - 1"

text \<open>
  The nodes of one level have distinct ids and none depends on another. The data part of
  the invariant of a level: running and waiting launches are nodes of the level; the task
  of a node that has not ended is as it was when the level started; a node started with the
  artifacts that its dependencies had when the level started, in the order of its
  dependencies; a node that ended has the artifact its outcome and policy give; the
  rejection is that of the first abort. The counting part, for capacity \<open>K\<close>: free permits and
  running launches add up to \<open>K\<close>, no permit is free while a launch waits, and no prefix of
  the trace has more than \<open>K\<close> launches in flight.
\<close>

definition level_nodes_ok :: "GraphNode list \<Rightarrow> bool" where
  "level_nodes_ok nodes \<longleftrightarrow>
     distinct (map node_id nodes) \<and>
     (\<forall>n \<in> set nodes. set (node_dependencies n) \<inter> node_id ` set nodes = {})"

definition level_data_inv :: "GraphNode list \<Rightarrow> Exec \<Rightarrow> Exec \<Rightarrow> bool" where
  "level_data_inv nodes ex0 ex \<longleftrightarrow>
     (\<forall>r. r \<in> set (running ex) \<longrightarrow>
        fst r \<in> set nodes \<and> artifact (state (snd r)) = artifact (store ex0 (node_id (fst r)))) \<and>
     (\<forall>w. w \<in> set (tasks (semaphore ex)) \<longrightarrow> w \<in> set nodes) \<and>
     (\<forall>i. i \<notin> set (ended_ids (added ex0 ex)) \<longrightarrow> store ex i = store ex0 i) \<and>
     (\<forall>e. e \<in> set (added ex0 ex) \<longrightarrow>
        (\<exists>n. n \<in> set nodes \<and> node_id n = event_id e \<and>
           (\<forall>args t. e = Started (node_id n) args t \<longrightarrow>
              args = map (\<lambda>d. artifact (store ex0 d)) (node_dependencies n)) \<and>
           (\<forall>r t. e = Ended (node_id n) r t \<longrightarrow>
              artifact (store ex (node_id n)) = artifact_after n r (artifact (store ex0 (node_id n)))))) \<and>
     rejection ex = (case abort_ids nodes (added ex0 ex) of [] \<Rightarrow> None | i # rest \<Rightarrow> Some (AbortedAt i))"

definition level_count_inv :: "int \<Rightarrow> Exec \<Rightarrow> Exec \<Rightarrow> bool" where
  "level_count_inv K ex0 ex \<longleftrightarrow>
     counter (semaphore ex) + int (length (running ex)) = K \<and>
     0 \<le> counter (semaphore ex) \<and>
     (tasks (semaphore ex) = [] \<or> counter (semaphore ex) = 0) \<and>
     in_flight (added ex0 ex) = int (length (running ex)) \<and>
     (\<forall>k \<le> length (added ex0 ex). in_flight (take k (added ex0 ex)) \<le> K)"

definition level_inv :: "GraphNode list \<Rightarrow> Exec \<Rightarrow> GraphNode list \<Rightarrow> Exec \<Rightarrow> bool" where
  "level_inv nodes ex0 ls ex \<longleftrightarrow>
     level_trace_inv ex0 ls ex \<and> level_data_inv nodes ex0 ex \<and>
     distinct (map node_id ls) \<and> set ls \<subseteq> set nodes"

text \<open>
  An execution between two levels, with all \<open>K\<close> permits free; a trace no prefix of which has
  more than \<open>K\<close> launches in flight.
\<close>

definition idle :: "int \<Rightarrow> Exec \<Rightarrow> bool" where
  "idle K ex \<longleftrightarrow> running ex = [] \<and> tasks (semaphore ex) = [] \<and> counter (semaphore ex) = K"

definition bounded :: "int \<Rightarrow> exec_event list \<Rightarrow> bool" where
  "bounded K T \<longleftrightarrow> (\<forall>k \<le> length T. in_flight (take k T) \<le> K)"

section \<open>Vocabulary for whole executions\<close>

text \<open>
  Vocabulary for a whole execution. The levels suit the nodes: ids are distinct and every
  dependency of a node has a level, strictly below the level of the node. An event suits
  a node and a store: it is an event of the node, a start carries the artifacts that the
  store has for the dependencies of the node, in their order, and after an end the store has
  the artifact that the outcome and the policy of the node give to a task that had none.
  The invariant of the loop over the levels, for the set \<open>L\<close> of the levels entered so far:
  every event of the trace suits a node of one of these levels and the store, and a task
  whose launch has not ended is as it was created.
\<close>

definition levels_ok :: "GraphNode list \<Rightarrow> (string \<rightharpoonup> level) \<Rightarrow> bool" where
  "levels_ok sortedNodes nodeLevels \<longleftrightarrow>
     distinct (map node_id sortedNodes) \<and>
     (\<forall>c p. c \<in> set sortedNodes \<longrightarrow> p \<in> set (node_dependencies c) \<longrightarrow>
        (\<exists>lp lc. nodeLevels p = Some (Level lp) \<and> nodeLevels (node_id c) = Some (Level lc) \<and> lp < lc))"

definition nodes_at :: "GraphNode list \<Rightarrow> (string \<rightharpoonup> level) \<Rightarrow> nat \<Rightarrow> GraphNode list" where
  "nodes_at sortedNodes nodeLevels lvl =
     filter (\<lambda>node. nodeLevels (node_id node) = Some (Level lvl)) sortedNodes"

fun event_ok :: "GraphNode \<Rightarrow> (string \<Rightarrow> TaskState) \<Rightarrow> exec_event \<Rightarrow> bool" where
  "event_ok n st (Started i args t) \<longleftrightarrow>
     i = node_id n \<and> args = map (\<lambda>d. artifact (st d)) (node_dependencies n)"
| "event_ok n st (Ended i r t) \<longleftrightarrow>
     i = node_id n \<and> artifact (st i) = artifact_after n r VUndefined"

definition run_inv :: "GraphNode list \<Rightarrow> (string \<rightharpoonup> level) \<Rightarrow> nat set \<Rightarrow> Exec \<Rightarrow> bool" where
  "run_inv sortedNodes nodeLevels L ex \<longleftrightarrow>
     (\<forall>e. e \<in> set (trace ex) \<longrightarrow>
        (\<exists>n l. n \<in> set sortedNodes \<and> l \<in> L \<and> nodeLevels (node_id n) = Some (Level l) \<and>
           event_ok n (store ex) e)) \<and>
     (\<forall>i. i \<notin> set (ended_ids (trace ex)) \<longrightarrow> store ex i = initial_state)"

text \<open>
  How the loop over the levels ends, when it started with no failure of a node whose
  policy is to abort.
\<close>

definition run_result_ok ::
  "GraphNode list \<Rightarrow> (string \<rightharpoonup> level) \<Rightarrow> nat set \<Rightarrow> unit promise \<times> Exec \<Rightarrow> bool" where
  "run_result_ok sortedNodes nodeLevels L res \<longleftrightarrow>
     run_inv sortedNodes nodeLevels L (snd res) \<and>
     (fst res \<noteq> NeverSettles \<longrightarrow>
        fst res = (case abort_ids sortedNodes (trace (snd res)) of
                     [] \<Rightarrow> Fulfilled () | i # rest \<Rightarrow> RejectedWith (AbortedAt i))) \<and>
     (\<forall>i. fst res = RejectedWith (AbortedAt i) \<longrightarrow>
        (\<exists>li. nodeLevels i = Some (Level li) \<and>
           (\<forall>e. e \<in> set (trace (snd res)) \<longrightarrow>
              (\<exists>le. nodeLevels (event_id e) = Some (Level le) \<and> le \<le> li))))"

text \<open>
  The dependencies that the descriptors declare for an id: those of every descriptor with
  that id, in the order of the descriptors.
\<close>

definition declared_parents :: "Task list \<Rightarrow> string \<Rightarrow> string list" where
  "declared_parents ts i = concat (map deplist (filter (\<lambda>t. task_id t = i) ts))"

text \<open>
  The launch of a node ran as \<open>R\<close>: the trace has the start of the node, and \<open>R\<close> is the result of
  the runner for the task of the node, the arguments and the clock of that start. The
  invariant that links the ends of the trace to the starts: the launches waiting and running
  are nodes of the plan, a running launch ran as the result it is going to produce, and the
  end of a launch carries the outcome and the clock of the result it ran as.
\<close>

definition ran_as :: "GraphNode \<Rightarrow> exec_event list \<Rightarrow> RunResult \<Rightarrow> bool" where
  "ran_as n T R \<longleftrightarrow>
     (\<exists>args t st. Started (node_id n) args t \<in> set T \<and>
        R = executeTaskWithRetries (node_task n) args st t)"

definition link_inv :: "GraphNode list \<Rightarrow> Exec \<Rightarrow> bool" where
  "link_inv sortedNodes ex \<longleftrightarrow>
     (\<forall>w. w \<in> set (tasks (semaphore ex)) \<longrightarrow> w \<in> set sortedNodes) \<and>
     (\<forall>r. r \<in> set (running ex) \<longrightarrow> fst r \<in> set sortedNodes \<and> ran_as (fst r) (trace ex) (snd r)) \<and>
     (\<forall>i r t. Ended i r t \<in> set (trace ex) \<longrightarrow>
        (\<exists>n R. n \<in> set sortedNodes \<and> node_id n = i \<and> ran_as n (trace ex) R \<and>
           r = outcome R \<and> t = finished R))"

section \<open>Example tasks and sequences\<close>


definition always_fails :: Task where
  "always_fails = \<lparr>task_id = ''F'',
     action = (\<lambda>n args. (Inl (Thrown ''boom''), 5)),
     dependencies = None, retryCount = Some 1, retryDelay = Some 10,
     onError = None, priority = None\<rparr>"

definition fails_once :: Task where
  "fails_once = \<lparr>task_id = ''G'',
     action = (\<lambda>n args. if n < 1 then (Inl (Thrown ''boom''), 5) else (Inr (VStr ''ok''), 7)),
     dependencies = None, retryCount = Some 1, retryDelay = Some 10,
     onError = None, priority = None\<rparr>"




text \<open>A task with one retry whose action returns the BigInt \<open>1\<close>, which cannot be logged.\<close>

definition returns_bigint :: Task where
  "returns_bigint = \<lparr>task_id = ''N'',
     action = (\<lambda>n args. (Inr (VBigInt 1), 5)),
     dependencies = None, retryCount = Some 1, retryDelay = Some 10,
     onError = None, priority = None\<rparr>"

text \<open>Three clients of a semaphore of capacity one; the first releases its permit.\<close>

definition three_clients :: "string SemSystem" where
  "three_clients =
     do_release ''a'' (do_acquire ''c'' (do_acquire ''b'' (do_acquire ''a'' (sem_init 1))))"

text \<open>
  The chain of three tasks: \<open>A\<close> returns \<open>"a"\<close>, \<open>B\<close> appends \<open>"b"\<close> to the artifact of \<open>A\<close>,
  \<open>C\<close> appends \<open>"c"\<close> to the artifact of \<open>B\<close>. The actions take 3, 4 and 5 milliseconds.
\<close>

fun append_str :: "string \<Rightarrow> val list \<Rightarrow> thrown + val" where
  "append_str s [VStr x] = Inr (VStr (x @ s))"
| "append_str s args = Inl (Thrown ''not a string'')"

definition simple_task ::
  "string \<Rightarrow> string list \<Rightarrow> (nat \<Rightarrow> val list \<Rightarrow> (thrown + val) \<times> nat) \<Rightarrow> Task" where
  "simple_task i ds a =
     \<lparr>task_id = i, action = a, dependencies = Some ds, retryCount = None, retryDelay = None,
      onError = None, priority = None\<rparr>"

definition task_A :: Task where
  "task_A = simple_task ''A'' [] (\<lambda>n args. (Inr (VStr ''a''), 3))"

definition task_B :: Task where
  "task_B = simple_task ''B'' [''A''] (\<lambda>n args. (append_str ''b'' args, 4))"

definition task_C :: Task where
  "task_C = simple_task ''C'' [''B''] (\<lambda>n args. (append_str ''c'' args, 5))"

definition chain :: "Task list" where
  "chain = [task_A, task_B, task_C]"

definition chain_graph :: Graph where
  "chain_graph =
     [(''A'', \<lparr>node_id = ''A'', node_task = task_A, node_dependencies = [],
               dependents = [''B''], inDegree = 0\<rparr>),
      (''B'', \<lparr>node_id = ''B'', node_task = task_B, node_dependencies = [''A''],
               dependents = [''C''], inDegree = 1\<rparr>),
      (''C'', \<lparr>node_id = ''C'', node_task = task_C, node_dependencies = [''B''],
               dependents = [], inDegree = 1\<rparr>)]"

definition chain_sorted :: "GraphNode list" where
  "chain_sorted =
     [\<lparr>node_id = ''A'', node_task = task_A, node_dependencies = [],
       dependents = [''B''], inDegree = 0\<rparr>,
      \<lparr>node_id = ''B'', node_task = task_B, node_dependencies = [''A''],
       dependents = [''C''], inDegree = 0\<rparr>,
      \<lparr>node_id = ''C'', node_task = task_C, node_dependencies = [''B''],
       dependents = [], inDegree = 0\<rparr>]"

text \<open>
  Three tasks without dependencies, added in the order \<open>A\<close>, \<open>B\<close>, \<open>C\<close>, with priorities 1, 5
  and 3; their actions take 3, 9 and 5 milliseconds.
\<close>

definition root_task :: "string \<Rightarrow> int \<Rightarrow> string \<Rightarrow> nat \<Rightarrow> Task" where
  "root_task i p v ms =
     \<lparr>task_id = i, action = (\<lambda>n args. (Inr (VStr v), ms)), dependencies = None,
      retryCount = None, retryDelay = None, onError = None, priority = Some p\<rparr>"

definition three_roots :: "Task list" where
  "three_roots = [root_task ''A'' 1 ''a'' 3, root_task ''B'' 5 ''b'' 9, root_task ''C'' 3 ''c'' 5]"

definition root_node :: "string \<Rightarrow> int \<Rightarrow> string \<Rightarrow> nat \<Rightarrow> GraphNode" where
  "root_node i p v ms =
     \<lparr>node_id = i, node_task = root_task i p v ms, node_dependencies = [], dependents = [],
      inDegree = 0\<rparr>"

definition roots_graph :: Graph where
  "roots_graph = [(''A'', root_node ''A'' 1 ''a'' 3), (''B'', root_node ''B'' 5 ''b'' 9),
                  (''C'', root_node ''C'' 3 ''c'' 5)]"

definition roots_sorted :: "GraphNode list" where
  "roots_sorted = [root_node ''B'' 5 ''b'' 9, root_node ''C'' 3 ''c'' 5, root_node ''A'' 1 ''a'' 3]"

text \<open>The trace of the execution, when \<^verbatim>\<open>build()\<close> is fulfilled.\<close>

definition trace_of :: "(error option \<times> Exec) promise \<Rightarrow> exec_event list option" where
  "trace_of r = (case r of Fulfilled (e, ex) \<Rightarrow> Some (trace ex) | RejectedWith e \<Rightarrow> None
                 | NeverSettles \<Rightarrow> None)"

text \<open>
  Two descriptors with the id \<open>"A"\<close> and different actions.
\<close>

definition first_A :: Task where
  "first_A = simple_task ''A'' [] (\<lambda>n args. (Inr (VStr ''first''), 3))"

definition second_A :: Task where
  "second_A = simple_task ''A'' [] (\<lambda>n args. (Inr (VStr ''second''), 4))"

text \<open>
  How \<^verbatim>\<open>build()\<close> settles, without the final state: fulfilled with no error caught, fulfilled
  after an error was caught and logged, rejected, or never settled.
\<close>

definition outcome_of :: "(error option \<times> Exec) promise \<Rightarrow> error option promise" where
  "outcome_of r = (case r of Fulfilled (e, ex) \<Rightarrow> Fulfilled e | RejectedWith e \<Rightarrow> RejectedWith e
                   | NeverSettles \<Rightarrow> NeverSettles)"

text \<open>The artifacts of the given tasks, when \<^verbatim>\<open>build()\<close> is fulfilled.\<close>

definition artifacts_of :: "(error option \<times> Exec) promise \<Rightarrow> string list \<Rightarrow> val list option" where
  "artifacts_of r ids = (case r of Fulfilled (e, ex) \<Rightarrow> Some (map (\<lambda>i. artifact (store ex i)) ids)
                         | RejectedWith e \<Rightarrow> None | NeverSettles \<Rightarrow> None)"

text \<open>
  Two tasks \<open>X\<close> and \<open>Y\<close> without dependencies, which return \<open>"x"\<close> and \<open>"y"\<close>, and a task \<open>J\<close> that
  declares the dependencies \<open>Y\<close>, \<open>X\<close> in this order and concatenates its arguments.
\<close>

fun concat_strs :: "val list \<Rightarrow> string" where
  "concat_strs [] = []"
| "concat_strs (VStr x # rest) = x @ concat_strs rest"
| "concat_strs (v # rest) = concat_strs rest"

definition task_X :: Task where
  "task_X = simple_task ''X'' [] (\<lambda>n args. (Inr (VStr ''x''), 3))"

definition task_Y :: Task where
  "task_Y = simple_task ''Y'' [] (\<lambda>n args. (Inr (VStr ''y''), 2))"

definition task_J :: Task where
  "task_J = simple_task ''J'' [''Y'', ''X''] (\<lambda>n args. (Inr (VStr (concat_strs args)), 1))"

definition join_seq :: "Task list" where
  "join_seq = [task_X, task_Y, task_J]"

definition join_graph :: Graph where
  "join_graph =
     [(''X'', \<lparr>node_id = ''X'', node_task = task_X, node_dependencies = [],
               dependents = [''J''], inDegree = 0\<rparr>),
      (''Y'', \<lparr>node_id = ''Y'', node_task = task_Y, node_dependencies = [],
               dependents = [''J''], inDegree = 0\<rparr>),
      (''J'', \<lparr>node_id = ''J'', node_task = task_J, node_dependencies = [''Y'', ''X''],
               dependents = [], inDegree = 2\<rparr>)]"

definition node_J :: GraphNode where
  "node_J = \<lparr>node_id = ''J'', node_task = task_J, node_dependencies = [''Y'', ''X''],
             dependents = [], inDegree = 0\<rparr>"

definition join_sorted :: "GraphNode list" where
  "join_sorted =
     [\<lparr>node_id = ''X'', node_task = task_X, node_dependencies = [],
       dependents = [''J''], inDegree = 0\<rparr>,
      \<lparr>node_id = ''Y'', node_task = task_Y, node_dependencies = [],
       dependents = [''J''], inDegree = 0\<rparr>,
      node_J]"

text \<open>
  A task \<open>F\<close> whose action always fails, with a given policy and no retry, and a task \<open>G\<close> that
  depends on it.
\<close>

definition failing :: "on_error option \<Rightarrow> Task" where
  "failing pol = \<lparr>task_id = ''F'', action = (\<lambda>n args. (Inl (Thrown ''boom''), 5)), dependencies = None,
     retryCount = None, retryDelay = None, onError = pol, priority = None\<rparr>"

definition task_G :: Task where
  "task_G = simple_task ''G'' [''F''] (\<lambda>n args. (Inr (VStr ''g''), 4))"

definition fail_seq :: "on_error option \<Rightarrow> Task list" where
  "fail_seq pol = [failing pol, task_G]"

definition node_F :: "on_error option \<Rightarrow> GraphNode" where
  "node_F pol = \<lparr>node_id = ''F'', node_task = failing pol, node_dependencies = [],
                 dependents = [''G''], inDegree = 0\<rparr>"

definition node_G :: GraphNode where
  "node_G = \<lparr>node_id = ''G'', node_task = task_G, node_dependencies = [''F''],
             dependents = [], inDegree = 0\<rparr>"

definition fail_graph :: "on_error option \<Rightarrow> Graph" where
  "fail_graph pol = [(''F'', node_F pol), (''G'', node_G\<lparr>inDegree := 1\<rparr>)]"

definition fail_sorted :: "on_error option \<Rightarrow> GraphNode list" where
  "fail_sorted pol = [node_F pol, node_G]"

text \<open>
  Five tasks with priorities, added in the order \<open>P\<close>, \<open>Q\<close>, \<open>R\<close>, \<open>S\<close>, \<open>T\<close>: \<open>P\<close> (priority 1),
  \<open>Q\<close> (priority 9) that depends on \<open>P\<close>, \<open>R\<close> and \<open>S\<close> (priority 5 both), and \<open>T\<close> (priority 7)
  that depends on \<open>R\<close> and \<open>S\<close>. And a task that names itself as its dependency.
\<close>

definition plan_task :: "string \<Rightarrow> int \<Rightarrow> string list \<Rightarrow> Task" where
  "plan_task i p ds =
     \<lparr>task_id = i, action = (\<lambda>n args. (Inr (VStr i), 1)), dependencies = Some ds,
      retryCount = None, retryDelay = None, onError = None, priority = Some p\<rparr>"

definition plan_tasks :: "Task list" where
  "plan_tasks = [plan_task ''P'' 1 [], plan_task ''Q'' 9 [''P''], plan_task ''R'' 5 [],
                 plan_task ''S'' 5 [], plan_task ''T'' 7 [''R'', ''S'']]"

definition plan_node :: "string \<Rightarrow> int \<Rightarrow> string list \<Rightarrow> string list \<Rightarrow> int \<Rightarrow> GraphNode" where
  "plan_node i p ds cs d =
     \<lparr>node_id = i, node_task = plan_task i p ds, node_dependencies = ds, dependents = cs,
      inDegree = d\<rparr>"

definition plan_graph :: Graph where
  "plan_graph =
     [(''P'', plan_node ''P'' 1 [] [''Q''] 0), (''Q'', plan_node ''Q'' 9 [''P''] [] 1),
      (''R'', plan_node ''R'' 5 [] [''T''] 0), (''S'', plan_node ''S'' 5 [] [''T''] 0),
      (''T'', plan_node ''T'' 7 [''R'', ''S''] [] 2)]"

definition plan_sorted :: "GraphNode list" where
  "plan_sorted =
     [plan_node ''R'' 5 [] [''T''] 0, plan_node ''S'' 5 [] [''T''] 0,
      plan_node ''T'' 7 [''R'', ''S''] [] 0, plan_node ''P'' 1 [] [''Q''] 0,
      plan_node ''Q'' 9 [''P''] [] 0]"

definition self_graph :: Graph where
  "self_graph = [(''Z'', plan_node ''Z'' 1 [''Z''] [''Z''] 1)]"

text \<open>
  The task \<open>F\<close> with the policy to abort, a task \<open>S\<close> without dependencies that returns \<open>"s"\<close>
  after 4 milliseconds, and \<open>G\<close>: \<open>S\<close> is in the level of \<open>F\<close>. And the task \<open>F\<close> alone, with the
  policy to continue.
\<close>

definition task_S :: Task where
  "task_S = simple_task ''S'' [] (\<lambda>n args. (Inr (VStr ''s''), 4))"

definition sibling_seq :: "Task list" where
  "sibling_seq = [failing (Some Abort), task_S, task_G]"

definition node_S :: GraphNode where
  "node_S = \<lparr>node_id = ''S'', node_task = task_S, node_dependencies = [],
             dependents = [], inDegree = 0\<rparr>"

definition sibling_graph :: Graph where
  "sibling_graph = [(''F'', node_F (Some Abort)), (''S'', node_S), (''G'', node_G\<lparr>inDegree := 1\<rparr>)]"

definition sibling_sorted :: "GraphNode list" where
  "sibling_sorted = [node_F (Some Abort), node_S, node_G]"

definition lonely_node :: GraphNode where
  "lonely_node = \<lparr>node_id = ''F'', node_task = failing (Some Continue), node_dependencies = [],
                  dependents = [], inDegree = 0\<rparr>"

section \<open>Properties of the task runner\<close>

lemma retries_Suc: "retries args d (Suc k) = retries args d k @ [Invoke k args, Delay d]"
  by (simp add: retries_def)


lemma filter_metrics_retries: "filter is_set_metrics (retries args d k) = []"
  by (induction k) (simp_all add: retries_Suc, simp add: retries_def)


lemma try_block_regular:
  assumes "regular task args" "n \<le> nat (maxAttempts_of task)"
  shows "try_block task args n st now =
     (case action task n args of
        (Inl e, el) \<Rightarrow> (Inl e, st, [Invoke n args], now + int el)
      | (Inr r, el) \<Rightarrow>
          (Inr r,
           st\<lparr>metrics := Some \<lparr>startTime = now, endTime = now + int el, duration = now + int el - now\<rparr>,
              status := Some Success\<rparr>,
           [Invoke n args,
            SetMetrics \<lparr>startTime = now, endTime = now + int el, duration = now + int el - now\<rparr>,
            SetStatus Success],
           now + int el))"
    and "\<And>e. fst (action task n args) = Inl e \<Longrightarrow> has_message e"
proof -
  have a: "\<not> log_args_throws args" using assms(1) by (simp add: regular_def)
  have b: "case fst (action task n args) of Inl e \<Rightarrow> has_message e | Inr r \<Rightarrow> \<not> log_throws r"
    using assms unfolding regular_def by blast
  obtain x el where act: "action task n args = (x, el)" by (cases "action task n args")
  show "try_block task args n st now =
     (case action task n args of
        (Inl e, el) \<Rightarrow> (Inl e, st, [Invoke n args], now + int el)
      | (Inr r, el) \<Rightarrow>
          (Inr r,
           st\<lparr>metrics := Some \<lparr>startTime = now, endTime = now + int el, duration = now + int el - now\<rparr>,
              status := Some Success\<rparr>,
           [Invoke n args,
            SetMetrics \<lparr>startTime = now, endTime = now + int el, duration = now + int el - now\<rparr>,
            SetStatus Success],
           now + int el))"
    using a b act by (cases x) (simp_all add: try_block_def Let_def)
  show "\<And>e. fst (action task n args) = Inl e \<Longrightarrow> has_message e" using b by simp
qed



text \<open>
  On regular inputs the loop, started at attempt \<open>attempts\<close> after that many failed and retried
  attempts, ends at some attempt \<open>k \<le> maxAttempts\<close>: either attempt \<open>k\<close> succeeds, or
  \<open>k = maxAttempts\<close> and it fails too.
\<close>

lemma retry_loop_shape:
  assumes "0 \<le> attempts" "attempts \<le> mx"
    and "now = attempt_start task args d t0 (nat attempts)"
    and "evs = retries args d (nat attempts)"
    and "\<forall>i < nat attempts. fails task args i"
    and "regular task args" "mx = maxAttempts_of task"
  shows "\<exists>k. int k \<le> mx \<and> (\<forall>i < k. fails task args i) \<and>
           (run_succeeds_at task args d st t0 k (retry_loop task args mx d st evs attempts now) \<or>
            (int k = mx \<and> run_fails_at task args d st t0 k (retry_loop task args mx d st evs attempts now)))"
  using assms
proof (induction task args mx d st evs attempts now rule: retry_loop.induct)
  case (1 task args mx d st evs attempts now)
  obtain r el where act: "action task (nat attempts) args = (r, el)"
    by (cases "action task (nat attempts) args")
  have le: "nat attempts \<le> nat (maxAttempts_of task)" using 1(2,3,8) by simp
  note tb = try_block_regular(1)[OF 1(7) le, of st now, unfolded act]
  show ?case
  proof (cases r)
    case (Inr v)
    have res: "retry_loop task args mx d st evs attempts now =
        (let m = \<lparr>startTime = now, endTime = now + int el, duration = now + int el - now\<rparr>
         in \<lparr>outcome = Inr v, state = st\<lparr>metrics := Some m, status := Some Success\<rparr>,
             attemptCount = attempts, finished = now + int el,
             events = evs @ [Invoke (nat attempts) args, SetMetrics m, SetStatus Success]\<rparr>)"
      using 1(3) by (subst retry_loop.simps) (simp add: tb Inr Let_def)
    have "run_succeeds_at task args d st t0 (nat attempts) (retry_loop task args mx d st evs attempts now)"
      unfolding res using 1(2,4,5)
      by (simp add: run_succeeds_at_def fails_def elapsed_def Let_def act Inr)
    then show ?thesis using 1(2-6) by (intro exI[of _ "nat attempts"]) simp
  next
    case (Inl e)
    have hm: "has_message e" using try_block_regular(2)[OF 1(7) le, of e] act Inl by simp
    show ?thesis
    proof (cases "attempts + 1 > mx")
      case True
      then have eq: "int (nat attempts) = mx" using 1(2,3) by simp
      have res: "retry_loop task args mx d st evs attempts now =
          \<lparr>outcome = Inl e, state = st\<lparr>status := Some Failed\<rparr>,
           attemptCount = attempts + 1, finished = now + int el,
           events = evs @ [Invoke (nat attempts) args, SetStatus Failed]\<rparr>"
        using 1(3) True hm by (subst retry_loop.simps) (simp add: tb Inl Let_def)
      have "run_fails_at task args d st t0 (nat attempts) (retry_loop task args mx d st evs attempts now)"
        unfolding res using 1(2,4,5)
        by (simp add: run_fails_at_def fails_def elapsed_def act Inl)
      then show ?thesis using 1(2-6) eq by (intro exI[of _ "nat attempts"]) simp
    next
      case False
      have nat_eq: "nat (attempts + 1) = Suc (nat attempts)" using 1(2) by simp
      have step: "retry_loop task args mx d st evs attempts now =
                  retry_loop task args mx d st (evs @ [Invoke (nat attempts) args] @ [Delay d])
                     (attempts + 1) (delay d (now + int el))"
        using 1(3) Inl False hm by (subst retry_loop.simps) (simp add: tb Let_def)
      have f: "fails task args (nat attempts)" using act Inl by (simp add: fails_def)
      have tb': "(Inl e, st, [Invoke (nat attempts) args], now + int el) =
                 try_block task args (nat attempts) st now" using tb Inl by simp
      have hm': "\<not> \<not> has_message e" using hm by simp
      have "\<exists>k. int k \<le> mx \<and> (\<forall>i < k. fails task args i) \<and>
           (run_succeeds_at task args d st t0 k
              (retry_loop task args mx d st (evs @ [Invoke (nat attempts) args] @ [Delay d])
                 (attempts + 1) (delay d (now + int el))) \<or>
            (int k = mx \<and> run_fails_at task args d st t0 k
              (retry_loop task args mx d st (evs @ [Invoke (nat attempts) args] @ [Delay d])
                 (attempts + 1) (delay d (now + int el)))))"
      proof (rule 1(1)[OF 1(3) tb' refl refl refl refl hm'])
        show "\<not> mx < attempts + 1" using False by simp
        show "0 \<le> attempts + 1" using 1(2) by simp
        show "attempts + 1 \<le> mx" using False by simp
        show "delay d (now + int el) = attempt_start task args d t0 (nat (attempts + 1))"
          using 1(4) act by (simp add: nat_eq elapsed_def)
        show "evs @ [Invoke (nat attempts) args] @ [Delay d] = retries args d (nat (attempts + 1))"
          using 1(5) by (simp add: nat_eq retries_Suc)
        show "\<forall>i<nat (attempts + 1). fails task args i"
          using 1(6) f by (auto simp: nat_eq less_Suc_eq)
        show "regular task args" by (rule 1(7))
        show "mx = maxAttempts_of task" by (rule 1(8))
      qed
      then show ?thesis by (simp only: step)
    qed
  qed
qed

lemma executeTaskWithRetries_shape:
  assumes "0 \<le> maxAttempts_of task" "regular task args"
  shows "\<exists>k. int k \<le> maxAttempts_of task \<and> (\<forall>i < k. fails task args i) \<and>
           (run_succeeds_at task args (retryDelay_of task) st now k
              (executeTaskWithRetries task args st now) \<or>
            (int k = maxAttempts_of task \<and>
             run_fails_at task args (retryDelay_of task) st now k
              (executeTaskWithRetries task args st now)))"
proof -
  have eq: "executeTaskWithRetries task args st now =
      retry_loop task args (maxAttempts_of task) (retryDelay_of task) st [] 0 now"
    by (simp add: executeTaskWithRetries_def maxAttempts_of_def retryDelay_of_def)
  show ?thesis
    unfolding eq
    by (rule retry_loop_shape[where ?t0.0 = now]) (use assms in \<open>simp_all add: retries_def\<close>)
qed

text \<open>
  The clock at the start of attempt \<open>k\<close>: the time the earlier attempts took and \<open>k\<close> timers.
\<close>

lemma attempt_start_sum:
  "attempt_start task args d t0 k = t0 + (\<Sum>i<k. elapsed task args i) + int k * timeout d"
  by (induction k) (simp_all add: delay_def algebra_simps)

lemma timeout_in_range: "1 \<le> d \<Longrightarrow> d \<le> 2147483647 \<Longrightarrow> timeout d = d"
  by (simp add: timeout_def)

lemma timeout_positive: "1 \<le> timeout d"
  by (simp add: timeout_def)







text \<open>
  Claim C7 as stated fails. A task whose two attempts both fail ends failed with no metrics
  write at all; a task that fails once and then succeeds, entered at clock 100 with a delay of
  10, gets \<^verbatim>\<open>startTime = 115\<close> (not 100) and \<^verbatim>\<open>duration = 7\<close>, although the run took 22.
\<close>

theorem metrics_on_failure_counterexample:
  "(let R = executeTaskWithRetries always_fails [] initial_state 100 in
      outcome R = Inl (Thrown ''boom'') \<and> status (state R) = Some Failed \<and>
      metrics (state R) = None \<and> filter is_set_metrics (events R) = []) \<and>
   (let R = executeTaskWithRetries fails_once [] initial_state 100 in
      outcome R = Inr (VStr ''ok'') \<and> status (state R) = Some Success \<and>
      events R = [Invoke 0 [], Delay 10, Invoke 1 [],
                  SetMetrics \<lparr>startTime = 115, endTime = 122, duration = 7\<rparr>, SetStatus Success] \<and>
      metrics (state R) = Some \<lparr>startTime = 115, endTime = 122, duration = 7\<rparr> \<and>
      finished R - 100 = 22)"
  by (simp add: always_fails_def fails_once_def executeTaskWithRetries_def retry_loop.simps
        try_block_def log_args_throws_def log_throws_def
        Let_def delay_def timeout_def initial_state_def)

text \<open>
  Claim C7, as the source has it, on regular inputs (no log throws, no error is \<^verbatim>\<open>undefined\<close>
  or \<^verbatim>\<open>null\<close>). A run that ends in success writes the metrics exactly once; \<^verbatim>\<open>startTime\<close> is the
  clock at the start of the attempt that succeeded (attempt \<open>k\<close>, after \<open>k\<close> failed attempts and
  their timers), \<^verbatim>\<open>endTime\<close> the clock when that attempt settled, and \<^verbatim>\<open>duration\<close> their
  difference. A run that fails after its retries sets the status to failed and writes no
  metrics: the field keeps the value it had.
\<close>

theorem runner_metrics:
  assumes "0 \<le> maxAttempts_of task" and "regular task args"
  shows "let R = executeTaskWithRetries task args st now in
     (isl (outcome R) \<longrightarrow>
        status (state R) = Some Failed \<and> metrics (state R) = metrics st \<and>
        filter is_set_metrics (events R) = []) \<and>
     (\<not> isl (outcome R) \<longrightarrow>
        (\<exists>k m. int k \<le> maxAttempts_of task \<and> (\<forall>i<k. fails task args i) \<and> \<not> fails task args k \<and>
           status (state R) = Some Success \<and> metrics (state R) = Some m \<and>
           filter is_set_metrics (events R) = [SetMetrics m] \<and>
           startTime m = attempt_start task args (retryDelay_of task) now k \<and>
           startTime m = now + (\<Sum>i<k. elapsed task args i) + int k * timeout (retryDelay_of task) \<and>
           endTime m = startTime m + elapsed task args k \<and>
           duration m = endTime m - startTime m \<and>
           finished R = endTime m))"
proof -
  define R where "R = executeTaskWithRetries task args st now"
  define d where "d = retryDelay_of task"
  obtain k where k: "int k \<le> maxAttempts_of task" "\<forall>i<k. fails task args i"
    and alt: "run_succeeds_at task args d st now k R \<or>
              (int k = maxAttempts_of task \<and> run_fails_at task args d st now k R)"
    using executeTaskWithRetries_shape[OF assms, of st now] unfolding R_def d_def by blast
  from alt have "(isl (outcome R) \<longrightarrow>
        status (state R) = Some Failed \<and> metrics (state R) = metrics st \<and>
        filter is_set_metrics (events R) = []) \<and>
     (\<not> isl (outcome R) \<longrightarrow>
        (\<exists>m. \<not> fails task args k \<and>
           status (state R) = Some Success \<and> metrics (state R) = Some m \<and>
           filter is_set_metrics (events R) = [SetMetrics m] \<and>
           startTime m = attempt_start task args d now k \<and>
           startTime m = now + (\<Sum>i<k. elapsed task args i) + int k * timeout d \<and>
           endTime m = startTime m + elapsed task args k \<and>
           duration m = endTime m - startTime m \<and>
           finished R = endTime m))"
  proof
    assume "run_succeeds_at task args d st now k R"
    then show ?thesis
      by (simp add: run_succeeds_at_def Let_def fails_def filter_metrics_retries attempt_start_sum)
  next
    assume "int k = maxAttempts_of task \<and> run_fails_at task args d st now k R"
    then show ?thesis
      by (simp add: run_fails_at_def fails_def filter_metrics_retries)
  qed
  with k show ?thesis unfolding R_def[symmetric] d_def[symmetric] Let_def by blast
qed

lemma fails_once_regular: "regular fails_once []"
  by (auto simp: regular_def fails_once_def log_args_throws_def log_throws_def maxAttempts_of_def)

lemma always_fails_regular: "regular always_fails []"
  by (auto simp: regular_def always_fails_def log_args_throws_def log_throws_def maxAttempts_of_def)

theorem runner_metrics_witness:
  "0 \<le> maxAttempts_of fails_once \<and> regular fails_once [] \<and> regular always_fails [] \<and>
   (let R = executeTaskWithRetries fails_once [] initial_state 100 in
      \<not> isl (outcome R) \<and> fails fails_once [] 0 \<and> \<not> fails fails_once [] 1 \<and>
      metrics (state R) = Some \<lparr>startTime = 115, endTime = 122, duration = 7\<rparr> \<and>
      attempt_start fails_once [] (retryDelay_of fails_once) 100 1 = 115 \<and>
      filter is_set_metrics (events R) = [SetMetrics \<lparr>startTime = 115, endTime = 122, duration = 7\<rparr>]) \<and>
   (let R = executeTaskWithRetries always_fails [] initial_state 100 in
      isl (outcome R) \<and> status (state R) = Some Failed \<and> metrics (state R) = metrics initial_state)"
  using runner_metrics[of fails_once "[]" initial_state 100]
        runner_metrics[of always_fails "[]" initial_state 100]
        fails_once_regular always_fails_regular
  by (simp add: always_fails_def fails_once_def executeTaskWithRetries_def retry_loop.simps
        try_block_def log_args_throws_def log_throws_def
        Let_def delay_def timeout_def initial_state_def maxAttempts_of_def retryDelay_of_def fails_def elapsed_def)

text \<open>
  Outside the regular inputs: when the result of the action cannot be serialised, the log
  call that follows the writes of the metrics and of the status throws inside the \<^verbatim>\<open>try\<close>, and
  the attempt counts as failed: the action is called again and the metrics are written
  again, and after the last attempt the status is failed.
\<close>

lemma unloggable_result_is_retried:
  "(let R = executeTaskWithRetries returns_bigint [] initial_state 100 in
      \<not> regular returns_bigint [] \<and>
      events R = [Invoke 0 [], SetMetrics \<lparr>startTime = 100, endTime = 105, duration = 5\<rparr>,
                  SetStatus Success, Delay 10,
                  Invoke 1 [], SetMetrics \<lparr>startTime = 115, endTime = 120, duration = 5\<rparr>,
                  SetStatus Success, SetStatus Failed] \<and>
      outcome R = Inl NotSerializable \<and> status (state R) = Some Failed \<and>
      metrics (state R) = Some \<lparr>startTime = 115, endTime = 120, duration = 5\<rparr>)"
  by (auto simp: returns_bigint_def executeTaskWithRetries_def retry_loop.simps regular_def
        try_block_def log_args_throws_def log_throws_def maxAttempts_of_def
        Let_def delay_def timeout_def initial_state_def)

section \<open>Properties of the graph builder and the planner\<close>

lemma map_fst_update_node [simp]: "map fst (update_node k f g) = map fst g"
  by (induction g) (auto simp: update_node_def)

lemma map_of_update_node:
  "map_of (update_node k f g) k' = (if k' = k then map_option f (map_of g k) else map_of g k')"
  by (induction g) (auto simp: update_node_def)

lemma keys_update_node [simp]: "fst ` set (update_node k f g) = fst ` set g"
  using map_fst_update_node[of k f g] by (metis set_map)

lemma map_of_None_iff: "map_of g k = None \<longleftrightarrow> k \<notin> fst ` set g"
  by (simp add: map_of_eq_None_iff)

lemma map_of_Some_key: "map_of g k = Some n \<Longrightarrow> k \<in> fst ` set g"
  by (force dest: map_of_SomeD)

lemma wf_graph_empty: "wf_graph []"
  by (simp add: wf_graph_def deps_def dpts_def deg_def)

lemma map_of_snoc:
  "map_of g k = None \<Longrightarrow> map_of (g @ [(k, n)]) k' = (if k' = k then Some n else map_of g k')"
  by (auto simp: map_add_def split: option.splits)

lemma wf_graph_new_node:
  assumes "wf_graph g" "map_of g (task_id t) = None"
  shows "wf_graph (g @ [(task_id t, new_GraphNode t)])"
proof -
  let ?g = "g @ [(task_id t, new_GraphNode t)]"
  have fresh: "task_id t \<notin> fst ` set g" using assms(2) by (simp add: map_of_None_iff)
  note look = map_of_snoc[OF assms(2), of "new_GraphNode t"]
  have d: "deps ?g k = deps g k" "dpts ?g k = dpts g k" "deg ?g k = deg g k" for k
    unfolding deps_def dpts_def deg_def look
    using assms(2) by (auto simp: new_GraphNode_def)
  have "distinct (map fst ?g)" using assms(1) fresh by (simp add: wf_graph_def)
  moreover have "\<forall>k n. map_of ?g k = Some n \<longrightarrow> node_id n = k"
    unfolding look using assms(1) by (auto simp: wf_graph_def new_GraphNode_def)
  ultimately show ?thesis
    using assms(1) unfolding wf_graph_def d by auto
qed

lemma link_dependencies_Cons:
  "link_dependencies nid g (depId # rest) =
     (case map_of g depId of None \<Rightarrow> Inl (DependencyNotFound depId nid)
      | Some depNode \<Rightarrow> link_dependencies nid (link_one nid depId g) rest)"
  by (simp add: link_one_def Let_def split: option.splits)

lemma link_one_accessors:
  assumes "nid \<in> fst ` set g" "depId \<in> fst ` set g"
  shows "deps (link_one nid depId g) k = (if k = nid then deps g k @ [depId] else deps g k)"
    and "dpts (link_one nid depId g) k = (if k = depId then dpts g k @ [nid] else dpts g k)"
    and "deg (link_one nid depId g) k = (if k = nid then deg g k + 1 else deg g k)"
proof -
  obtain n d where "map_of g nid = Some n" "map_of g depId = Some d"
    using assms by (metis map_of_None_iff not_Some_eq)
  then show "deps (link_one nid depId g) k = (if k = nid then deps g k @ [depId] else deps g k)"
    and "dpts (link_one nid depId g) k = (if k = depId then dpts g k @ [nid] else dpts g k)"
    and "deg (link_one nid depId g) k = (if k = nid then deg g k + 1 else deg g k)"
    by (auto simp: deps_def dpts_def deg_def link_one_def map_of_update_node split: option.splits)
qed

lemma keys_link_one [simp]: "fst ` set (link_one nid depId g) = fst ` set g"
  by (simp add: link_one_def)

lemma map_fst_link_one [simp]: "map fst (link_one nid depId g) = map fst g"
  by (simp add: link_one_def)

lemma wf_graph_link_one:
  assumes "wf_graph g" "nid \<in> fst ` set g" "depId \<in> fst ` set g"
  shows "wf_graph (link_one nid depId g)"
proof -
  note acc = link_one_accessors[OF assms(2,3)]
  have ids: "\<forall>k n. map_of (link_one nid depId g) k = Some n \<longrightarrow> node_id n = k"
    using assms(1) by (auto simp: wf_graph_def link_one_def map_of_update_node split: if_splits)
  show ?thesis
    unfolding wf_graph_def acc
    using assms ids by (auto simp: wf_graph_def)
qed

lemma wf_graph_link_dependencies:
  "wf_graph g \<Longrightarrow> nid \<in> fst ` set g \<Longrightarrow> link_dependencies nid g ds = Inr g' \<Longrightarrow> wf_graph g'"
proof (induction ds arbitrary: g)
  case Nil
  then show ?case by simp
next
  case (Cons d ds)
  from Cons.prems(3) obtain dn where dn: "map_of g d = Some dn"
    and rest: "link_dependencies nid (link_one nid d g) ds = Inr g'"
    by (auto simp: link_dependencies_Cons simp del: link_dependencies.simps split: option.splits)
  have din: "d \<in> fst ` set g" using dn by (rule map_of_Some_key)
  show ?case
    by (rule Cons.IH[OF wf_graph_link_one[OF Cons.prems(1,2) din] _ rest]) (simp add: Cons.prems(2))
qed

lemma wf_graph_addTask: "wf_graph g \<Longrightarrow> addTask g t = Inr g' \<Longrightarrow> wf_graph g'"
proof -
  assume wf: "wf_graph g" and a: "addTask g t = Inr g'"
  define g1 where "g1 = (case map_of g (task_id t) of None \<Rightarrow> g @ [(task_id t, new_GraphNode t)] | Some node \<Rightarrow> g)"
  have wf1: "wf_graph g1"
    using wf wf_graph_new_node[of g t] by (auto simp: g1_def split: option.splits)
  have in1: "task_id t \<in> fst ` set g1"
    by (auto simp: g1_def dest: map_of_Some_key split: option.splits)
  show "wf_graph g'"
  proof (cases "dependencies t")
    case None
    then show ?thesis using a wf1 by (simp add: addTask_def g1_def)
  next
    case (Some ds)
    then have "link_dependencies (task_id t) g1 ds = Inr g'"
      using a by (simp add: addTask_def g1_def)
    from wf_graph_link_dependencies[OF wf1 in1 this] show ?thesis .
  qed
qed

lemma wf_graph_addTasks: "wf_graph g \<Longrightarrow> addTasks g ts = Inr g' \<Longrightarrow> wf_graph g'"
  by (induction ts arbitrary: g) (auto split: sum.splits dest: wf_graph_addTask)

lemma same_but_degree_refl: "same_but_degree g g"
  by (simp add: same_but_degree_def)

lemma same_but_degree_keys: "same_but_degree g g0 \<Longrightarrow> map fst g = map fst g0"
proof -
  assume "same_but_degree g g0"
  then have "map fst (map (\<lambda>(k, n). (k, n\<lparr>inDegree := 0\<rparr>)) g) = map fst (map (\<lambda>(k, n). (k, n\<lparr>inDegree := 0\<rparr>)) g0)"
    by (simp add: same_but_degree_def)
  then show ?thesis by (simp add: case_prod_unfold comp_def)
qed

lemma same_but_degree_lookup:
  "same_but_degree g g0 \<Longrightarrow>
   map_option (\<lambda>n. n\<lparr>inDegree := 0\<rparr>) (map_of g k) = map_option (\<lambda>n. n\<lparr>inDegree := 0\<rparr>) (map_of g0 k)"
proof -
  assume "same_but_degree g g0"
  then have "map_of (map (\<lambda>(k, n). (k, n\<lparr>inDegree := 0\<rparr>)) g) k = map_of (map (\<lambda>(k, n). (k, n\<lparr>inDegree := 0\<rparr>)) g0) k"
    by (simp add: same_but_degree_def)
  then show ?thesis by (simp add: map_of_map)
qed

lemma same_but_degree_fields:
  assumes "same_but_degree g g0" "map_of g k = Some n"
  shows "\<exists>n0. map_of g0 k = Some n0 \<and> node_id n0 = node_id n \<and> node_task n0 = node_task n \<and>
           node_dependencies n0 = node_dependencies n \<and> dependents n0 = dependents n"
proof -
  from same_but_degree_lookup[OF assms(1), of k] assms(2)
  obtain n0 where n0: "map_of g0 k = Some n0" "n\<lparr>inDegree := 0\<rparr> = n0\<lparr>inDegree := 0\<rparr>"
    by (cases "map_of g0 k") auto
  from n0(2) have "node_id n0 = node_id n \<and> node_task n0 = node_task n \<and>
           node_dependencies n0 = node_dependencies n \<and> dependents n0 = dependents n"
    by (cases n; cases n0) simp
  with n0(1) show ?thesis by blast
qed

lemma same_but_degree_deps: "same_but_degree g g0 \<Longrightarrow> deps g k = deps g0 k"
  using same_but_degree_lookup[of g g0 k]
  by (cases "map_of g k"; cases "map_of g0 k")
     (auto simp: deps_def dest: arg_cong[where f = node_dependencies])

lemma same_but_degree_dpts: "same_but_degree g g0 \<Longrightarrow> dpts g k = dpts g0 k"
  using same_but_degree_lookup[of g g0 k]
  by (cases "map_of g k"; cases "map_of g0 k")
     (auto simp: dpts_def dest: arg_cong[where f = dependents])

lemma same_but_degree_update:
  "same_but_degree g g0 \<Longrightarrow> same_but_degree (update_node c (\<lambda>n. n\<lparr>inDegree := inDegree n - 1\<rparr>) g) g0"
proof -
  have "map (\<lambda>(k, n). (k, n\<lparr>inDegree := 0\<rparr>)) (update_node c (\<lambda>n. n\<lparr>inDegree := inDegree n - 1\<rparr>) g)
      = map (\<lambda>(k, n). (k, n\<lparr>inDegree := 0\<rparr>)) g"
    by (induction g) (auto simp: update_node_def)
  then show "same_but_degree g g0 \<Longrightarrow> ?thesis" by (simp add: same_but_degree_def)
qed

lemma open_deps_insert:
  "x \<notin> E \<Longrightarrow> open_deps E ds = open_deps (insert x E) ds + count_list ds x"
  by (induction ds) (auto simp: open_deps_def)

lemma open_deps_zero: "open_deps E ds = 0 \<longleftrightarrow> set ds \<subseteq> E"
  by (induction ds) (auto simp: open_deps_def)

lemma deps_before_snoc:
  "deps_before seen (xs @ [n]) \<longleftrightarrow>
     deps_before seen xs \<and> set (node_dependencies n) \<subseteq> seen \<union> node_id ` set xs"
  by (induction xs arbitrary: seen) auto

lemma deg_update_node:
  "deg (update_node c (\<lambda>n. n\<lparr>inDegree := inDegree n - 1\<rparr>) g) k =
     (if k = c \<and> c \<in> fst ` set g then deg g k - 1 else deg g k)"
  by (auto simp: deg_def map_of_update_node map_of_None_iff[symmetric] split: option.splits)

lemma wf_node_id: "wf_graph g \<Longrightarrow> (k, n) \<in> set g \<Longrightarrow> node_id n = k"
  by (simp add: wf_graph_def)

lemma wf_map_node_id: "wf_graph g \<Longrightarrow> map node_id (map snd g) = map fst g"
  by (auto simp: wf_graph_def)

lemma kahn_inv_init:
  assumes "wf_graph g0"
  shows "kahn_inv g0 g0 (filter (\<lambda>node. inDegree node = 0) (map snd g0)) [] []"
proof -
  let ?q = "filter (\<lambda>node. inDegree node = 0) (map snd g0)"
  have dist: "distinct (map fst g0)" using assms by (simp add: wf_graph_def)
  have ids: "map node_id (map snd g0) = map fst g0" by (rule wf_map_node_id[OF assms])
  have a: "\<forall>k. k \<in> fst ` set g0 \<longrightarrow> deg g0 k = int (open_deps (node_id ` set []) (deps g0 k)) + int (count_list [] k)"
    using assms by (simp add: wf_graph_def open_deps_def)
  have b: "\<forall>m. m \<in> set ([] @ ?q) \<longrightarrow> map_of g0 (node_id m) = Some m \<and> inDegree m = 0"
  proof (intro allI impI)
    fix m assume "m \<in> set ([] @ ?q)"
    then obtain k where km: "(k, m) \<in> set g0" and z: "inDegree m = 0" by auto
    have "node_id m = k" using wf_node_id[OF assms km] .
    then show "map_of g0 (node_id m) = Some m \<and> inDegree m = 0"
      using km z dist by simp
  qed
  have c: "distinct (map node_id ([] @ ?q))"
    using dist ids by (metis append_Nil distinct_map_filter)
  have d: "\<forall>k. k \<in> fst ` set g0 \<longrightarrow> deg g0 k = 0 \<longrightarrow> k \<in> node_id ` set ([] @ ?q)"
  proof (intro allI impI)
    fix k assume "k \<in> fst ` set g0" and z: "deg g0 k = 0"
    then obtain n where kn: "(k, n) \<in> set g0" by auto
    then have "map_of g0 k = Some n" using dist by simp
    then have "inDegree n = 0" using z by (simp add: deg_def)
    moreover have "node_id n = k" using wf_node_id[OF assms kn] .
    ultimately show "k \<in> node_id ` set ([] @ ?q)" using kn by force
  qed
  show ?thesis
    unfolding kahn_inv_def using a b c d by (simp add: same_but_degree_refl)
qed

lemma kahn_node_id:
  assumes "wf_graph g0" "same_but_degree g g0" "map_of g k = Some n"
  shows "node_id n = k"
proof -
  obtain n0 where "map_of g0 k = Some n0" "node_id n0 = node_id n"
    using same_but_degree_fields[OF assms(2,3)] by blast
  then show ?thesis using assms(1) by (auto simp: wf_graph_def)
qed

lemma kahn_inv_step_inner:
  assumes wf: "wf_graph g0"
    and inv: "kahn_inv g0 g queue out (c # cs)"
    and look: "map_of g c = Some dependent"
  shows "kahn_inv g0 (update_node c (\<lambda>n. n\<lparr>inDegree := inDegree n - 1\<rparr>) g)
           (if inDegree (dependent\<lparr>inDegree := inDegree dependent - 1\<rparr>) = 0
            then queue @ [dependent\<lparr>inDegree := inDegree dependent - 1\<rparr>] else queue) out cs"
proof -
  let ?g = "update_node c (\<lambda>n. n\<lparr>inDegree := inDegree n - 1\<rparr>) g"
  let ?d = "dependent\<lparr>inDegree := inDegree dependent - 1\<rparr>"
  let ?q = "if inDegree ?d = 0 then queue @ [?d] else queue"
  have sbd: "same_but_degree g g0" using inv by (simp add: kahn_inv_def)
  have cin: "c \<in> fst ` set g" using look by (rule map_of_Some_key)
  have degs: "k \<in> fst ` set g \<Longrightarrow> deg g k =
        int (open_deps (node_id ` set out) (deps g0 k)) + int (count_list (c # cs) k)" for k
    using inv by (simp add: kahn_inv_def)
  have degc: "deg g c = inDegree dependent" using look by (simp add: deg_def)
  have pos: "1 \<le> deg g c" using degs[OF cin] by simp
  have old: "m \<in> set (out @ queue) \<Longrightarrow> map_of g (node_id m) = Some m \<and> inDegree m = 0" for m
    using inv unfolding kahn_inv_def by blast
  have notc: "node_id m \<noteq> c" if "m \<in> set (out @ queue)" for m
  proof
    assume "node_id m = c"
    then have "deg g c = 0" using old[OF that] by (auto simp: deg_def)
    then show False using pos by simp
  qed
  have idc: "node_id dependent = c" by (rule kahn_node_id[OF wf sbd look])
  have lookc: "map_of ?g c = Some ?d" using look by (simp add: map_of_update_node)
  have lookother: "k \<noteq> c \<Longrightarrow> map_of ?g k = map_of g k" for k
    by (simp add: map_of_update_node)
  have degnew: "k \<in> fst ` set g \<Longrightarrow> deg ?g k =
        int (open_deps (node_id ` set out) (deps g0 k)) + int (count_list cs k)" for k
    using degs[of k] cin by (auto simp: deg_update_node)
  have 1: "same_but_degree ?g g0" by (rule same_but_degree_update[OF sbd])
  have 3: "m \<in> set (out @ ?q) \<Longrightarrow> map_of ?g (node_id m) = Some m \<and> inDegree m = 0" for m
    using old[of m] notc[of m] lookother[of "node_id m"] lookc idc
    by (auto split: if_splits)
  have dist_old: "distinct (map node_id (out @ queue))" using inv by (simp add: kahn_inv_def)
  have cfresh: "c \<notin> node_id ` set (out @ queue)" using notc by blast
  have 4: "distinct (map node_id (out @ ?q))" using dist_old cfresh idc by auto
  have compl_old: "k \<in> fst ` set g \<Longrightarrow> deg g k = 0 \<Longrightarrow> k \<in> node_id ` set (out @ queue)" for k
    using inv by (simp add: kahn_inv_def)
  have 5: "k \<in> fst ` set ?g \<Longrightarrow> deg ?g k = 0 \<Longrightarrow> k \<in> node_id ` set (out @ ?q)" for k
  proof (cases "k = c")
    case True
    assume "deg ?g k = 0"
    then have "inDegree ?d = 0" using True lookc by (simp add: deg_def)
    then show ?thesis using True idc by force
  next
    case False
    assume "k \<in> fst ` set ?g" "deg ?g k = 0"
    then have "k \<in> fst ` set g" "deg g k = 0" using False by (simp_all add: deg_update_node)
    from compl_old[OF this] show ?thesis by auto
  qed
  have 6: "deps_before {} out" using inv by (simp add: kahn_inv_def)
  have 7: "set cs \<subseteq> fst ` set ?g" using inv by (simp add: kahn_inv_def)
  have 2: "\<forall>k. k \<in> fst ` set ?g \<longrightarrow> deg ?g k =
        int (open_deps (node_id ` set out) (deps g0 k)) + int (count_list cs k)"
    using degnew by simp
  have i3: "\<forall>m. m \<in> set (out @ ?q) \<longrightarrow> map_of ?g (node_id m) = Some m \<and> inDegree m = 0"
    using 3 by blast
  have i5: "\<forall>k. k \<in> fst ` set ?g \<longrightarrow> deg ?g k = 0 \<longrightarrow> k \<in> node_id ` set (out @ ?q)"
    using 5 by blast
  show ?thesis
    unfolding kahn_inv_def by (intro conjI 1 2 i3 4 i5 6 7)
qed

lemma kahn_release_dependents:
  assumes wf: "wf_graph g0"
  shows "kahn_inv g0 g queue out pending \<Longrightarrow> release_dependents pending g queue = (g', queue') \<Longrightarrow>
         kahn_inv g0 g' queue' out []"
proof (induction pending arbitrary: g queue)
  case Nil
  then show ?case by simp
next
  case (Cons c cs)
  have "c \<in> fst ` set g" using Cons.prems(1) by (simp add: kahn_inv_def)
  then obtain dependent where look: "map_of g c = Some dependent"
    by (metis map_of_None_iff not_Some_eq)
  note step = kahn_inv_step_inner[OF wf Cons.prems(1) look]
  have "release_dependents cs (update_node c (\<lambda>n. n\<lparr>inDegree := inDegree n - 1\<rparr>) g)
           (if inDegree (dependent\<lparr>inDegree := inDegree dependent - 1\<rparr>) = 0
            then queue @ [dependent\<lparr>inDegree := inDegree dependent - 1\<rparr>] else queue) = (g', queue')"
    using Cons.prems(2) look by (simp add: Let_def)
  from Cons.IH[OF step this] show ?case .
qed

lemma kahn_inv_step_outer:
  assumes wf: "wf_graph g0"
    and inv: "kahn_inv g0 g queue out []"
    and srt: "sort_queue queue = node # rest"
  shows "kahn_inv g0 g rest (out @ [node]) (dependents node)"
proof -
  have ms: "mset (node # rest) = mset queue"
    using arg_cong[OF srt, of mset] by (simp add: sort_queue_def)
  then have st: "set queue = insert node (set rest)" by (metis list.simps(15) mset_eq_setD)
  have sbd: "same_but_degree g g0" using inv by (simp add: kahn_inv_def)
  have old: "m \<in> set (out @ queue) \<Longrightarrow> map_of g (node_id m) = Some m \<and> inDegree m = 0" for m
    using inv unfolding kahn_inv_def by blast
  have nodeq: "node \<in> set queue" using st by simp
  have look: "map_of g (node_id node) = Some node" and z: "inDegree node = 0"
    using old[of node] nodeq by simp_all
  have dist_old: "distinct (map node_id (out @ queue))" using inv by (simp add: kahn_inv_def)
  have "mset (map node_id (out @ queue)) = mset (map node_id ((out @ [node]) @ rest))"
    using ms by (simp flip: ms)
  then have 4: "distinct (map node_id ((out @ [node]) @ rest))"
    using dist_old by (metis mset_eq_imp_distinct_iff)
  have fresh: "node_id node \<notin> node_id ` set out" using 4 by auto
  have sets: "set ((out @ [node]) @ rest) = set (out @ queue)" using st by auto
  have degs: "k \<in> fst ` set g \<Longrightarrow> deg g k = int (open_deps (node_id ` set out) (deps g0 k))" for k
    using inv by (simp add: kahn_inv_def)
  have dp: "dependents node = dpts g0 (node_id node)"
    using look same_but_degree_dpts[OF sbd, of "node_id node"] by (simp add: dpts_def)
  have cnt: "count_list (dependents node) k = count_list (deps g0 k) (node_id node)" for k
    using wf unfolding dp by (simp add: wf_graph_def)
  have 2: "k \<in> fst ` set g \<Longrightarrow> deg g k =
      int (open_deps (node_id ` set (out @ [node])) (deps g0 k)) + int (count_list (dependents node) k)" for k
    using degs[of k] open_deps_insert[OF fresh, of "deps g0 k"] by (simp add: cnt)
  have 3: "m \<in> set ((out @ [node]) @ rest) \<Longrightarrow> map_of g (node_id m) = Some m \<and> inDegree m = 0" for m
    using old[of m] unfolding sets by simp
  have 5: "k \<in> fst ` set g \<Longrightarrow> deg g k = 0 \<Longrightarrow> k \<in> node_id ` set ((out @ [node]) @ rest)" for k
    using inv unfolding sets by (simp add: kahn_inv_def)
  have nd: "node_dependencies node = deps g0 (node_id node)"
    using look same_but_degree_deps[OF sbd, of "node_id node"] by (simp add: deps_def)
  have "node_id node \<in> fst ` set g" using look by (rule map_of_Some_key)
  from degs[OF this] have "open_deps (node_id ` set out) (deps g0 (node_id node)) = 0"
    using look z by (simp add: deg_def)
  then have sub: "set (node_dependencies node) \<subseteq> node_id ` set out"
    by (simp add: open_deps_zero nd)
  have 6: "deps_before {} (out @ [node])"
    using inv sub by (simp add: deps_before_snoc kahn_inv_def)
  have keys: "fst ` set g = fst ` set g0" using same_but_degree_keys[OF sbd] by (metis set_map)
  have 7: "set (dependents node) \<subseteq> fst ` set g"
    unfolding dp keys using wf by (simp add: wf_graph_def)
  have i2: "\<forall>k. k \<in> fst ` set g \<longrightarrow> deg g k =
      int (open_deps (node_id ` set (out @ [node])) (deps g0 k)) + int (count_list (dependents node) k)"
    using 2 by blast
  have i3: "\<forall>m. m \<in> set ((out @ [node]) @ rest) \<longrightarrow> map_of g (node_id m) = Some m \<and> inDegree m = 0"
    using 3 by blast
  have i5: "\<forall>k. k \<in> fst ` set g \<longrightarrow> deg g k = 0 \<longrightarrow> k \<in> node_id ` set ((out @ [node]) @ rest)"
    using 5 by blast
  show ?thesis
    unfolding kahn_inv_def by (intro conjI sbd i2 i3 4 i5 6 7)
qed

lemma sort_queue_Nil: "sort_queue queue = [] \<longleftrightarrow> queue = []"
  unfolding sort_queue_def by (metis length_sort length_0_conv)

lemma kahn_sort_loop:
  assumes wf: "wf_graph g0"
  shows "kahn_inv g0 g queue out [] \<Longrightarrow> \<exists>g'. kahn_inv g0 g' [] (sort_loop g queue out) []"
proof (induction g queue out rule: sort_loop.induct)
  case (1 g queue out)
  show ?case
  proof (cases "sort_queue queue")
    case Nil
    then have "queue = []" by (simp add: sort_queue_Nil)
    then show ?thesis using "1.prems" Nil by (subst sort_loop.simps) auto
  next
    case (Cons node rest)
    obtain g' queue' where r: "release_dependents (dependents node) g rest = (g', queue')"
      by (cases "release_dependents (dependents node) g rest")
    have "kahn_inv g0 g' queue' (out @ [node]) []"
      by (rule kahn_release_dependents[OF wf kahn_inv_step_outer[OF wf "1.prems" Cons] r])
    from "1.IH"[OF Cons r[symmetric] this]
    show ?thesis using Cons r by (subst sort_loop.simps) simp
  qed
qed

lemma kahn_final:
  assumes wf: "wf_graph g"
  shows "\<exists>g'. kahn_inv g g' [] (sort_loop g (filter (\<lambda>node. inDegree node = 0) (map snd g)) []) []"
  by (rule kahn_sort_loop[OF wf kahn_inv_init[OF wf]])

lemma kahn_inv_out_keys:
  assumes "kahn_inv g g' [] out []"
  shows "node_id ` set out \<subseteq> fst ` set g"
proof
  fix k assume "k \<in> node_id ` set out"
  then obtain m where m: "m \<in> set out" "k = node_id m" by auto
  have "map_of g' (node_id m) = Some m" using assms m(1) unfolding kahn_inv_def by simp
  then have "k \<in> fst ` set g'" using m(2) by (auto dest: map_of_Some_key)
  moreover have "map fst g' = map fst g"
    using assms same_but_degree_keys unfolding kahn_inv_def by blast
  ultimately show "k \<in> fst ` set g" by (metis set_map)
qed

lemma kahn_inv_out_node:
  assumes "kahn_inv g g' [] out []" "m \<in> set out"
  shows "\<exists>n0. map_of g (node_id m) = Some n0 \<and> node_task n0 = node_task m \<and>
           node_dependencies n0 = node_dependencies m \<and> dependents n0 = dependents m"
proof -
  have "map_of g' (node_id m) = Some m" using assms unfolding kahn_inv_def by simp
  moreover have "same_but_degree g' g" using assms unfolding kahn_inv_def by simp
  ultimately show ?thesis using same_but_degree_fields by blast
qed

lemma topologicalSort_sound:
  assumes wf: "wf_graph g" and res: "topologicalSortWithPriority g = Inr out"
  shows "distinct (map node_id out) \<and> node_id ` set out = fst ` set g \<and> deps_before {} out \<and>
         (\<forall>m. m \<in> set out \<longrightarrow> (\<exists>n0. map_of g (node_id m) = Some n0 \<and> node_task n0 = node_task m \<and>
             node_dependencies n0 = node_dependencies m \<and> dependents n0 = dependents m))"
proof -
  from res have out: "out = sort_loop g (filter (\<lambda>node. inDegree node = 0) (map snd g)) []"
    and len: "length out = length g"
    by (auto simp: topologicalSortWithPriority_def Let_def split: if_splits)
  obtain g' where inv: "kahn_inv g g' [] out []" using kahn_final[OF wf] out by blast
  have d: "distinct (map node_id out)" using inv unfolding kahn_inv_def by simp
  have sub: "node_id ` set out \<subseteq> fst ` set g" by (rule kahn_inv_out_keys[OF inv])
  have "card (node_id ` set out) = length out" using d by (metis distinct_card length_map set_map)
  moreover have "card (fst ` set g) = length g"
    using wf by (metis wf_graph_def distinct_card length_map set_map)
  ultimately have "node_id ` set out = fst ` set g"
    using sub len by (simp add: card_subset_eq)
  moreover have "deps_before {} out" using inv unfolding kahn_inv_def by simp
  ultimately show ?thesis using d kahn_inv_out_node[OF inv] by blast
qed

lemma topologicalSort_complete:
  assumes wf: "wf_graph g" and fw: "forward g"
  shows "\<exists>out. topologicalSortWithPriority g = Inr out"
proof -
  define out where "out = sort_loop g (filter (\<lambda>node. inDegree node = 0) (map snd g)) []"
  obtain g' where inv: "kahn_inv g g' [] out []" using kahn_final[OF wf] out_def by blast
  have keys: "fst ` set g' = fst ` set g"
    using inv same_but_degree_keys unfolding kahn_inv_def by (metis set_map)
  have degs: "k \<in> fst ` set g \<Longrightarrow> deg g' k = int (open_deps (node_id ` set out) (deps g k))" for k
    using inv keys unfolding kahn_inv_def by simp
  have compl: "k \<in> fst ` set g \<Longrightarrow> deg g' k = 0 \<Longrightarrow> k \<in> node_id ` set out" for k
    using inv keys unfolding kahn_inv_def by simp
  have all: "i < length g \<Longrightarrow> fst (g ! i) \<in> node_id ` set out" for i
  proof (induction i rule: less_induct)
    case (less i)
    have "set (deps g (fst (g ! i))) \<subseteq> set (take i (map fst g))"
      using fw less.prems by (simp add: forward_def)
    moreover have "set (take i (map fst g)) \<subseteq> node_id ` set out"
    proof
      fix k assume "k \<in> set (take i (map fst g))"
      then obtain j where "j < i" "j < length g" "k = fst (g ! j)"
        by (auto simp: in_set_conv_nth)
      then show "k \<in> node_id ` set out" using less.IH by simp
    qed
    ultimately have "open_deps (node_id ` set out) (deps g (fst (g ! i))) = 0"
      by (simp add: open_deps_zero)
    moreover have kin: "fst (g ! i) \<in> fst ` set g" using less.prems by simp
    ultimately show ?case using degs[OF kin] compl[OF kin] by simp
  qed
  have "fst ` set g \<subseteq> node_id ` set out"
  proof
    fix k assume "k \<in> fst ` set g"
    then obtain i where "i < length g" "k = fst (g ! i)" by (auto simp: in_set_conv_nth)
    then show "k \<in> node_id ` set out" using all by simp
  qed
  then have eq: "node_id ` set out = fst ` set g" using kahn_inv_out_keys[OF inv] by blast
  have d: "distinct (map node_id out)" using inv unfolding kahn_inv_def by simp
  have "length out = card (node_id ` set out)" using d by (metis distinct_card length_map set_map)
  also have "\<dots> = length g"
    unfolding eq using wf by (metis wf_graph_def distinct_card length_map set_map)
  finally show ?thesis
    by (simp add: topologicalSortWithPriority_def Let_def out_def)
qed

lemma link_dependencies_ok:
  "nid \<in> fst ` set g \<Longrightarrow> set ds \<subseteq> fst ` set g \<Longrightarrow>
   \<exists>g'. link_dependencies nid g ds = Inr g' \<and> map fst g' = map fst g \<and>
        (\<forall>k. deps g' k = (if k = nid then deps g k @ ds else deps g k))"
proof (induction ds arbitrary: g)
  case Nil
  then show ?case by simp
next
  case (Cons d ds)
  have din: "d \<in> fst ` set g" using Cons.prems(2) by simp
  then obtain dn where dn: "map_of g d = Some dn" by (metis map_of_None_iff not_Some_eq)
  have "nid \<in> fst ` set (link_one nid d g)" "set ds \<subseteq> fst ` set (link_one nid d g)"
    using Cons.prems by simp_all
  from Cons.IH[OF this] obtain g' where g': "link_dependencies nid (link_one nid d g) ds = Inr g'"
    "map fst g' = map fst (link_one nid d g)"
    "\<forall>k. deps g' k = (if k = nid then deps (link_one nid d g) k @ ds else deps (link_one nid d g) k)"
    by blast
  have "link_dependencies nid g (d # ds) = Inr g'"
    using dn g'(1) by (simp add: link_dependencies_Cons del: link_dependencies.simps)
  moreover have "map fst g' = map fst g" using g'(2) by simp
  moreover have "\<forall>k. deps g' k = (if k = nid then deps g k @ (d # ds) else deps g k)"
    using g'(3) link_one_accessors(1)[OF Cons.prems(1) din] by simp
  ultimately show ?case by blast
qed

lemma addTask_dependencies: "addTask g t =
   link_dependencies (task_id t)
     (case map_of g (task_id t) of None \<Rightarrow> g @ [(task_id t, new_GraphNode t)] | Some node \<Rightarrow> g)
     (deplist t) \<or> (dependencies t = None \<and> addTask g t =
     Inr (case map_of g (task_id t) of None \<Rightarrow> g @ [(task_id t, new_GraphNode t)] | Some node \<Rightarrow> g))"
  by (simp add: addTask_def deplist_def split: option.splits)

lemma addTask_eq: "addTask g t =
   link_dependencies (task_id t)
     (case map_of g (task_id t) of None \<Rightarrow> g @ [(task_id t, new_GraphNode t)] | Some node \<Rightarrow> g)
     (deplist t)"
  by (simp add: addTask_def deplist_def split: option.splits)

lemma deps_snoc_fresh:
  "map_of g k = None \<Longrightarrow> deps (g @ [(k, new_GraphNode t)]) k' = deps g k'"
  unfolding deps_def map_of_snoc by (auto simp: new_GraphNode_def)

lemma addTask_fresh:
  assumes wf: "wf_graph g" and fw: "forward g"
    and fresh: "task_id t \<notin> fst ` set g" and sub: "set (deplist t) \<subseteq> fst ` set g"
  shows "\<exists>g'. addTask g t = Inr g' \<and> wf_graph g' \<and> forward g' \<and> map fst g' = map fst g @ [task_id t]"
proof -
  let ?g1 = "g @ [(task_id t, new_GraphNode t)]"
  have none: "map_of g (task_id t) = None" using fresh by (simp add: map_of_None_iff)
  have a: "addTask g t = link_dependencies (task_id t) ?g1 (deplist t)"
    by (simp add: addTask_eq none)
  obtain g' where g': "link_dependencies (task_id t) ?g1 (deplist t) = Inr g'"
    "map fst g' = map fst ?g1"
    "\<forall>k. deps g' k = (if k = task_id t then deps ?g1 k @ deplist t else deps ?g1 k)"
    using link_dependencies_ok[of "task_id t" ?g1 "deplist t"] sub by auto
  have wf': "wf_graph g'" using wf_graph_addTask[OF wf] a g'(1) by simp
  have d1: "deps ?g1 k = deps g k" for k by (rule deps_snoc_fresh[OF none])
  have dfresh: "deps g (task_id t) = []" using none by (simp add: deps_def)
  have dg': "deps g' k = (if k = task_id t then deplist t else deps g k)" for k
    using g'(3) d1 dfresh by simp
  have keys: "map fst g' = map fst g @ [task_id t]" using g'(2) by simp
  have "forward g'"
    unfolding forward_def
  proof (intro allI impI)
    fix i assume "i < length g'"
    then have i: "i < Suc (length g)" using arg_cong[OF keys, of length] by simp
    show "set (deps g' (map fst g' ! i)) \<subseteq> set (take i (map fst g'))"
    proof (cases "i < length g")
      case True
      then have k: "map fst g' ! i = map fst g ! i" by (simp add: keys nth_append)
      have "map fst g ! i \<in> fst ` set g" using True by (metis length_map nth_mem set_map)
      with fresh have "map fst g ! i \<noteq> task_id t" by metis
      then have "deps g' (map fst g' ! i) = deps g (map fst g ! i)" by (simp add: k dg')
      moreover have "set (deps g (map fst g ! i)) \<subseteq> set (take i (map fst g))"
        using fw True by (simp add: forward_def)
      moreover have "take i (map fst g') = take i (map fst g)" using True by (simp add: keys)
      ultimately show ?thesis by simp
    next
      case False
      then have ieq: "i = length g" using i by simp
      then have "map fst g' ! i = task_id t" by (simp add: keys nth_append)
      then have "deps g' (map fst g' ! i) = deplist t" by (simp add: dg')
      moreover have "take i (map fst g') = map fst g" by (simp add: keys ieq)
      ultimately show ?thesis using sub by simp
    qed
  qed
  then show ?thesis using a g'(1) wf' keys by simp
qed

lemma addTasks_in_order_gen:
  "wf_graph g \<Longrightarrow> forward g \<Longrightarrow> distinct (map fst g @ map task_id ts) \<Longrightarrow>
   (\<forall>i < length ts. set (deplist (ts ! i)) \<subseteq> set (map fst g) \<union> set (take i (map task_id ts))) \<Longrightarrow>
   \<exists>g'. addTasks g ts = Inr g' \<and> wf_graph g' \<and> forward g' \<and> map fst g' = map fst g @ map task_id ts"
proof (induction ts arbitrary: g)
  case Nil
  then show ?case by simp
next
  case (Cons t ts)
  have fresh: "task_id t \<notin> fst ` set g" using Cons.prems(3) by auto
  have sub: "set (deplist t) \<subseteq> fst ` set g" using Cons.prems(4)[rule_format, of 0] by simp
  obtain g1 where g1: "addTask g t = Inr g1" "wf_graph g1" "forward g1"
    "map fst g1 = map fst g @ [task_id t]"
    using addTask_fresh[OF Cons.prems(1,2) fresh sub] by blast
  have d: "distinct (map fst g1 @ map task_id ts)" using Cons.prems(3) g1(4) by simp
  have s: "\<forall>i < length ts. set (deplist (ts ! i)) \<subseteq> set (map fst g1) \<union> set (take i (map task_id ts))"
  proof (intro allI impI)
    fix i assume "i < length ts"
    then have "set (deplist ((t # ts) ! Suc i)) \<subseteq> set (map fst g) \<union> set (take (Suc i) (map task_id (t # ts)))"
      using Cons.prems(4)[rule_format, of "Suc i"] by simp
    then show "set (deplist (ts ! i)) \<subseteq> set (map fst g1) \<union> set (take i (map task_id ts))"
      using g1(4) by auto
  qed
  from Cons.IH[OF g1(2,3) d s] obtain g' where "addTasks g1 ts = Inr g'" "wf_graph g'" "forward g'"
    "map fst g' = map fst g1 @ map task_id ts" by blast
  then show ?case using g1(1,4) by simp
qed

lemma forward_empty: "forward []"
  by (simp add: forward_def)

lemma addTasks_in_order:
  assumes "tasks_in_order ts"
  shows "\<exists>g. addTasks [] ts = Inr g \<and> wf_graph g \<and> forward g \<and> map fst g = map task_id ts"
  using addTasks_in_order_gen[OF wf_graph_empty forward_empty, of ts] assms
  by (simp add: tasks_in_order_def)

lemma link_dependencies_error:
  "link_dependencies nid g ds = Inl e \<Longrightarrow> \<exists>d \<in> set ds. e = DependencyNotFound d nid"
proof (induction ds arbitrary: g)
  case Nil
  then show ?case by simp
next
  case (Cons d ds)
  then show ?case
    by (cases "map_of g d") (auto simp: link_dependencies_Cons simp del: link_dependencies.simps)
qed

lemma link_dependencies_keys:
  "link_dependencies nid g ds = Inr g' \<Longrightarrow> map fst g' = map fst g \<and> set ds \<subseteq> fst ` set g"
proof (induction ds arbitrary: g)
  case Nil
  then show ?case by simp
next
  case (Cons d ds)
  from Cons.prems obtain dn where dn: "map_of g d = Some dn"
    and rest: "link_dependencies nid (link_one nid d g) ds = Inr g'"
    by (cases "map_of g d") (auto simp: link_dependencies_Cons simp del: link_dependencies.simps)
  from Cons.IH[OF rest] have "map fst g' = map fst g" "set ds \<subseteq> fst ` set g" by simp_all
  moreover have "d \<in> fst ` set g" using dn by (rule map_of_Some_key)
  ultimately show ?case by simp
qed

lemma addTask_error:
  "addTask g t = Inl e \<Longrightarrow> \<exists>d \<in> set (deplist t). e = DependencyNotFound d (task_id t)"
  unfolding addTask_eq by (rule link_dependencies_error)

lemma addTask_keys:
  assumes "addTask g t = Inr g'"
  shows "set (map fst g') = insert (task_id t) (set (map fst g)) \<and> set (deplist t) \<subseteq> set (map fst g')"
proof -
  let ?g1 = "case map_of g (task_id t) of None \<Rightarrow> g @ [(task_id t, new_GraphNode t)] | Some node \<Rightarrow> g"
  have "map fst g' = map fst ?g1 \<and> set (deplist t) \<subseteq> fst ` set ?g1"
    using assms unfolding addTask_eq by (rule link_dependencies_keys)
  moreover have "set (map fst ?g1) = insert (task_id t) (set (map fst g))"
    by (cases "map_of g (task_id t)") (auto dest: map_of_Some_key)
  ultimately show ?thesis by (metis set_map)
qed

lemma addTasks_error:
  "addTasks g ts = Inl e \<Longrightarrow> \<exists>t \<in> set ts. \<exists>d \<in> set (deplist t). e = DependencyNotFound d (task_id t)"
proof (induction ts arbitrary: g)
  case Nil
  then show ?case by simp
next
  case (Cons t ts)
  then show ?case by (cases "addTask g t") (auto dest: addTask_error)
qed

lemma addTasks_keys:
  "addTasks g ts = Inr g' \<Longrightarrow>
   set (map fst g') = set (map fst g) \<union> task_id ` set ts \<and>
   (\<forall>t \<in> set ts. set (deplist t) \<subseteq> set (map fst g'))"
proof (induction ts arbitrary: g)
  case Nil
  then show ?case by simp
next
  case (Cons t ts)
  then obtain g1 where g1: "addTask g t = Inr g1" "addTasks g1 ts = Inr g'"
    by (cases "addTask g t") auto
  from Cons.IH[OF g1(2)] have ih: "set (map fst g') = set (map fst g1) \<union> task_id ` set ts"
    "\<forall>t \<in> set ts. set (deplist t) \<subseteq> set (map fst g')" by blast+
  from addTask_keys[OF g1(1)] have st: "set (map fst g1) = insert (task_id t) (set (map fst g))"
    "set (deplist t) \<subseteq> set (map fst g1)" by blast+
  have "set (map fst g') = set (map fst g) \<union> task_id ` set (t # ts)" using ih(1) st(1) by auto
  moreover have "set (deplist t) \<subseteq> set (map fst g')" using st(2) ih(1) by blast
  ultimately show ?case using ih(2) by simp
qed

lemma addTasks_unknown:
  assumes "t \<in> set ts" "d \<in> set (deplist t)" "d \<notin> task_id ` set ts"
  shows "\<exists>t' \<in> set ts. \<exists>d' \<in> set (deplist t'). addTasks [] ts = Inl (DependencyNotFound d' (task_id t'))"
proof (cases "addTasks [] ts")
  case (Inl e)
  then show ?thesis using addTasks_error[OF Inl] by auto
next
  case (Inr g')
  from addTasks_keys[OF Inr] have k: "set (map fst g') = set (map fst ([]::Graph)) \<union> task_id ` set ts"
    and dd: "\<forall>t \<in> set ts. set (deplist t) \<subseteq> set (map fst g')" by blast+
  have "d \<in> set (map fst g')" using dd assms(1,2) by blast
  then have "d \<in> task_id ` set ts" unfolding k by simp
  then show ?thesis using assms(3) by simp
qed

section \<open>Properties of the semaphore\<close>

lemma Suc_length_remove1: "x \<in> set xs \<Longrightarrow> Suc (length (remove1 x xs)) = length xs"
  by (induction xs) auto

lemma sem_inv_init: "0 \<le> K \<Longrightarrow> sem_inv K (sem_init K)"
  by (simp add: sem_inv_def sem_init_def new_Semaphore_def)

lemma sem_inv_acquire: "sem_inv K sys \<Longrightarrow> sem_inv K (do_acquire who sys)"
  by (auto simp: sem_inv_def do_acquire_def acquire_def)

lemma sem_inv_release:
  assumes "sem_inv K sys" "who \<in> set (holders sys)"
  shows "sem_inv K (do_release who sys)"
proof -
  have len: "int (length (remove1 who (holders sys))) = int (length (holders sys)) - 1"
    using Suc_length_remove1[OF assms(2)] by linarith
  show ?thesis
  proof (cases "tasks (sem sys)")
    case Nil
    then show ?thesis using assms(1) len
      by (simp add: sem_inv_def do_release_def release_def Let_def)
  next
    case (Cons w rest)
    then show ?thesis using assms(1) len
      by (simp add: sem_inv_def do_release_def release_def Let_def)
  qed
qed

lemma reachable_inv: "reachable K sys \<Longrightarrow> 0 \<le> K \<Longrightarrow> sem_inv K sys"
  by (induction rule: reachable.induct) (simp_all add: sem_inv_init sem_inv_acquire sem_inv_release)

section \<open>Properties of the driver\<close>

lemma assign_levels_Cons:
  "assign_levels (node # rest) nodeLevels =
     assign_levels rest (nodeLevels(node_id node \<mapsto> node_level nodeLevels node))"
  by (simp add: node_level_def Let_def)

lemma math_max_numbers:
  "(\<forall>x \<in> set xs. \<exists>n. x = Level n) \<Longrightarrow> xs \<noteq> [] \<Longrightarrow>
   \<exists>m. math_max xs = Level m \<and> (\<forall>n. Level n \<in> set xs \<longrightarrow> n \<le> m)"
proof (induction xs)
  case Nil
  then show ?case by simp
next
  case (Cons x xs)
  obtain a where a: "x = Level a" using Cons.prems(1) by auto
  show ?case
  proof (cases "xs = []")
    case True
    then show ?thesis using a by simp
  next
    case False
    then obtain m where m: "math_max xs = Level m" "\<forall>n. Level n \<in> set xs \<longrightarrow> n \<le> m"
      using Cons by auto
    then show ?thesis using a by auto
  qed
qed

lemma node_level_number:
  assumes "all_numbers NL" "set (node_dependencies c) \<subseteq> dom NL"
  shows "\<exists>lc. node_level NL c = Level lc \<and>
           (\<forall>p \<in> set (node_dependencies c). \<exists>lp. NL p = Some (Level lp) \<and> lp < lc)"
proof (cases "node_dependencies c = []")
  case True
  then show ?thesis by (simp add: node_level_def)
next
  case False
  let ?xs = "map (get_level NL) (node_dependencies c)"
  have lv: "\<exists>n. NL p = Some (Level n)" if "p \<in> set (node_dependencies c)" for p
    using assms that unfolding all_numbers_def by (metis domD subsetD)
  have "\<forall>x \<in> set ?xs. \<exists>n. x = Level n"
  proof
    fix x assume "x \<in> set ?xs"
    then obtain p where "p \<in> set (node_dependencies c)" "x = get_level NL p" by auto
    then show "\<exists>n. x = Level n" using lv[of p] by (auto simp: get_level_def)
  qed
  moreover have "?xs \<noteq> []" using False by simp
  ultimately obtain m where m: "math_max ?xs = Level m" "\<forall>n. Level n \<in> set ?xs \<longrightarrow> n \<le> m"
    using math_max_numbers by blast
  have "node_level NL c = Level (m + 1)" using False m(1) by (simp add: node_level_def)
  moreover have "\<exists>lp. NL p = Some (Level lp) \<and> lp < m + 1" if pin: "p \<in> set (node_dependencies c)" for p
  proof -
    obtain n where n: "NL p = Some (Level n)" using lv[OF pin] by blast
    then have "Level n \<in> set ?xs" using pin by (force simp: get_level_def)
    then show ?thesis using m(2) n by auto
  qed
  ultimately show ?thesis by blast
qed

lemma node_level_cong:
  "(\<forall>p \<in> set (node_dependencies c). NL p = NL' p) \<Longrightarrow> node_level NL c = node_level NL' c"
proof -
  assume a: "\<forall>p \<in> set (node_dependencies c). NL p = NL' p"
  have eq: "map (get_level NL) (node_dependencies c) = map (get_level NL') (node_dependencies c)"
    by (rule map_cong) (use a in \<open>simp_all add: get_level_def\<close>)
  show ?thesis by (simp only: node_level_def eq)
qed

text \<open>The levels computed for a list in which every node comes after its dependencies.\<close>

lemma assign_levels_inv:
  "all_numbers NL0 \<Longrightarrow> deps_before (dom NL0) rest \<Longrightarrow> distinct (map node_id rest) \<Longrightarrow>
   dom NL0 \<inter> node_id ` set rest = {} \<Longrightarrow>
   all_numbers (assign_levels rest NL0) \<and>
   dom (assign_levels rest NL0) = dom NL0 \<union> node_id ` set rest \<and>
   (\<forall>k \<in> dom NL0. assign_levels rest NL0 k = NL0 k) \<and>
   (\<forall>c \<in> set rest. assign_levels rest NL0 (node_id c) = Some (node_level (assign_levels rest NL0) c) \<and>
        set (node_dependencies c) \<subseteq> dom (assign_levels rest NL0))"
proof (induction rest arbitrary: NL0)
  case Nil
  then show ?case by simp
next
  case (Cons c rest)
  let ?NL1 = "NL0(node_id c \<mapsto> node_level NL0 c)"
  let ?NL = "assign_levels rest ?NL1"
  have sub: "set (node_dependencies c) \<subseteq> dom NL0" using Cons.prems(2) by simp
  obtain lc where lc: "node_level NL0 c = Level lc"
    using node_level_number[OF Cons.prems(1) sub] by blast
  have num1: "all_numbers ?NL1" using Cons.prems(1) lc by (auto simp: all_numbers_def)
  have dom1: "dom ?NL1 = insert (node_id c) (dom NL0)" by simp
  have db1: "deps_before (dom ?NL1) rest" using Cons.prems(2) by (simp del: fun_upd_apply)
  have d1: "distinct (map node_id rest)" using Cons.prems(3) by simp
  have dis1: "dom ?NL1 \<inter> node_id ` set rest = {}" using Cons.prems(3,4) by auto
  from Cons.IH[OF num1 db1 d1 dis1]
  have ih: "all_numbers ?NL" "dom ?NL = dom ?NL1 \<union> node_id ` set rest"
    "\<forall>k \<in> dom ?NL1. ?NL k = ?NL1 k"
    "\<forall>c' \<in> set rest. ?NL (node_id c') = Some (node_level ?NL c') \<and> set (node_dependencies c') \<subseteq> dom ?NL"
    by blast+
  have keep: "\<forall>k \<in> dom NL0. ?NL k = NL0 k"
  proof
    fix k assume k: "k \<in> dom NL0"
    then have "k \<noteq> node_id c" using Cons.prems(4) by auto
    then show "?NL k = NL0 k" using ih(3) k by auto
  qed
  have "?NL (node_id c) = Some (node_level NL0 c)" using ih(3) by simp
  moreover have "node_level NL0 c = node_level ?NL c"
  proof (rule node_level_cong, rule ballI)
    fix p assume "p \<in> set (node_dependencies c)"
    then have "p \<in> dom NL0" using sub by blast
    then show "NL0 p = ?NL p" using keep by (metis (no_types))
  qed
  ultimately have cc: "?NL (node_id c) = Some (node_level ?NL c)" by simp
  have subc: "set (node_dependencies c) \<subseteq> dom ?NL" using sub ih(2) by auto
  show ?case
    unfolding assign_levels_Cons
    using ih(1,2,4) keep cc subc by auto
qed

lemma assign_levels_edges:
  assumes db: "deps_before {} out" and d: "distinct (map node_id out)"
    and c: "c \<in> set out" and p: "p \<in> set (node_dependencies c)"
  shows "\<exists>lp lc. assign_levels out Map.empty p = Some (Level lp) \<and>
           assign_levels out Map.empty (node_id c) = Some (Level lc) \<and> lp < lc"
proof -
  let ?NL = "assign_levels out Map.empty"
  have num: "all_numbers (Map.empty :: string \<rightharpoonup> level)" by (simp add: all_numbers_def)
  have e: "deps_before (dom (Map.empty :: string \<rightharpoonup> level)) out" using db by simp
  have f: "dom (Map.empty :: string \<rightharpoonup> level) \<inter> node_id ` set out = {}" by simp
  from assign_levels_inv[OF num e d f]
  have "all_numbers ?NL" and
    "\<forall>c \<in> set out. ?NL (node_id c) = Some (node_level ?NL c) \<and> set (node_dependencies c) \<subseteq> dom ?NL"
    by blast+
  with c have inv: "all_numbers ?NL" "?NL (node_id c) = Some (node_level ?NL c)"
    "set (node_dependencies c) \<subseteq> dom ?NL" by blast+
  from node_level_number[OF inv(1,3)] p inv(2) show ?thesis by auto
qed

lemma start_node_eq:
  "start_node node ex =
     ex\<lparr>running := running ex @ [(node, run_of ex node)],
        trace := trace ex @ [Started (node_id node) (dependencyResults ex node) (clock ex)]\<rparr>"
  by (simp add: start_node_def run_of_def Let_def)

lemma launch_eq:
  "launch node ex =
     (if counter (semaphore ex) > 0
      then start_node node (ex\<lparr>semaphore := (semaphore ex)\<lparr>counter := counter (semaphore ex) - 1\<rparr>\<rparr>)
      else ex\<lparr>semaphore := (semaphore ex)\<lparr>tasks := tasks (semaphore ex) @ [node]\<rparr>\<rparr>)"
  by (simp add: launch_def acquire_def)

lemma settle_eq:
  "settle node R ex =
     (case tasks (semaphore ex) of
        [] \<Rightarrow> (finish node R ex)\<lparr>semaphore := (semaphore ex)\<lparr>counter := counter (semaphore ex) + 1\<rparr>\<rparr>
      | w # rest \<Rightarrow>
          start_node w ((finish node R ex)\<lparr>semaphore := (semaphore ex)\<lparr>tasks := rest\<rparr>\<rparr>))"
proof -
  have f: "finish node R ex =
     (let ex1 = ex\<lparr>clock := finished R, store := (store ex)(node_id node := state R)\<rparr>;
          ex2 = (case outcome R of
                   Inr result \<Rightarrow>
                     ex1\<lparr>store := (store ex1)(node_id node := (state R)\<lparr>artifact := result\<rparr>)\<rparr>
                 | Inl e \<Rightarrow>
                     if onError (node_task node) = Some Abort
                     then ex1\<lparr>rejection := (case rejection ex1 of
                                               None \<Rightarrow> Some (AbortedAt (node_id node))
                                             | Some first \<Rightarrow> Some first)\<rparr>
                     else ex1\<lparr>store := (store ex1)(node_id node := (state R)\<lparr>artifact := VNull\<rparr>)\<rparr>)
      in ex2\<lparr>trace := trace ex2 @ [Ended (node_id node) (outcome R) (finished R)]\<rparr>)"
    by (cases "outcome R") (auto simp: finish_def final_state_def aborts_def Let_def)
  have sem: "semaphore (finish node R ex) = semaphore ex" by (simp add: finish_def)
  show ?thesis
    unfolding settle_def f[symmetric, unfolded Let_def] Let_def
    by (cases "tasks (semaphore ex)"; cases "semaphore ex") (simp_all add: release_def sem Let_def)
qed

lemma try_block_clock:
  "try_block t args n st now = (x, st1, tevs, now1) \<Longrightarrow> now \<le> now1"
  by (auto simp: try_block_def Let_def split: if_splits prod.splits sum.splits)

lemma retry_loop_finished: "now \<le> finished (retry_loop t args mx d st evs a now)"
proof (induction t args mx d st evs a now rule: retry_loop.induct)
  case (1 t args mx d st evs a now)
  obtain x st1 tevs now1 where tb: "try_block t args (nat a) st now = (x, st1, tevs, now1)"
    by (cases "try_block t args (nat a) st now") auto
  have c: "now \<le> now1" by (rule try_block_clock[OF tb])
  show ?case
  proof (cases "a \<le> mx \<and> (\<exists>e. x = Inl e \<and> has_message e) \<and> \<not> a + 1 > mx")
    case True
    then obtain e where e: "a \<le> mx" "x = Inl e" "has_message e" "\<not> a + 1 > mx" by blast
    have hm: "\<not> \<not> has_message e" using e(3) by simp
    from "1.IH"[OF e(1) tb[symmetric] e(2) refl refl refl hm e(4)]
    have "delay d now1 \<le> finished (retry_loop t args mx d st1 (evs @ tevs @ [Delay d]) (a + 1) (delay d now1))" .
    moreover have "now1 \<le> delay d now1" by (simp add: delay_def timeout_def)
    ultimately show ?thesis using e c by (subst retry_loop.simps) (simp add: tb Let_def)
  next
    case False
    then show ?thesis using c
      by (subst retry_loop.simps) (auto simp: tb Let_def split: sum.splits)
  qed
qed

lemma run_of_finished: "clock ex \<le> finished (run_of ex node)"
  by (simp add: run_of_def executeTaskWithRetries_def retry_loop_finished)

lemma started_ids_simps [simp]:
  "started_ids [] = []"
  "started_ids (Started i args t # T) = i # started_ids T"
  "started_ids (Ended i r t # T) = started_ids T"
  "started_ids (T @ T') = started_ids T @ started_ids T'"
  by (simp_all add: started_ids_def)

lemma ended_ids_simps [simp]:
  "ended_ids [] = []"
  "ended_ids (Started i args t # T) = ended_ids T"
  "ended_ids (Ended i r t # T) = i # ended_ids T"
  "ended_ids (T @ T') = ended_ids T @ ended_ids T'"
  by (simp_all add: ended_ids_def)

lemma level_trace_inv_launch:
  assumes "level_trace_inv ex0 ls ex"
  shows "level_trace_inv ex0 (ls @ [n]) (launch n ex)"
proof -
  from assms obtain T where T: "trace ex = trace ex0 @ T"
    "mset (started_ids T) = mset (map (\<lambda>r. node_id (fst r)) (running ex)) + mset (ended_ids T)"
    "mset (map node_id ls) = mset (started_ids T) + mset (map node_id (tasks (semaphore ex)))"
    "\<forall>e. e \<in> set T \<longrightarrow> clock ex0 \<le> event_time e \<and> event_time e \<le> clock ex"
    and c: "clock ex0 \<le> clock ex" "\<forall>r. r \<in> set (running ex) \<longrightarrow> clock ex \<le> finished (snd r)"
    unfolding level_trace_inv_def by blast
  show ?thesis
  proof (cases "counter (semaphore ex) > 0")
    case True
    let ?ex1 = "ex\<lparr>semaphore := (semaphore ex)\<lparr>counter := counter (semaphore ex) - 1\<rparr>\<rparr>"
    let ?T = "T @ [Started (node_id n) (dependencyResults ?ex1 n) (clock ?ex1)]"
    have l: "launch n ex = start_node n ?ex1" using True by (simp add: launch_eq)
    have "trace (launch n ex) = trace ex0 @ ?T" by (simp add: l start_node_eq T(1))
    moreover have "mset (started_ids ?T) =
        mset (map (\<lambda>r. node_id (fst r)) (running (launch n ex))) + mset (ended_ids ?T)"
      using T(2) by (simp add: l start_node_eq)
    moreover have "mset (map node_id (ls @ [n])) =
        mset (started_ids ?T) + mset (map node_id (tasks (semaphore (launch n ex))))"
      using T(3) by (simp add: l start_node_eq)
    moreover have "\<forall>e. e \<in> set ?T \<longrightarrow> clock ex0 \<le> event_time e \<and> event_time e \<le> clock (launch n ex)"
      using T(4) c(1) by (auto simp: l start_node_eq)
    moreover have "clock ex0 \<le> clock (launch n ex)" using c(1) by (simp add: l start_node_eq)
    moreover have "\<forall>r. r \<in> set (running (launch n ex)) \<longrightarrow> clock (launch n ex) \<le> finished (snd r)"
      using c(2) run_of_finished[of ?ex1 n] by (auto simp: l start_node_eq)
    ultimately show ?thesis unfolding level_trace_inv_def by blast
  next
    case False
    then have l: "launch n ex = ex\<lparr>semaphore := (semaphore ex)\<lparr>tasks := tasks (semaphore ex) @ [n]\<rparr>\<rparr>"
      by (simp add: launch_eq)
    have "trace (launch n ex) = trace ex0 @ T" by (simp add: l T(1))
    moreover have "mset (started_ids T) =
        mset (map (\<lambda>r. node_id (fst r)) (running (launch n ex))) + mset (ended_ids T)"
      using T(2) by (simp add: l)
    moreover have "mset (map node_id (ls @ [n])) =
        mset (started_ids T) + mset (map node_id (tasks (semaphore (launch n ex))))"
      using T(3) by (simp add: l)
    moreover have "\<forall>e. e \<in> set T \<longrightarrow> clock ex0 \<le> event_time e \<and> event_time e \<le> clock (launch n ex)"
      using T(4) by (simp add: l)
    moreover have "clock ex0 \<le> clock (launch n ex)" using c(1) by (simp add: l)
    moreover have "\<forall>r. r \<in> set (running (launch n ex)) \<longrightarrow> clock (launch n ex) \<le> finished (snd r)"
      using c(2) by (simp add: l)
    ultimately show ?thesis unfolding level_trace_inv_def by blast
  qed
qed

lemma level_trace_inv_fold:
  "level_trace_inv ex0 ls ex \<Longrightarrow> level_trace_inv ex0 (ls @ nodes) (fold launch nodes ex)"
proof (induction nodes arbitrary: ls ex)
  case Nil
  then show ?case by simp
next
  case (Cons n nodes)
  from Cons.IH[OF level_trace_inv_launch[OF Cons.prems, of n]] show ?case by simp
qed

lemma next_settled_props:
  "next_settled xs = Some (m, others) \<Longrightarrow>
   mset xs = add_mset m (mset others) \<and> (\<forall>x \<in> set xs. finished (snd m) \<le> finished (snd x))"
proof (induction xs arbitrary: m others)
  case Nil
  then show ?case by simp
next
  case (Cons x xs)
  show ?case
  proof (cases "next_settled xs")
    case None
    then have "xs = []" by (simp add: next_settled_None)
    then show ?thesis using Cons.prems by simp
  next
    case (Some a)
    obtain m' others' where a: "a = (m', others')" by (cases a)
    from Cons.IH[OF Some[unfolded a]]
    have ih: "mset xs = add_mset m' (mset others')" "\<forall>y \<in> set xs. finished (snd m') \<le> finished (snd y)"
      by simp_all
    show ?thesis
    proof (cases "finished (snd x) \<le> finished (snd m')")
      case True
      then have "m = x" "others = xs" using Cons.prems Some a by simp_all
      then show ?thesis using ih(2) True by auto
    next
      case False
      then have "m = m'" "others = x # others'" using Cons.prems Some a by simp_all
      then show ?thesis using ih False by auto
    qed
  qed
qed

lemma level_trace_inv_settle:
  assumes inv: "level_trace_inv ex0 ls ex"
    and nxt: "next_settled (running ex) = Some ((node, R), others)"
  shows "level_trace_inv ex0 ls (settle node R (ex\<lparr>running := others\<rparr>))"
proof -
  from inv obtain T where T: "trace ex = trace ex0 @ T"
    "mset (started_ids T) = mset (map (\<lambda>r. node_id (fst r)) (running ex)) + mset (ended_ids T)"
    "mset (map node_id ls) = mset (started_ids T) + mset (map node_id (tasks (semaphore ex)))"
    "\<forall>e. e \<in> set T \<longrightarrow> clock ex0 \<le> event_time e \<and> event_time e \<le> clock ex"
    and c: "clock ex0 \<le> clock ex" "\<forall>r. r \<in> set (running ex) \<longrightarrow> clock ex \<le> finished (snd r)"
    unfolding level_trace_inv_def by blast
  from next_settled_props[OF nxt]
  have ms: "mset (running ex) = add_mset (node, R) (mset others)"
    and mn: "\<forall>x \<in> set (running ex). finished R \<le> finished (snd x)" by simp_all
  have seteq: "set (running ex) = insert (node, R) (set others)"
    using arg_cong[OF ms, of set_mset] by simp
  have inrun: "(node, R) \<in> set (running ex)" and sub: "set others \<subseteq> set (running ex)"
    using seteq by auto
  have cR: "clock ex \<le> finished R" using c(2) inrun by force
  have runids: "mset (map (\<lambda>r. node_id (fst r)) (running ex)) =
      add_mset (node_id node) (mset (map (\<lambda>r. node_id (fst r)) others))"
    using arg_cong[OF ms, of "image_mset (\<lambda>r. node_id (fst r))"] by simp
  let ?ex1 = "ex\<lparr>running := others\<rparr>"
  let ?f = "finish node R ?ex1"
  let ?T1 = "T @ [Ended (node_id node) (outcome R) (finished R)]"
  have tf: "trace ?f = trace ex0 @ ?T1" by (simp add: finish_def T(1))
  have times1: "\<forall>e. e \<in> set ?T1 \<longrightarrow> clock ex0 \<le> event_time e \<and> event_time e \<le> finished R"
    using T(4) c(1) cR by auto
  have others_ok: "\<forall>r. r \<in> set others \<longrightarrow> finished R \<le> finished (snd r)"
    using mn sub by blast
  show ?thesis
  proof (cases "tasks (semaphore ex)")
    case Nil
    let ?ex' = "?f\<lparr>semaphore := (semaphore ?ex1)\<lparr>counter := counter (semaphore ?ex1) + 1\<rparr>\<rparr>"
    have s: "settle node R ?ex1 = ?ex'" using Nil by (simp add: settle_eq)
    have "trace ?ex' = trace ex0 @ ?T1" using tf by simp
    moreover have "mset (started_ids ?T1) =
        mset (map (\<lambda>r. node_id (fst r)) (running ?ex')) + mset (ended_ids ?T1)"
      using T(2) runids by (simp add: finish_def)
    moreover have "mset (map node_id ls) =
        mset (started_ids ?T1) + mset (map node_id (tasks (semaphore ?ex')))"
      using T(3) by (simp add: finish_def)
    moreover have "\<forall>e. e \<in> set ?T1 \<longrightarrow> clock ex0 \<le> event_time e \<and> event_time e \<le> clock ?ex'"
      using times1 by (simp add: finish_def)
    moreover have "clock ex0 \<le> clock ?ex'" using c(1) cR by (simp add: finish_def)
    moreover have "\<forall>r. r \<in> set (running ?ex') \<longrightarrow> clock ?ex' \<le> finished (snd r)"
      using others_ok by (simp add: finish_def)
    ultimately show ?thesis unfolding level_trace_inv_def s by blast
  next
    case (Cons w rest)
    let ?ex2 = "?f\<lparr>semaphore := (semaphore ?ex1)\<lparr>tasks := rest\<rparr>\<rparr>"
    let ?ex' = "start_node w ?ex2"
    let ?T2 = "?T1 @ [Started (node_id w) (dependencyResults ?ex2 w) (clock ?ex2)]"
    have s: "settle node R ?ex1 = ?ex'" using Cons by (simp add: settle_eq)
    have ck: "clock ?ex2 = finished R" by (simp add: finish_def)
    have "trace ?ex' = trace ex0 @ ?T2" using tf by (simp add: start_node_eq)
    moreover have "mset (started_ids ?T2) =
        mset (map (\<lambda>r. node_id (fst r)) (running ?ex')) + mset (ended_ids ?T2)"
      using T(2) runids by (simp add: start_node_eq finish_def)
    moreover have "mset (map node_id ls) =
        mset (started_ids ?T2) + mset (map node_id (tasks (semaphore ?ex')))"
      using T(3) Cons by (simp add: start_node_eq finish_def)
    moreover have "\<forall>e. e \<in> set ?T2 \<longrightarrow> clock ex0 \<le> event_time e \<and> event_time e \<le> clock ?ex'"
      using times1 c(1) cR by (auto simp: start_node_eq finish_def)
    moreover have "clock ex0 \<le> clock ?ex'" using c(1) cR by (simp add: start_node_eq finish_def)
    moreover have "\<forall>r. r \<in> set (running ?ex') \<longrightarrow> clock ?ex' \<le> finished (snd r)"
      using others_ok run_of_finished[of ?ex2 w] ck by (auto simp: start_node_eq finish_def)
    ultimately show ?thesis unfolding level_trace_inv_def s by blast
  qed
qed

lemma level_trace_inv_drain:
  "level_trace_inv ex0 ls ex \<Longrightarrow> level_trace_inv ex0 ls (drain ex) \<and> running (drain ex) = []"
proof (induction ex rule: drain.induct)
  case (1 ex)
  show ?case
  proof (cases "next_settled (running ex)")
    case None
    then have "running ex = []" by (simp add: next_settled_None)
    then show ?thesis using None "1.prems" by (subst (1 2) drain.simps) simp
  next
    case (Some a)
    obtain node R others where a: "a = ((node, R), others)" by (cases a) auto
    have "level_trace_inv ex0 ls (settle node R (ex\<lparr>running := others\<rparr>))"
      by (rule level_trace_inv_settle[OF "1.prems" Some[unfolded a]])
    from "1.IH"[OF Some[unfolded a] refl refl this]
    show ?thesis using Some a by (subst (1 2) drain.simps) simp
  qed
qed

lemma level_trace_inv_base:
  "running ex = [] \<Longrightarrow> tasks (semaphore ex) = [] \<Longrightarrow> level_trace_inv ex [] (ex\<lparr>rejection := None\<rparr>)"
  unfolding level_trace_inv_def by (intro conjI exI[of _ "[]"]) simp_all

lemma run_level_inv:
  assumes "running ex = []" "tasks (semaphore ex) = []"
  shows "level_trace_inv ex nodes (run_level nodes ex) \<and> running (run_level nodes ex) = []"
proof -
  have "level_trace_inv ex ([] @ nodes) (fold launch nodes (ex\<lparr>rejection := None\<rparr>))"
    by (rule level_trace_inv_fold[OF level_trace_inv_base[OF assms]])
  then show ?thesis using level_trace_inv_drain[of ex nodes] by (simp add: run_level_def)
qed

lemma ended_ids_nth:
  "p \<in> set (ended_ids T) \<Longrightarrow> \<exists>i<length T. \<exists>r t. T ! i = Ended p r t"
proof -
  assume "p \<in> set (ended_ids T)"
  then obtain e where e: "e \<in> set T" "\<not> is_started e" "event_id e = p"
    by (auto simp: ended_ids_def)
  from e(2,3) obtain r t where "e = Ended p r t" by (cases e) auto
  then show ?thesis using e(1) by (metis in_set_conv_nth)
qed

lemma started_nth_ids: "i < length T \<Longrightarrow> T ! i = Started c args t \<Longrightarrow> c \<in> set (started_ids T)"
proof -
  assume "i < length T" "T ! i = Started c args t"
  then have "Started c args t \<in> set T" by (metis nth_mem)
  then show ?thesis by (force simp: started_ids_def)
qed

text \<open>What one level adds to the trace.\<close>

lemma run_level_summary:
  assumes "running ex = []" "tasks (semaphore ex) = []"
  shows "\<exists>T. trace (run_level nodes ex) = trace ex @ T \<and>
           set (started_ids T) \<subseteq> node_id ` set nodes \<and>
           (\<forall>e. e \<in> set T \<longrightarrow> clock ex \<le> event_time e \<and> event_time e \<le> clock (run_level nodes ex)) \<and>
           (tasks (semaphore (run_level nodes ex)) = [] \<longrightarrow> set (ended_ids T) = node_id ` set nodes) \<and>
           clock ex \<le> clock (run_level nodes ex) \<and> running (run_level nodes ex) = []"
proof -
  let ?ex = "run_level nodes ex"
  from run_level_inv[OF assms, of nodes] have inv: "level_trace_inv ex nodes ?ex"
    and run: "running ?ex = []" by simp_all
  from inv obtain T where T: "trace ?ex = trace ex @ T"
    "mset (started_ids T) = mset (map (\<lambda>r. node_id (fst r)) (running ?ex)) + mset (ended_ids T)"
    "mset (map node_id nodes) = mset (started_ids T) + mset (map node_id (tasks (semaphore ?ex)))"
    "\<forall>e. e \<in> set T \<longrightarrow> clock ex \<le> event_time e \<and> event_time e \<le> clock ?ex"
    and c: "clock ex \<le> clock ?ex"
    unfolding level_trace_inv_def by blast
  have se: "mset (started_ids T) = mset (ended_ids T)" using T(2) run by simp
  have "set (started_ids T) \<subseteq> set (map node_id nodes)"
    using arg_cong[OF T(3), of set_mset] by auto
  then have a: "set (started_ids T) \<subseteq> node_id ` set nodes" by simp
  have b: "set (ended_ids T) = node_id ` set nodes" if "tasks (semaphore ?ex) = []"
  proof -
    have "mset (map node_id nodes) = mset (ended_ids T)" using T(3) that se by simp
    from arg_cong[OF this, of set_mset] show ?thesis by simp
  qed
  show ?thesis using T(1,4) a b c run by blast
qed

lemma run_levels_Cons:
  "run_levels out NL (l # ls) ex =
     (let ex' = run_level (filter (\<lambda>node. NL (node_id node) = Some (Level l)) out) ex
      in if tasks (semaphore ex') \<noteq> [] then (NeverSettles, ex')
         else case rejection ex' of Some e \<Rightarrow> (RejectedWith e, ex')
              | None \<Rightarrow> run_levels out NL ls ex')"
  by (simp add: Let_def)

lemma run_levels_order:
  "sorted_wrt (<) ls \<Longrightarrow> running ex = [] \<Longrightarrow> tasks (semaphore ex) = [] \<Longrightarrow>
   \<exists>T. trace (snd (run_levels out NL ls ex)) = trace ex @ T \<and>
     (\<forall>j c args t. j < length T \<longrightarrow> T ! j = Started c args t \<longrightarrow>
        clock ex \<le> t \<and>
        (\<exists>l. l \<in> set ls \<and> NL c = Some (Level l) \<and>
           (\<forall>p l'. p \<in> set out \<longrightarrow> l' \<in> set ls \<longrightarrow> NL (node_id p) = Some (Level l') \<longrightarrow> l' < l \<longrightarrow>
              ends_before T (node_id p) j t)))"
proof (induction ls arbitrary: ex)
  case Nil
  show ?case by (intro exI[of _ "[]"]) simp
next
  case (Cons l0 ls)
  let ?nodes = "filter (\<lambda>node. NL (node_id node) = Some (Level l0)) out"
  let ?ex1 = "run_level ?nodes ex"
  obtain T0 where T0: "trace ?ex1 = trace ex @ T0"
    "set (started_ids T0) \<subseteq> node_id ` set ?nodes"
    "\<forall>e. e \<in> set T0 \<longrightarrow> clock ex \<le> event_time e \<and> event_time e \<le> clock ?ex1"
    "tasks (semaphore ?ex1) = [] \<longrightarrow> set (ended_ids T0) = node_id ` set ?nodes"
    "clock ex \<le> clock ?ex1" "running ?ex1 = []"
    using run_level_summary[OF Cons.prems(2,3), of ?nodes] by blast
  have gt: "\<forall>l' \<in> set ls. l0 < l'" and srt: "sorted_wrt (<) ls" using Cons.prems(1) by simp_all
  have first: "clock ex \<le> t \<and>
        (\<exists>l. l \<in> set (l0 # ls) \<and> NL c = Some (Level l) \<and>
           (\<forall>p l'. p \<in> set out \<longrightarrow> l' \<in> set (l0 # ls) \<longrightarrow> NL (node_id p) = Some (Level l') \<longrightarrow> l' < l \<longrightarrow>
              ends_before T (node_id p) j t))"
    if j: "j < length T0" "T0 ! j = Started c args t" for j c args t T
  proof -
    have "c \<in> set (started_ids T0)" using started_nth_ids[OF j] .
    then have lc: "NL c = Some (Level l0)" using T0(2) by auto
    have "Started c args t \<in> set T0" using j by (metis nth_mem)
    then have "clock ex \<le> t" using T0(3) by force
    moreover have "\<not> l' < l0" if "l' \<in> set (l0 # ls)" for l' using that gt by auto
    ultimately show ?thesis using lc by auto
  qed
  show ?case
  proof (cases "tasks (semaphore ?ex1) = [] \<and> rejection ?ex1 = None")
    case False
    then have "snd (run_levels out NL (l0 # ls) ex) = ?ex1"
      by (auto simp: run_levels_Cons Let_def simp del: run_levels.simps split: option.splits)
    then have tr0: "trace (snd (run_levels out NL (l0 # ls) ex)) = trace ex @ T0"
      using T0(1) by simp
    show ?thesis
      apply (rule exI[of _ T0])
      apply (rule conjI[OF tr0])
      using first by blast
  next
    case True
    then have eq: "run_levels out NL (l0 # ls) ex = run_levels out NL ls ?ex1"
      by (simp add: run_levels_Cons Let_def del: run_levels.simps)
    have ended: "set (ended_ids T0) = node_id ` set ?nodes" using T0(4) True by simp
    from Cons.IH[OF srt T0(6), of ] True obtain T1 where
      T1: "trace (snd (run_levels out NL ls ?ex1)) = trace ?ex1 @ T1"
      "\<forall>j c args t. j < length T1 \<longrightarrow> T1 ! j = Started c args t \<longrightarrow>
        clock ?ex1 \<le> t \<and>
        (\<exists>l. l \<in> set ls \<and> NL c = Some (Level l) \<and>
           (\<forall>p l'. p \<in> set out \<longrightarrow> l' \<in> set ls \<longrightarrow> NL (node_id p) = Some (Level l') \<longrightarrow> l' < l \<longrightarrow>
              ends_before T1 (node_id p) j t))"
      by blast
    let ?T = "T0 @ T1"
    have tr: "trace (snd (run_levels out NL (l0 # ls) ex)) = trace ex @ ?T"
      using eq T1(1) T0(1) by simp
    have main: "clock ex \<le> t \<and>
        (\<exists>l. l \<in> set (l0 # ls) \<and> NL c = Some (Level l) \<and>
           (\<forall>p l'. p \<in> set out \<longrightarrow> l' \<in> set (l0 # ls) \<longrightarrow> NL (node_id p) = Some (Level l') \<longrightarrow> l' < l \<longrightarrow>
              ends_before ?T (node_id p) j t))"
      if j: "j < length ?T" "?T ! j = Started c args t" for j c args t
    proof (cases "j < length T0")
      case True
      then have "T0 ! j = Started c args t" using j(2) by (simp add: nth_append)
      from first[OF True this] show ?thesis .
    next
      case False
      define j' where "j' = j - length T0"
      have j': "j' < length T1" "T1 ! j' = Started c args t" "j = length T0 + j'"
        using j False by (simp_all add: j'_def nth_append)
      from T1(2)[rule_format, OF j'(1,2)] obtain l where l: "clock ?ex1 \<le> t" "l \<in> set ls"
        "NL c = Some (Level l)"
        "\<forall>p l'. p \<in> set out \<longrightarrow> l' \<in> set ls \<longrightarrow> NL (node_id p) = Some (Level l') \<longrightarrow> l' < l \<longrightarrow>
              ends_before T1 (node_id p) j' t"
        by blast
      have eb: "ends_before ?T (node_id p) j t"
        if p: "p \<in> set out" "l' \<in> set (l0 # ls)" "NL (node_id p) = Some (Level l')" "l' < l" for p l'
      proof (cases "l' = l0")
        case True
        then have "p \<in> set ?nodes" using p(1,3) by simp
        then have "node_id p \<in> set (ended_ids T0)" using ended by blast
        then obtain i r t' where i: "i < length T0" "T0 ! i = Ended (node_id p) r t'"
          using ended_ids_nth by blast
        then have "Ended (node_id p) r t' \<in> set T0" by (metis nth_mem)
        then have "t' \<le> clock ?ex1" using T0(3) by force
        then have "t' \<le> t" using l(1) by simp
        moreover have "i < j" using i(1) j'(3) by simp
        moreover have "?T ! i = Ended (node_id p) r t'" using i by (simp add: nth_append)
        ultimately show ?thesis unfolding ends_before_def by blast
      next
        case False
        then have "l' \<in> set ls" using p(2) by simp
        from l(4)[rule_format, OF p(1) this p(3,4)] obtain i r t' where
          i: "i < j'" "T1 ! i = Ended (node_id p) r t'" "t' \<le> t"
          unfolding ends_before_def by blast
        have "length T0 + i < j" using i(1) j'(3) by simp
        moreover have "?T ! (length T0 + i) = Ended (node_id p) r t'" using i(2) by (simp add: nth_append)
        ultimately show ?thesis using i(3) unfolding ends_before_def by blast
      qed
      have "clock ex \<le> t" using l(1) T0(5) by simp
      then show ?thesis using l(2,3) eb by auto
    qed
    show ?thesis
      apply (rule exI[of _ ?T])
      apply (rule conjI[OF tr])
      using main by blast
  qed
qed

lemma deps_before_subset:
  "deps_before seen out \<Longrightarrow> c \<in> set out \<Longrightarrow> set (node_dependencies c) \<subseteq> seen \<union> node_id ` set out"
  by (induction out arbitrary: seen) auto

lemma levels_upto_sorted: "sorted_wrt (<) (levels_upto m)"
proof (cases m)
  case (Level x)
  have "sorted_wrt (<) [0..<Suc x]" by (rule sorted_wrt_upt)
  then show ?thesis using Level by (simp del: upt_Suc)
qed simp_all

lemma levels_upto_downward: "l \<in> set (levels_upto m) \<Longrightarrow> l' < l \<Longrightarrow> l' \<in> set (levels_upto m)"
  by (cases m) auto

lemma initial_exec_idle:
  "running (initial_exec K t0) = []" "tasks (semaphore (initial_exec K t0)) = []"
  "trace (initial_exec K t0) = []" "clock (initial_exec K t0) = t0"
  by (simp_all add: initial_exec_def new_Semaphore_def)

text \<open>The order of the driver's trace, for a list of nodes in which dependencies come first.\<close>

lemma driver_order:
  assumes db: "deps_before {} out" and d: "distinct (map node_id out)"
    and c: "c \<in> set out" and p: "p \<in> set (node_dependencies c)"
    and j: "j < length (trace (snd (executeTasksWithConcurrencyLimit out K t0)))"
      "trace (snd (executeTasksWithConcurrencyLimit out K t0)) ! j = Started (node_id c) args t"
  shows "ends_before (trace (snd (executeTasksWithConcurrencyLimit out K t0))) p j t"
proof -
  let ?NL = "assign_levels out Map.empty"
  let ?ls = "levels_upto (math_max (map (\<lambda>node. get_level ?NL (node_id node)) out))"
  let ?ex0 = "initial_exec K t0"
  have run: "executeTasksWithConcurrencyLimit out K t0 = run_levels out ?NL ?ls ?ex0"
    by (simp add: executeTasksWithConcurrencyLimit_def Let_def)
  obtain lp lc where lv: "?NL p = Some (Level lp)" "?NL (node_id c) = Some (Level lc)" "lp < lc"
    using assign_levels_edges[OF db d c p] by blast
  have "p \<in> node_id ` set out" using deps_before_subset[OF db c] p by auto
  then obtain pn where pn: "pn \<in> set out" "node_id pn = p" by auto
  from run_levels_order[OF levels_upto_sorted initial_exec_idle(1)[of K t0]
      initial_exec_idle(2)[of K t0], where out = out and NL = ?NL]
  obtain T where T: "trace (snd (run_levels out ?NL ?ls ?ex0)) = trace ?ex0 @ T"
    "\<forall>j c args t. j < length T \<longrightarrow> T ! j = Started c args t \<longrightarrow>
        clock ?ex0 \<le> t \<and>
        (\<exists>l. l \<in> set ?ls \<and> ?NL c = Some (Level l) \<and>
           (\<forall>p l'. p \<in> set out \<longrightarrow> l' \<in> set ?ls \<longrightarrow> ?NL (node_id p) = Some (Level l') \<longrightarrow> l' < l \<longrightarrow>
              ends_before T (node_id p) j t))"
    by blast
  have tr: "trace (snd (executeTasksWithConcurrencyLimit out K t0)) = T"
    using T(1) by (simp add: run initial_exec_idle)
  from T(2)[rule_format, of j "node_id c" args t] j obtain l where
    l: "l \<in> set ?ls" "?NL (node_id c) = Some (Level l)"
    "\<forall>p l'. p \<in> set out \<longrightarrow> l' \<in> set ?ls \<longrightarrow> ?NL (node_id p) = Some (Level l') \<longrightarrow> l' < l \<longrightarrow>
              ends_before T (node_id p) j t"
    unfolding tr by blast
  have "l = lc" using l(2) lv(2) by simp
  then have "lp \<in> set ?ls" "lp < l" using levels_upto_downward[OF l(1), of lp] lv(3) by simp_all
  from l(3)[rule_format, OF pn(1) this(1) _ this(2)] lv(1) pn(2)
  show ?thesis unfolding tr by simp
qed

lemma level_trace_inv_added:
  "level_trace_inv ex0 ls ex \<Longrightarrow>
     trace ex = trace ex0 @ added ex0 ex \<and>
     mset (started_ids (added ex0 ex)) =
       mset (map (\<lambda>r. node_id (fst r)) (running ex)) + mset (ended_ids (added ex0 ex)) \<and>
     mset (map node_id ls) =
       mset (started_ids (added ex0 ex)) + mset (map node_id (tasks (semaphore ex)))"
  unfolding level_trace_inv_def added_def by auto

lemma level_trace_inv_disjoint:
  assumes inv: "level_trace_inv ex0 ls ex" and d: "distinct (map node_id ls)"
  shows "set (ended_ids (added ex0 ex)) \<subseteq> node_id ` set ls"
    and "r \<in> set (running ex) \<Longrightarrow> node_id (fst r) \<notin> set (ended_ids (added ex0 ex))"
    and "r \<in> set (running ex) \<Longrightarrow> node_id (fst r) \<in> node_id ` set ls"
    and "w \<in> set (tasks (semaphore ex)) \<Longrightarrow> node_id w \<notin> set (ended_ids (added ex0 ex))"
    and "w \<in> set (tasks (semaphore ex)) \<Longrightarrow> node_id w \<in> node_id ` set ls"
    and "r \<in> set (running ex) \<Longrightarrow> w \<in> set (tasks (semaphore ex)) \<Longrightarrow> node_id (fst r) \<noteq> node_id w"
proof -
  let ?T = "added ex0 ex"
  let ?run = "map (\<lambda>r. node_id (fst r)) (running ex)"
  let ?wait = "map node_id (tasks (semaphore ex))"
  from level_trace_inv_added[OF inv]
  have A: "mset (started_ids ?T) = mset ?run + mset (ended_ids ?T)"
    and B: "mset (map node_id ls) = mset (started_ids ?T) + mset ?wait" by simp_all
  have all: "mset (map node_id ls) = mset (?run @ ended_ids ?T @ ?wait)" using A B by simp
  then have dist: "distinct (?run @ ended_ids ?T @ ?wait)"
    using d by (metis mset_eq_imp_distinct_iff)
  have sets: "set (map node_id ls) = set (?run @ ended_ids ?T @ ?wait)"
    using all by (metis mset_eq_setD)
  show "set (ended_ids ?T) \<subseteq> node_id ` set ls" using sets by auto
  show "node_id (fst r) \<notin> set (ended_ids ?T)" if "r \<in> set (running ex)"
    using dist that by auto
  show "node_id (fst r) \<in> node_id ` set ls" if "r \<in> set (running ex)"
    using sets that by auto
  show "node_id w \<notin> set (ended_ids ?T)" if "w \<in> set (tasks (semaphore ex))"
    using dist that by auto
  show "node_id w \<in> node_id ` set ls" if "w \<in> set (tasks (semaphore ex))"
    using sets that by auto
  show "node_id (fst r) \<noteq> node_id w" if "r \<in> set (running ex)" "w \<in> set (tasks (semaphore ex))"
    using dist that by auto
qed

lemma try_block_artifact:
  "try_block t args n st now = (x, st1, tevs, now1) \<Longrightarrow> artifact st1 = artifact st"
  by (auto simp: try_block_def Let_def split: if_splits prod.splits sum.splits)

lemma retry_loop_artifact: "artifact (state (retry_loop t args mx d st evs a now)) = artifact st"
proof (induction t args mx d st evs a now rule: retry_loop.induct)
  case (1 t args mx d st evs a now)
  obtain x st1 tevs now1 where tb: "try_block t args (nat a) st now = (x, st1, tevs, now1)"
    by (cases "try_block t args (nat a) st now") auto
  have c: "artifact st1 = artifact st" by (rule try_block_artifact[OF tb])
  show ?case
  proof (cases "a \<le> mx \<and> (\<exists>e. x = Inl e \<and> has_message e) \<and> \<not> a + 1 > mx")
    case True
    then obtain e where e: "a \<le> mx" "x = Inl e" "has_message e" "\<not> a + 1 > mx" by blast
    have hm: "\<not> \<not> has_message e" using e(3) by simp
    from "1.IH"[OF e(1) tb[symmetric] e(2) refl refl refl hm e(4)]
    have "artifact (state (retry_loop t args mx d st1 (evs @ tevs @ [Delay d]) (a + 1) (delay d now1))) =
          artifact st1" .
    then show ?thesis using e c by (subst retry_loop.simps) (simp add: tb Let_def)
  next
    case False
    then show ?thesis using c
      by (subst retry_loop.simps) (auto simp: tb Let_def split: sum.splits)
  qed
qed

lemma run_of_artifact: "artifact (state (run_of ex node)) = artifact (store ex (node_id node))"
  by (simp add: run_of_def executeTaskWithRetries_def retry_loop_artifact)

lemma in_flight_append: "in_flight (T @ T') = in_flight T + in_flight T'"
  by (induction T rule: in_flight.induct) simp_all

lemma abort_ids_append: "abort_ids nodes (T @ T') = abort_ids nodes T @ abort_ids nodes T'"
  by (simp add: abort_ids_def)

lemma abort_ids_Started [simp]: "abort_ids nodes [Started i args t] = []"
  by (simp add: abort_ids_def)

lemma abort_ids_Ended:
  "abort_ids nodes [Ended i r t] = (if isl r \<and> abort_policy nodes i then [i] else [])"
  by (cases r) (simp_all add: abort_ids_def)

lemma bounded_snoc:
  assumes "\<forall>k \<le> length T. in_flight (take k T) \<le> K" "in_flight (T @ T') \<le> K" "length T' = 1"
  shows "\<forall>k \<le> length (T @ T'). in_flight (take k (T @ T')) \<le> K"
proof (intro allI impI)
  fix k assume k: "k \<le> length (T @ T')"
  show "in_flight (take k (T @ T')) \<le> K"
  proof (cases "k \<le> length T")
    case True
    then show ?thesis using assms(1) by simp
  next
    case False
    then have "k = length (T @ T')" using k assms(3) by simp
    then show ?thesis using assms(2) by simp
  qed
qed

lemma added_simps:
  "trace ex = trace ex0 @ T \<Longrightarrow> added ex0 ex = T"
  by (simp add: added_def)

lemma added_start_node:
  "trace ex = trace ex0 @ T \<Longrightarrow>
   added ex0 (start_node n ex) = T @ [Started (node_id n) (dependencyResults ex n) (clock ex)]"
  by (simp add: added_def start_node_eq)

lemma added_finish:
  "trace ex = trace ex0 @ T \<Longrightarrow>
   added ex0 (finish n R ex) = T @ [Ended (node_id n) (outcome R) (finished R)]"
  by (simp add: added_def finish_def)

text \<open>The counting part of the invariant.\<close>

lemma level_count_inv_launch:
  assumes inv: "level_count_inv K ex0 ex" and tr: "trace ex = trace ex0 @ T"
  shows "level_count_inv K ex0 (launch n ex)"
proof (cases "counter (semaphore ex) > 0")
  case True
  let ?ex1 = "ex\<lparr>semaphore := (semaphore ex)\<lparr>counter := counter (semaphore ex) - 1\<rparr>\<rparr>"
  have l: "launch n ex = start_node n ?ex1" using True by (simp add: launch_eq)
  have tr1: "trace ?ex1 = trace ex0 @ T" using tr by simp
  have T: "added ex0 ex = T" by (rule added_simps[OF tr])
  have a: "added ex0 (launch n ex) = T @ [Started (node_id n) (dependencyResults ?ex1 n) (clock ?ex1)]"
    unfolding l by (rule added_start_node[OF tr1])
  from inv have c: "counter (semaphore ex) + int (length (running ex)) = K"
    "tasks (semaphore ex) = [] \<or> counter (semaphore ex) = 0"
    "in_flight T = int (length (running ex))" "\<forall>k \<le> length T. in_flight (take k T) \<le> K"
    unfolding level_count_inv_def T by simp_all
  have tn: "tasks (semaphore ex) = []" using c(2) True by auto
  have fl: "in_flight (T @ [Started (node_id n) (dependencyResults ?ex1 n) (clock ?ex1)]) =
      int (length (running ex)) + 1" using c(3) by (simp add: in_flight_append)
  have le: "int (length (running ex)) + 1 \<le> K" using c(1) True by simp
  have b: "\<forall>k \<le> length (T @ [Started (node_id n) (dependencyResults ?ex1 n) (clock ?ex1)]).
      in_flight (take k (T @ [Started (node_id n) (dependencyResults ?ex1 n) (clock ?ex1)])) \<le> K"
    by (rule bounded_snoc[OF c(4)]) (use fl le in simp_all)
  show ?thesis
    unfolding level_count_inv_def a
    using c(1) True tn fl b by (simp add: l start_node_eq)
next
  case False
  then have l: "launch n ex = ex\<lparr>semaphore := (semaphore ex)\<lparr>tasks := tasks (semaphore ex) @ [n]\<rparr>\<rparr>"
    by (simp add: launch_eq)
  have "added ex0 (launch n ex) = added ex0 ex" by (simp add: l added_def)
  then show ?thesis using inv False unfolding level_count_inv_def by (simp add: l)
qed

lemma level_count_inv_settle:
  assumes inv: "level_count_inv K ex0 ex" and tr: "trace ex = trace ex0 @ T"
    and len: "length (running ex) = Suc (length others)"
  shows "level_count_inv K ex0 (settle node R (ex\<lparr>running := others\<rparr>))"
proof -
  let ?ex1 = "ex\<lparr>running := others\<rparr>"
  let ?f = "finish node R ?ex1"
  let ?T1 = "T @ [Ended (node_id node) (outcome R) (finished R)]"
  have T: "added ex0 ex = T" by (rule added_simps[OF tr])
  have tr1: "trace ?ex1 = trace ex0 @ T" using tr by simp
  have trf: "trace ?f = trace ex0 @ ?T1" using tr by (simp add: finish_def)
  from inv have c: "counter (semaphore ex) + int (length (running ex)) = K"
    "0 \<le> counter (semaphore ex)"
    "tasks (semaphore ex) = [] \<or> counter (semaphore ex) = 0"
    "in_flight T = int (length (running ex))" "\<forall>k \<le> length T. in_flight (take k T) \<le> K"
    unfolding level_count_inv_def T by simp_all
  have fl1: "in_flight ?T1 = int (length others)" using c(4) len by (simp add: in_flight_append)
  have K0: "int (length others) + 1 \<le> K" using c(1,2) len by simp
  have b1: "\<forall>k \<le> length ?T1. in_flight (take k ?T1) \<le> K"
    by (rule bounded_snoc[OF c(5)]) (use fl1 K0 in simp_all)
  show ?thesis
  proof (cases "tasks (semaphore ex)")
    case Nil
    let ?ex' = "?f\<lparr>semaphore := (semaphore ?ex1)\<lparr>counter := counter (semaphore ?ex1) + 1\<rparr>\<rparr>"
    have s: "settle node R ?ex1 = ?ex'" using Nil by (simp add: settle_eq)
    have a: "added ex0 ?ex' = ?T1" by (rule added_simps) (simp add: trf)
    show ?thesis
      unfolding s level_count_inv_def a
      using c(1,2) len fl1 b1 Nil by (simp add: finish_def)
  next
    case (Cons w rest)
    let ?ex2 = "?f\<lparr>semaphore := (semaphore ?ex1)\<lparr>tasks := rest\<rparr>\<rparr>"
    let ?ex' = "start_node w ?ex2"
    let ?T2 = "?T1 @ [Started (node_id w) (dependencyResults ?ex2 w) (clock ?ex2)]"
    have s: "settle node R ?ex1 = ?ex'" using Cons by (simp add: settle_eq)
    have tr2: "trace ?ex2 = trace ex0 @ ?T1" using trf by simp
    have a: "added ex0 ?ex' = ?T2" by (rule added_start_node[OF tr2])
    have c0: "counter (semaphore ex) = 0" using c(3) Cons by simp
    have fl2: "in_flight ?T2 = int (length others) + 1" using fl1 by (simp add: in_flight_append)
    have b2: "\<forall>k \<le> length ?T2. in_flight (take k ?T2) \<le> K"
      by (rule bounded_snoc[OF b1]) (use fl2 K0 in simp_all)
    show ?thesis
      unfolding s level_count_inv_def a
      using c(1) c0 len fl2 b2 by (simp add: start_node_eq finish_def)
  qed
qed

lemma ended_ids_mem: "i \<in> set (ended_ids T) \<longleftrightarrow> (\<exists>r t. Ended i r t \<in> set T)"
proof
  assume "i \<in> set (ended_ids T)"
  then obtain e where e: "e \<in> set T" "\<not> is_started e" "event_id e = i"
    by (auto simp: ended_ids_def)
  from e(2,3) obtain r t where "e = Ended i r t" by (cases e) auto
  then show "\<exists>r t. Ended i r t \<in> set T" using e(1) by auto
next
  assume "\<exists>r t. Ended i r t \<in> set T"
  then show "i \<in> set (ended_ids T)" by (force simp: ended_ids_def)
qed

lemma level_data_inv_ended_nodes:
  assumes "level_data_inv nodes ex0 ex"
  shows "set (ended_ids (added ex0 ex)) \<subseteq> node_id ` set nodes"
proof
  fix i assume "i \<in> set (ended_ids (added ex0 ex))"
  then obtain r t where "Ended i r t \<in> set (added ex0 ex)" by (auto simp: ended_ids_mem)
  then obtain n where "n \<in> set nodes" "node_id n = event_id (Ended i r t)"
    using assms unfolding level_data_inv_def by blast
  then show "i \<in> node_id ` set nodes" by auto
qed

lemma level_data_inv_semaphore:
  assumes "level_data_inv nodes ex0 ex" "\<forall>w. w \<in> set (tasks s) \<longrightarrow> w \<in> set nodes"
  shows "level_data_inv nodes ex0 (ex\<lparr>semaphore := s\<rparr>)"
proof -
  have "added ex0 (ex\<lparr>semaphore := s\<rparr>) = added ex0 ex" by (simp add: added_def)
  then show ?thesis using assms unfolding level_data_inv_def by simp
qed

lemma level_data_inv_start:
  assumes inv: "level_data_inv nodes ex0 ex" and tr: "trace ex = trace ex0 @ T"
    and n: "n \<in> set nodes" and nid: "node_id n \<notin> set (ended_ids T)"
    and ok: "level_nodes_ok nodes"
  shows "level_data_inv nodes ex0 (start_node n ex)"
proof -
  let ?e = "Started (node_id n) (dependencyResults ex n) (clock ex)"
  have T: "added ex0 ex = T" by (rule added_simps[OF tr])
  have a: "added ex0 (start_node n ex) = T @ [?e]" by (rule added_start_node[OF tr])
  from inv have i1: "\<forall>r. r \<in> set (running ex) \<longrightarrow>
        fst r \<in> set nodes \<and> artifact (state (snd r)) = artifact (store ex0 (node_id (fst r)))"
    and i2: "\<forall>w. w \<in> set (tasks (semaphore ex)) \<longrightarrow> w \<in> set nodes"
    and i3: "\<forall>i. i \<notin> set (ended_ids T) \<longrightarrow> store ex i = store ex0 i"
    and i4: "\<forall>e. e \<in> set T \<longrightarrow>
        (\<exists>n. n \<in> set nodes \<and> node_id n = event_id e \<and>
           (\<forall>args t. e = Started (node_id n) args t \<longrightarrow>
              args = map (\<lambda>d. artifact (store ex0 d)) (node_dependencies n)) \<and>
           (\<forall>r t. e = Ended (node_id n) r t \<longrightarrow>
              artifact (store ex (node_id n)) = artifact_after n r (artifact (store ex0 (node_id n)))))"
    and i5: "rejection ex = (case abort_ids nodes T of [] \<Rightarrow> None | i # rest \<Rightarrow> Some (AbortedAt i))"
    unfolding level_data_inv_def T by blast+
  have endsub: "set (ended_ids T) \<subseteq> node_id ` set nodes"
    using level_data_inv_ended_nodes[OF inv] T by simp
  have depfree: "d \<notin> set (ended_ids T)" if "d \<in> set (node_dependencies n)" for d
    using ok n that endsub unfolding level_nodes_ok_def by blast
  have args: "dependencyResults ex n = map (\<lambda>d. artifact (store ex0 d)) (node_dependencies n)"
    unfolding dependencyResults_def by (rule map_cong) (use i3 depfree in simp_all)
  have art: "artifact (state (run_of ex n)) = artifact (store ex0 (node_id n))"
    using i3 nid by (simp add: run_of_artifact)
  have j1: "\<forall>r. r \<in> set (running (start_node n ex)) \<longrightarrow>
        fst r \<in> set nodes \<and> artifact (state (snd r)) = artifact (store ex0 (node_id (fst r)))"
    using i1 n art by (auto simp: start_node_eq)
  have j2: "\<forall>w. w \<in> set (tasks (semaphore (start_node n ex))) \<longrightarrow> w \<in> set nodes"
    using i2 by (simp add: start_node_eq)
  have j3: "\<forall>i. i \<notin> set (ended_ids (T @ [?e])) \<longrightarrow> store (start_node n ex) i = store ex0 i"
    using i3 by (simp add: start_node_eq)
  have j4: "\<forall>e. e \<in> set (T @ [?e]) \<longrightarrow>
        (\<exists>m. m \<in> set nodes \<and> node_id m = event_id e \<and>
           (\<forall>args t. e = Started (node_id m) args t \<longrightarrow>
              args = map (\<lambda>d. artifact (store ex0 d)) (node_dependencies m)) \<and>
           (\<forall>r t. e = Ended (node_id m) r t \<longrightarrow>
              artifact (store (start_node n ex) (node_id m)) =
                artifact_after m r (artifact (store ex0 (node_id m)))))"
  proof (intro allI impI)
    fix e assume "e \<in> set (T @ [?e])"
    then consider "e \<in> set T" | "e = ?e" by auto
    then show "\<exists>m. m \<in> set nodes \<and> node_id m = event_id e \<and>
           (\<forall>args t. e = Started (node_id m) args t \<longrightarrow>
              args = map (\<lambda>d. artifact (store ex0 d)) (node_dependencies m)) \<and>
           (\<forall>r t. e = Ended (node_id m) r t \<longrightarrow>
              artifact (store (start_node n ex) (node_id m)) =
                artifact_after m r (artifact (store ex0 (node_id m))))"
    proof cases
      case 1
      then show ?thesis using i4 by (simp add: start_node_eq)
    next
      case 2
      then show ?thesis using n args by (intro exI[of _ n]) simp
    qed
  qed
  have j5: "rejection (start_node n ex) =
      (case abort_ids nodes (T @ [?e]) of [] \<Rightarrow> None | i # rest \<Rightarrow> Some (AbortedAt i))"
    using i5 by (simp add: start_node_eq abort_ids_append)
  show ?thesis unfolding level_data_inv_def a by (intro conjI j1 j2 j3 j4 j5)
qed

lemma abort_policy_node:
  assumes "level_nodes_ok nodes" "n \<in> set nodes"
  shows "abort_policy nodes (node_id n) \<longleftrightarrow> onError (node_task n) = Some Abort"
proof -
  have inj: "inj_on node_id (set nodes)"
    using assms(1) by (simp add: level_nodes_ok_def distinct_map)
  show ?thesis
    unfolding abort_policy_def using assms(2) inj by (auto dest: inj_onD)
qed

lemma level_data_inv_finish:
  assumes inv: "level_data_inv nodes ex0 ex" and tr: "trace ex = trace ex0 @ T"
    and run: "(node, R) \<in> set (running ex)" and sub: "set others \<subseteq> set (running ex)"
    and nid: "node_id node \<notin> set (ended_ids T)"
    and ok: "level_nodes_ok nodes"
  shows "level_data_inv nodes ex0 (finish node R (ex\<lparr>running := others\<rparr>))"
proof -
  let ?e = "Ended (node_id node) (outcome R) (finished R)"
  let ?ex' = "finish node R (ex\<lparr>running := others\<rparr>)"
  have T: "added ex0 ex = T" by (rule added_simps[OF tr])
  have tr1: "trace (ex\<lparr>running := others\<rparr>) = trace ex0 @ T" using tr by simp
  have a: "added ex0 ?ex' = T @ [?e]" by (rule added_finish[OF tr1])
  from inv have i1: "\<forall>r. r \<in> set (running ex) \<longrightarrow>
        fst r \<in> set nodes \<and> artifact (state (snd r)) = artifact (store ex0 (node_id (fst r)))"
    and i2: "\<forall>w. w \<in> set (tasks (semaphore ex)) \<longrightarrow> w \<in> set nodes"
    and i3: "\<forall>i. i \<notin> set (ended_ids T) \<longrightarrow> store ex i = store ex0 i"
    and i4: "\<forall>e. e \<in> set T \<longrightarrow>
        (\<exists>n. n \<in> set nodes \<and> node_id n = event_id e \<and>
           (\<forall>args t. e = Started (node_id n) args t \<longrightarrow>
              args = map (\<lambda>d. artifact (store ex0 d)) (node_dependencies n)) \<and>
           (\<forall>r t. e = Ended (node_id n) r t \<longrightarrow>
              artifact (store ex (node_id n)) = artifact_after n r (artifact (store ex0 (node_id n)))))"
    and i5: "rejection ex = (case abort_ids nodes T of [] \<Rightarrow> None | i # rest \<Rightarrow> Some (AbortedAt i))"
    unfolding level_data_inv_def T by blast+
  have nn: "node \<in> set nodes" and art: "artifact (state R) = artifact (store ex0 (node_id node))"
    using i1 run by force+
  have st: "store ?ex' i = (if i = node_id node then final_state node R else store ex i)" for i
    by (simp add: finish_def)
  have j1: "\<forall>r. r \<in> set (running ?ex') \<longrightarrow>
        fst r \<in> set nodes \<and> artifact (state (snd r)) = artifact (store ex0 (node_id (fst r)))"
    using i1 sub by (auto simp: finish_def)
  have j2: "\<forall>w. w \<in> set (tasks (semaphore ?ex')) \<longrightarrow> w \<in> set nodes"
    using i2 by (simp add: finish_def)
  have j3: "\<forall>i. i \<notin> set (ended_ids (T @ [?e])) \<longrightarrow> store ?ex' i = store ex0 i"
    using i3 by (simp add: st)
  have fin: "artifact (final_state node R) =
      artifact_after node (outcome R) (artifact (store ex0 (node_id node)))"
    using art by (cases "outcome R") (simp_all add: final_state_def artifact_after_def)
  have j4: "\<forall>e. e \<in> set (T @ [?e]) \<longrightarrow>
        (\<exists>m. m \<in> set nodes \<and> node_id m = event_id e \<and>
           (\<forall>args t. e = Started (node_id m) args t \<longrightarrow>
              args = map (\<lambda>d. artifact (store ex0 d)) (node_dependencies m)) \<and>
           (\<forall>r t. e = Ended (node_id m) r t \<longrightarrow>
              artifact (store ?ex' (node_id m)) =
                artifact_after m r (artifact (store ex0 (node_id m)))))"
  proof (intro allI impI)
    fix e assume "e \<in> set (T @ [?e])"
    then consider "e \<in> set T" | "e = ?e" by auto
    then show "\<exists>m. m \<in> set nodes \<and> node_id m = event_id e \<and>
           (\<forall>args t. e = Started (node_id m) args t \<longrightarrow>
              args = map (\<lambda>d. artifact (store ex0 d)) (node_dependencies m)) \<and>
           (\<forall>r t. e = Ended (node_id m) r t \<longrightarrow>
              artifact (store ?ex' (node_id m)) =
                artifact_after m r (artifact (store ex0 (node_id m))))"
    proof cases
      case 1
      from i4[rule_format, OF 1] obtain m where m: "m \<in> set nodes" "node_id m = event_id e"
        "\<forall>args t. e = Started (node_id m) args t \<longrightarrow>
              args = map (\<lambda>d. artifact (store ex0 d)) (node_dependencies m)"
        "\<forall>r t. e = Ended (node_id m) r t \<longrightarrow>
              artifact (store ex (node_id m)) = artifact_after m r (artifact (store ex0 (node_id m)))"
        by blast
      have "artifact (store ?ex' (node_id m)) = artifact_after m r (artifact (store ex0 (node_id m)))"
        if e: "e = Ended (node_id m) r t" for r t
      proof -
        have "node_id m \<in> set (ended_ids T)" using 1 e by (auto simp: ended_ids_mem)
        then have "node_id m \<noteq> node_id node" using nid by auto
        then show ?thesis using m(4) e by (simp add: st)
      qed
      then show ?thesis using m(1,2,3) by blast
    next
      case 2
      then show ?thesis using nn fin by (intro exI[of _ node]) (simp add: st)
    qed
  qed
  have ab: "aborts node R \<longleftrightarrow> isl (outcome R) \<and> abort_policy nodes (node_id node)"
    by (simp add: aborts_def abort_policy_node[OF ok nn])
  have j5: "rejection ?ex' =
      (case abort_ids nodes (T @ [?e]) of [] \<Rightarrow> None | i # rest \<Rightarrow> Some (AbortedAt i))"
    using i5 ab
    by (cases "abort_ids nodes T")
       (auto simp: finish_def abort_ids_append abort_ids_Ended)
  show ?thesis unfolding level_data_inv_def a by (intro conjI j1 j2 j3 j4 j5)
qed

lemma level_inv_launch:
  assumes inv: "level_inv nodes ex0 ls ex" and ok: "level_nodes_ok nodes"
    and n: "n \<in> set nodes" and fresh: "node_id n \<notin> node_id ` set ls"
  shows "level_inv nodes ex0 (ls @ [n]) (launch n ex)"
proof -
  from inv have ti: "level_trace_inv ex0 ls ex" and di: "level_data_inv nodes ex0 ex"
    and d: "distinct (map node_id ls)" and sub: "set ls \<subseteq> set nodes"
    unfolding level_inv_def by simp_all
  have tr: "trace ex = trace ex0 @ added ex0 ex" using level_trace_inv_added[OF ti] by simp
  have nid: "node_id n \<notin> set (ended_ids (added ex0 ex))"
    using level_trace_inv_disjoint(1)[OF ti d] fresh by blast
  have "level_data_inv nodes ex0 (launch n ex)"
  proof (cases "counter (semaphore ex) > 0")
    case True
    let ?ex1 = "ex\<lparr>semaphore := (semaphore ex)\<lparr>counter := counter (semaphore ex) - 1\<rparr>\<rparr>"
    have l: "launch n ex = start_node n ?ex1" using True by (simp add: launch_eq)
    have d1: "level_data_inv nodes ex0 ?ex1"
      by (rule level_data_inv_semaphore[OF di]) (use di in \<open>simp add: level_data_inv_def\<close>)
    have tr1: "trace ?ex1 = trace ex0 @ added ex0 ex" using tr by simp
    show ?thesis unfolding l by (rule level_data_inv_start[OF d1 tr1 n nid ok])
  next
    case False
    then have l: "launch n ex = ex\<lparr>semaphore := (semaphore ex)\<lparr>tasks := tasks (semaphore ex) @ [n]\<rparr>\<rparr>"
      by (simp add: launch_eq)
    show ?thesis unfolding l
      by (rule level_data_inv_semaphore[OF di]) (use di n in \<open>auto simp: level_data_inv_def\<close>)
  qed
  moreover have "distinct (map node_id (ls @ [n]))" using d fresh by simp
  moreover have "set (ls @ [n]) \<subseteq> set nodes" using sub n by simp
  ultimately show ?thesis
    unfolding level_inv_def using level_trace_inv_launch[OF ti, of n] by blast
qed

lemma level_inv_fold:
  "level_inv nodes ex0 ls ex \<Longrightarrow> level_nodes_ok nodes \<Longrightarrow> set rest \<subseteq> set nodes \<Longrightarrow>
   distinct (map node_id (ls @ rest)) \<Longrightarrow> level_inv nodes ex0 (ls @ rest) (fold launch rest ex)"
proof (induction rest arbitrary: ls ex)
  case Nil
  then show ?case by simp
next
  case (Cons n rest)
  have "level_inv nodes ex0 (ls @ [n]) (launch n ex)"
    by (rule level_inv_launch[OF Cons.prems(1,2)]) (use Cons.prems(3,4) in auto)
  from Cons.IH[OF this Cons.prems(2)] Cons.prems(3,4) show ?case by simp
qed

lemma level_inv_settle:
  assumes inv: "level_inv nodes ex0 ls ex" and ok: "level_nodes_ok nodes"
    and nxt: "next_settled (running ex) = Some ((node, R), others)"
  shows "level_inv nodes ex0 ls (settle node R (ex\<lparr>running := others\<rparr>))"
proof -
  from inv have ti: "level_trace_inv ex0 ls ex" and di: "level_data_inv nodes ex0 ex"
    and d: "distinct (map node_id ls)" and sub: "set ls \<subseteq> set nodes"
    unfolding level_inv_def by simp_all
  let ?T = "added ex0 ex"
  have tr: "trace ex = trace ex0 @ ?T" using level_trace_inv_added[OF ti] by simp
  from next_settled_props[OF nxt] have ms: "mset (running ex) = add_mset (node, R) (mset others)"
    by simp
  have seteq: "set (running ex) = insert (node, R) (set others)"
    using arg_cong[OF ms, of set_mset] by simp
  then have run: "(node, R) \<in> set (running ex)" and osub: "set others \<subseteq> set (running ex)" by auto
  have nid: "node_id node \<notin> set (ended_ids ?T)"
    using level_trace_inv_disjoint(2)[OF ti d run] by simp
  let ?ex1 = "ex\<lparr>running := others\<rparr>"
  let ?f = "finish node R ?ex1"
  have df: "level_data_inv nodes ex0 ?f"
    by (rule level_data_inv_finish[OF di tr run osub nid ok])
  have trf: "trace ?f = trace ex0 @ (?T @ [Ended (node_id node) (outcome R) (finished R)])"
    using tr by (simp add: finish_def)
  have semf: "semaphore ?f = semaphore ex" by (simp add: finish_def)
  have wn: "w \<in> set (tasks (semaphore ex)) \<Longrightarrow> w \<in> set nodes" for w
    using di unfolding level_data_inv_def by blast
  have "level_data_inv nodes ex0 (settle node R ?ex1)"
  proof (cases "tasks (semaphore ex)")
    case Nil
    have s: "settle node R ?ex1 =
        ?f\<lparr>semaphore := (semaphore ?ex1)\<lparr>counter := counter (semaphore ?ex1) + 1\<rparr>\<rparr>"
      using Nil by (simp add: settle_eq)
    show ?thesis unfolding s by (rule level_data_inv_semaphore[OF df]) (use Nil in simp)
  next
    case (Cons w rest)
    let ?ex2 = "?f\<lparr>semaphore := (semaphore ?ex1)\<lparr>tasks := rest\<rparr>\<rparr>"
    have s: "settle node R ?ex1 = start_node w ?ex2" using Cons by (simp add: settle_eq)
    have win: "w \<in> set (tasks (semaphore ex))" using Cons by simp
    have d2: "level_data_inv nodes ex0 ?ex2"
      by (rule level_data_inv_semaphore[OF df]) (use wn Cons in simp)
    have tr2: "trace ?ex2 = trace ex0 @ (?T @ [Ended (node_id node) (outcome R) (finished R)])"
      using trf by simp
    have "node_id w \<notin> set (ended_ids ?T)"
      using level_trace_inv_disjoint(4)[OF ti d win] .
    moreover have "node_id w \<noteq> node_id node"
      using level_trace_inv_disjoint(6)[OF ti d run win] by simp
    ultimately have widn: "node_id w \<notin> set (ended_ids (?T @ [Ended (node_id node) (outcome R) (finished R)]))"
      by simp
    show ?thesis unfolding s
      by (rule level_data_inv_start[OF d2 tr2 wn[OF win] widn ok])
  qed
  then show ?thesis
    unfolding level_inv_def using level_trace_inv_settle[OF ti nxt] d sub by blast
qed

lemma level_inv_drain:
  "level_inv nodes ex0 ls ex \<Longrightarrow> level_nodes_ok nodes \<Longrightarrow> level_inv nodes ex0 ls (drain ex)"
proof (induction ex rule: drain.induct)
  case (1 ex)
  show ?case
  proof (cases "next_settled (running ex)")
    case None
    then show ?thesis using "1.prems" by (subst drain.simps) simp
  next
    case (Some a)
    obtain node R others where a: "a = ((node, R), others)" by (cases a) auto
    have "level_inv nodes ex0 ls (settle node R (ex\<lparr>running := others\<rparr>))"
      by (rule level_inv_settle[OF "1.prems" Some[unfolded a]])
    from "1.IH"[OF Some[unfolded a] refl refl this "1.prems"(2)]
    show ?thesis using Some a by (subst drain.simps) simp
  qed
qed

lemma level_count_inv_fold:
  "level_count_inv K ex0 ex \<Longrightarrow> level_trace_inv ex0 ls ex \<Longrightarrow>
   level_count_inv K ex0 (fold launch rest ex)"
proof (induction rest arbitrary: ls ex)
  case Nil
  then show ?case by simp
next
  case (Cons n rest)
  have tr: "trace ex = trace ex0 @ added ex0 ex" using level_trace_inv_added[OF Cons.prems(2)] by simp
  from Cons.IH[OF level_count_inv_launch[OF Cons.prems(1) tr] level_trace_inv_launch[OF Cons.prems(2)]]
  show ?case by simp
qed

lemma level_count_inv_drain:
  "level_count_inv K ex0 ex \<Longrightarrow> level_trace_inv ex0 ls ex \<Longrightarrow> level_count_inv K ex0 (drain ex)"
proof (induction ex rule: drain.induct)
  case (1 ex)
  show ?case
  proof (cases "next_settled (running ex)")
    case None
    then show ?thesis using "1.prems" by (subst drain.simps) simp
  next
    case (Some a)
    obtain node R others where a: "a = ((node, R), others)" by (cases a) auto
    have tr: "trace ex = trace ex0 @ added ex0 ex" using level_trace_inv_added[OF "1.prems"(2)] by simp
    have c: "level_count_inv K ex0 (settle node R (ex\<lparr>running := others\<rparr>))"
      by (rule level_count_inv_settle[OF "1.prems"(1) tr next_settled_length[OF Some[unfolded a]]])
    have t: "level_trace_inv ex0 ls (settle node R (ex\<lparr>running := others\<rparr>))"
      by (rule level_trace_inv_settle[OF "1.prems"(2) Some[unfolded a]])
    from "1.IH"[OF Some[unfolded a] refl refl c t]
    show ?thesis using Some a by (subst drain.simps) simp
  qed
qed

text \<open>One level, started with no launch running and no launch waiting.\<close>

lemma run_level_data:
  assumes idle: "running ex = []" "tasks (semaphore ex) = []" and ok: "level_nodes_ok nodes"
  shows "level_inv nodes ex nodes (run_level nodes ex)"
proof -
  let ?ex0 = "ex\<lparr>rejection := None\<rparr>"
  have a0: "added ex ?ex0 = []" by (simp add: added_def)
  have "level_data_inv nodes ex ?ex0"
    unfolding level_data_inv_def a0 using idle by (simp add: abort_ids_def)
  then have "level_inv nodes ex [] ?ex0"
    unfolding level_inv_def using level_trace_inv_base[OF idle] by simp
  from level_inv_fold[OF this ok, of nodes] ok
  have "level_inv nodes ex nodes (fold launch nodes ?ex0)" by (simp add: level_nodes_ok_def)
  from level_inv_drain[OF this ok] show ?thesis by (simp add: run_level_def)
qed

lemma run_level_count:
  assumes idle: "running ex = []" "tasks (semaphore ex) = []"
    and K: "counter (semaphore ex) = K" "0 \<le> K"
  shows "level_count_inv K ex (run_level nodes ex)"
proof -
  let ?ex0 = "ex\<lparr>rejection := None\<rparr>"
  have a0: "added ex ?ex0 = []" by (simp add: added_def)
  have c0: "level_count_inv K ex ?ex0"
    unfolding level_count_inv_def a0 using idle K by simp
  have t0: "level_trace_inv ex [] ?ex0" by (rule level_trace_inv_base[OF idle])
  have "level_count_inv K ex (fold launch nodes ?ex0)" by (rule level_count_inv_fold[OF c0 t0])
  moreover have "level_trace_inv ex ([] @ nodes) (fold launch nodes ?ex0)"
    by (rule level_trace_inv_fold[OF t0])
  ultimately show ?thesis using level_count_inv_drain by (simp add: run_level_def)
qed

lemma run_level_no_deadlock:
  assumes idle: "running ex = []" "tasks (semaphore ex) = []"
    and K: "counter (semaphore ex) = K" "1 \<le> K"
  shows "tasks (semaphore (run_level nodes ex)) = [] \<and> counter (semaphore (run_level nodes ex)) = K"
proof -
  have "level_count_inv K ex (run_level nodes ex)"
    by (rule run_level_count[OF idle K(1)]) (use K(2) in simp)
  moreover have "running (run_level nodes ex) = []" using run_level_inv[OF idle] by simp
  ultimately show ?thesis using K(2) unfolding level_count_inv_def by auto
qed

lemma bounded_append:
  assumes "bounded K A" "in_flight A = 0" "bounded K B"
  shows "bounded K (A @ B)"
  unfolding bounded_def
proof (intro allI impI)
  fix k assume "k \<le> length (A @ B)"
  show "in_flight (take k (A @ B)) \<le> K"
  proof (cases "k \<le> length A")
    case True
    then show ?thesis using assms(1) by (simp add: bounded_def)
  next
    case False
    then have "take k (A @ B) = A @ take (k - length A) B" by simp
    moreover have "in_flight (take (k - length A) B) \<le> K"
      using assms(3) \<open>k \<le> length (A @ B)\<close> by (simp add: bounded_def)
    ultimately show ?thesis using assms(2) by (simp add: in_flight_append)
  qed
qed

lemma run_level_idle:
  assumes "idle K ex" "0 \<le> K"
  shows "\<exists>T. trace (run_level nodes ex) = trace ex @ T \<and> bounded K T \<and> in_flight T = 0 \<and>
           running (run_level nodes ex) = [] \<and>
           counter (semaphore (run_level nodes ex)) = K \<and>
           (1 \<le> K \<longrightarrow> tasks (semaphore (run_level nodes ex)) = [])"
proof -
  let ?ex = "run_level nodes ex"
  from assms(1) have i: "running ex = []" "tasks (semaphore ex) = []" "counter (semaphore ex) = K"
    by (simp_all add: idle_def)
  have c: "level_count_inv K ex ?ex" by (rule run_level_count[OF i assms(2)])
  have r: "running ?ex = []" and t: "level_trace_inv ex nodes ?ex"
    using run_level_inv[OF i(1,2), of nodes] by simp_all
  have tr: "trace ?ex = trace ex @ added ex ?ex" using level_trace_inv_added[OF t] by simp
  from c r have "bounded K (added ex ?ex)" "in_flight (added ex ?ex) = 0"
    "counter (semaphore ?ex) = K" "1 \<le> K \<longrightarrow> tasks (semaphore ?ex) = []"
    unfolding level_count_inv_def bounded_def by auto
  then show ?thesis using tr r by blast
qed

lemma run_levels_bounded:
  "idle K ex \<Longrightarrow> 0 \<le> K \<Longrightarrow> bounded K (trace ex) \<Longrightarrow> in_flight (trace ex) = 0 \<Longrightarrow>
   bounded K (trace (snd (run_levels out NL ls ex)))"
proof (induction ls arbitrary: ex)
  case Nil
  then show ?case by simp
next
  case (Cons l ls)
  let ?nodes = "filter (\<lambda>node. NL (node_id node) = Some (Level l)) out"
  let ?ex1 = "run_level ?nodes ex"
  obtain T where T: "trace ?ex1 = trace ex @ T" "bounded K T" "in_flight T = 0"
    "running ?ex1 = []" "counter (semaphore ?ex1) = K"
    using run_level_idle[OF Cons.prems(1,2), of ?nodes] by blast
  have b1: "bounded K (trace ?ex1)"
    unfolding T(1) by (rule bounded_append[OF Cons.prems(3,4) T(2)])
  have f1: "in_flight (trace ?ex1) = 0" using T(3) Cons.prems(4) by (simp add: T(1) in_flight_append)
  show ?case
  proof (cases "tasks (semaphore ?ex1) = [] \<and> rejection ?ex1 = None")
    case False
    then have "snd (run_levels out NL (l # ls) ex) = ?ex1"
      by (auto simp: run_levels_Cons Let_def simp del: run_levels.simps split: option.splits)
    then show ?thesis using b1 by simp
  next
    case True
    then have eq: "run_levels out NL (l # ls) ex = run_levels out NL ls ?ex1"
      by (simp add: run_levels_Cons Let_def del: run_levels.simps)
    have "idle K ?ex1" using True T(4,5) by (simp add: idle_def)
    from Cons.IH[OF this Cons.prems(2) b1 f1] show ?thesis unfolding eq .
  qed
qed

lemma run_levels_settles:
  "idle K ex \<Longrightarrow> 1 \<le> K \<Longrightarrow> fst (run_levels out NL ls ex) \<noteq> NeverSettles"
proof (induction ls arbitrary: ex)
  case Nil
  then show ?case by simp
next
  case (Cons l ls)
  let ?nodes = "filter (\<lambda>node. NL (node_id node) = Some (Level l)) out"
  let ?ex1 = "run_level ?nodes ex"
  have "0 \<le> K" using Cons.prems(2) by simp
  from run_level_idle[OF Cons.prems(1) this, of ?nodes] Cons.prems(2)
  have i1: "running ?ex1 = []" "counter (semaphore ?ex1) = K" "tasks (semaphore ?ex1) = []"
    by auto
  then have "idle K ?ex1" by (simp add: idle_def)
  from Cons.IH[OF this Cons.prems(2)] i1(3) show ?case
    by (auto simp: run_levels_Cons Let_def simp del: run_levels.simps split: option.splits)
qed

lemma initial_exec_is_idle: "idle K (initial_exec K t0)"
  by (simp add: idle_def initial_exec_def new_Semaphore_def)

lemma driver_bounded:
  "0 \<le> K \<Longrightarrow> bounded K (trace (snd (executeTasksWithConcurrencyLimit out K t0)))"
  unfolding executeTasksWithConcurrencyLimit_def Let_def
  by (rule run_levels_bounded[OF initial_exec_is_idle])
     (simp_all add: initial_exec_idle bounded_def)

lemma driver_settles:
  "1 \<le> K \<Longrightarrow> fst (executeTasksWithConcurrencyLimit out K t0) \<noteq> NeverSettles"
  unfolding executeTasksWithConcurrencyLimit_def Let_def
  by (rule run_levels_settles[OF initial_exec_is_idle])

section \<open>The data of an execution\<close>

lemma event_ok_id: "event_ok n st e \<Longrightarrow> event_id e = node_id n"
  by (cases e) simp_all

lemma event_ok_cong:
  assumes "event_ok n st e" "\<forall>d \<in> set (node_dependencies n). st' d = st d" "st' (node_id n) = st (node_id n)"
  shows "event_ok n st' e"
  using assms by (cases e) (auto simp: map_eq_conv)

lemma ended_ids_event: "i \<in> set (ended_ids T) \<Longrightarrow> \<exists>e \<in> set T. event_id e = i"
  by (auto simp: ended_ids_def)

lemma levels_ok_level_nodes:
  assumes "levels_ok out NL"
  shows "level_nodes_ok (nodes_at out NL l)"
proof -
  have d: "distinct (map node_id (nodes_at out NL l))"
    using assms unfolding levels_ok_def nodes_at_def by (simp add: distinct_map_filter)
  have "set (node_dependencies n) \<inter> node_id ` set (nodes_at out NL l) = {}"
    if "n \<in> set (nodes_at out NL l)" for n
  proof (rule ccontr)
    assume "set (node_dependencies n) \<inter> node_id ` set (nodes_at out NL l) \<noteq> {}"
    then obtain p m where p: "p \<in> set (node_dependencies n)" "m \<in> set (nodes_at out NL l)" "p = node_id m"
      by auto
    have n: "n \<in> set out" "NL (node_id n) = Some (Level l)" using that by (simp_all add: nodes_at_def)
    have m: "NL p = Some (Level l)" using p(2,3) by (simp add: nodes_at_def)
    from assms n(1) p(1) obtain lp lc where "NL p = Some (Level lp)" "NL (node_id n) = Some (Level lc)" "lp < lc"
      unfolding levels_ok_def by blast
    then show False using n(2) m by simp
  qed
  then show ?thesis using d unfolding level_nodes_ok_def by blast
qed

lemma abort_policy_sub:
  assumes d: "distinct (map node_id out)" and sub: "set nodes \<subseteq> set out" and i: "i \<in> node_id ` set nodes"
  shows "abort_policy nodes i \<longleftrightarrow> abort_policy out i"
proof
  assume "abort_policy nodes i"
  then show "abort_policy out i" using sub unfolding abort_policy_def by blast
next
  assume "abort_policy out i"
  then obtain n where n: "n \<in> set out" "node_id n = i" "onError (node_task n) = Some Abort"
    unfolding abort_policy_def by blast
  from i obtain m where m: "m \<in> set nodes" "node_id m = i" by auto
  have "m \<in> set out" using m(1) sub by blast
  then have "m = n" using d n(1,2) m(2) by (meson distinct_map inj_onD)
  then show "abort_policy nodes i" using m n unfolding abort_policy_def by blast
qed

lemma abort_ids_sub:
  assumes d: "distinct (map node_id out)" and sub: "set nodes \<subseteq> set out"
    and ev: "\<forall>e \<in> set T. event_id e \<in> node_id ` set nodes"
  shows "abort_ids nodes T = abort_ids out T"
proof -
  have "filter (\<lambda>e. is_failure e \<and> abort_policy nodes (event_id e)) T =
        filter (\<lambda>e. is_failure e \<and> abort_policy out (event_id e)) T"
    by (rule filter_cong[OF refl]) (use abort_policy_sub[OF d sub] ev in blast)
  then show ?thesis by (simp add: abort_ids_def)
qed

lemma level_data_inv_store:
  "level_data_inv nodes ex0 ex \<Longrightarrow> i \<notin> set (ended_ids (added ex0 ex)) \<Longrightarrow> store ex i = store ex0 i"
  unfolding level_data_inv_def by (elim conjE) (erule allE[of _ i], simp)

lemma level_data_inv_event:
  "level_data_inv nodes ex0 ex \<Longrightarrow> e \<in> set (added ex0 ex) \<Longrightarrow>
   \<exists>n. n \<in> set nodes \<and> node_id n = event_id e \<and>
           (\<forall>args t. e = Started (node_id n) args t \<longrightarrow>
              args = map (\<lambda>d. artifact (store ex0 d)) (node_dependencies n)) \<and>
           (\<forall>r t. e = Ended (node_id n) r t \<longrightarrow>
              artifact (store ex (node_id n)) = artifact_after n r (artifact (store ex0 (node_id n))))"
  unfolding level_data_inv_def by (elim conjE) (erule allE[of _ e], erule impE, assumption+)

lemma level_data_inv_rejection:
  "level_data_inv nodes ex0 ex \<Longrightarrow>
   rejection ex = (case abort_ids nodes (added ex0 ex) of [] \<Rightarrow> None | i # rest \<Rightarrow> Some (AbortedAt i))"
  unfolding level_data_inv_def by (elim conjE)

text \<open>One level of the loop.\<close>

lemma run_inv_level:
  assumes ok: "levels_ok out NL" and inv: "run_inv out NL L ex"
    and idle: "running ex = []" "tasks (semaphore ex) = []"
    and below: "\<forall>l' \<in> L. l' < l"
  shows "run_inv out NL (insert l L) (run_level (nodes_at out NL l) ex) \<and>
         trace (run_level (nodes_at out NL l) ex) = trace ex @ added ex (run_level (nodes_at out NL l) ex) \<and>
         (\<forall>e \<in> set (added ex (run_level (nodes_at out NL l) ex)). NL (event_id e) = Some (Level l)) \<and>
         rejection (run_level (nodes_at out NL l) ex) =
           (case abort_ids out (added ex (run_level (nodes_at out NL l) ex)) of
              [] \<Rightarrow> None | i # rest \<Rightarrow> Some (AbortedAt i)) \<and>
         (tasks (semaphore (run_level (nodes_at out NL l) ex)) = [] \<longrightarrow>
            node_id ` set (nodes_at out NL l) \<subseteq> set (ended_ids (added ex (run_level (nodes_at out NL l) ex))))"
proof -
  let ?nodes = "nodes_at out NL l"
  let ?ex = "run_level ?nodes ex"
  let ?A = "added ex ?ex"
  have lok: "level_nodes_ok ?nodes" by (rule levels_ok_level_nodes[OF ok])
  have d: "distinct (map node_id out)" using ok by (simp add: levels_ok_def)
  have sub: "set ?nodes \<subseteq> set out" by (auto simp: nodes_at_def)
  from run_level_data[OF idle lok] have ti: "level_trace_inv ex ?nodes ?ex"
    and di: "level_data_inv ?nodes ex ?ex" by (simp_all add: level_inv_def)
  have tr: "trace ?ex = trace ex @ ?A" using level_trace_inv_added[OF ti] by simp
  have ended: "set (ended_ids ?A) \<subseteq> node_id ` set ?nodes" by (rule level_data_inv_ended_nodes[OF di])
  have unchanged: "store ?ex i = store ex i" if "i \<notin> node_id ` set ?nodes" for i
    using level_data_inv_store[OF di, of i] that ended by blast
  have at_l: "NL i = Some (Level l)" if "i \<in> node_id ` set ?nodes" for i
    using that by (auto simp: nodes_at_def)
  have new: "\<exists>n. n \<in> set ?nodes \<and> node_id n = event_id e \<and>
           (\<forall>args t. e = Started (node_id n) args t \<longrightarrow>
              args = map (\<lambda>d. artifact (store ex d)) (node_dependencies n)) \<and>
           (\<forall>r t. e = Ended (node_id n) r t \<longrightarrow>
              artifact (store ?ex (node_id n)) = artifact_after n r (artifact (store ex (node_id n))))"
    if "e \<in> set ?A" for e
    by (rule level_data_inv_event[OF di that])
  have ev_l: "\<forall>e \<in> set ?A. NL (event_id e) = Some (Level l)"
  proof
    fix e assume "e \<in> set ?A"
    from new[OF this] obtain n where "n \<in> set ?nodes" "node_id n = event_id e" by blast
    then show "NL (event_id e) = Some (Level l)" using at_l by (metis imageI)
  qed
  have old_level: "\<exists>l'. l' \<in> L \<and> NL i = Some (Level l')" if "i \<in> set (ended_ids (trace ex))" for i
  proof -
    from ended_ids_event[OF that] obtain e where e: "e \<in> set (trace ex)" "event_id e = i" by blast
    from inv e(1) obtain n l' where "l' \<in> L" "NL (node_id n) = Some (Level l')" "event_ok n (store ex) e"
      unfolding run_inv_def by blast
    then show ?thesis using event_ok_id e(2) by metis
  qed
  have fresh: "store ex i = initial_state" if "i \<in> node_id ` set ?nodes" for i
  proof -
    have "i \<notin> set (ended_ids (trace ex))"
    proof
      assume "i \<in> set (ended_ids (trace ex))"
      from old_level[OF this] obtain l' where "l' \<in> L" "NL i = Some (Level l')" by blast
      then show False using at_l[OF that] below by auto
    qed
    then show ?thesis using inv unfolding run_inv_def by blast
  qed
  have g1: "\<exists>n l'. n \<in> set out \<and> l' \<in> insert l L \<and> NL (node_id n) = Some (Level l') \<and>
           event_ok n (store ?ex) e" if e: "e \<in> set (trace ?ex)" for e
  proof (cases "e \<in> set (trace ex)")
    case True
    from inv True obtain n l' where n: "n \<in> set out" "l' \<in> L" "NL (node_id n) = Some (Level l')"
      "event_ok n (store ex) e" unfolding run_inv_def by blast
    have ll: "l' < l" using n(2) below by blast
    have a: "node_id n \<notin> node_id ` set ?nodes" using at_l[of "node_id n"] n(3) ll by auto
    have b: "p \<notin> node_id ` set ?nodes" if "p \<in> set (node_dependencies n)" for p
    proof
      assume "p \<in> node_id ` set ?nodes"
      then have "NL p = Some (Level l)" by (rule at_l)
      moreover from ok n(1) that obtain lp lc where "NL p = Some (Level lp)"
        "NL (node_id n) = Some (Level lc)" "lp < lc" unfolding levels_ok_def by blast
      ultimately show False using n(3) ll by simp
    qed
    have "event_ok n (store ?ex) e"
      by (rule event_ok_cong[OF n(4)]) (use unchanged a b in auto)
    then show ?thesis using n by blast
  next
    case False
    then have eA: "e \<in> set ?A" using e tr by auto
    from new[OF eA] obtain n where n: "n \<in> set ?nodes" "node_id n = event_id e"
      "\<forall>args t. e = Started (node_id n) args t \<longrightarrow>
              args = map (\<lambda>d. artifact (store ex d)) (node_dependencies n)"
      "\<forall>r t. e = Ended (node_id n) r t \<longrightarrow>
              artifact (store ?ex (node_id n)) = artifact_after n r (artifact (store ex (node_id n)))"
      by blast
    have nl: "NL (node_id n) = Some (Level l)" using n(1) at_l by blast
    have dep: "store ?ex p = store ex p" if "p \<in> set (node_dependencies n)" for p
    proof -
      have "p \<notin> node_id ` set ?nodes" using lok n(1) that unfolding level_nodes_ok_def by blast
      then show ?thesis by (rule unchanged)
    qed
    have f: "artifact (store ex (node_id n)) = VUndefined"
      using fresh[of "node_id n"] n(1) by (simp add: initial_state_def)
    have "event_ok n (store ?ex) e"
    proof (cases e)
      case (Started i args t)
      then have "i = node_id n" using n(2) by simp
      then have "args = map (\<lambda>d. artifact (store ex d)) (node_dependencies n)"
        using n(3) Started by blast
      also have "\<dots> = map (\<lambda>d. artifact (store ?ex d)) (node_dependencies n)"
        using dep by (simp add: map_eq_conv)
      finally show ?thesis using Started \<open>i = node_id n\<close> by simp
    next
      case (Ended i r t)
      then have "i = node_id n" using n(2) by simp
      then show ?thesis using n(4) Ended f by simp
    qed
    then show ?thesis using n(1) sub nl by blast
  qed
  have g2: "store ?ex i = initial_state" if "i \<notin> set (ended_ids (trace ?ex))" for i
  proof -
    have a: "i \<notin> set (ended_ids (trace ex))" "i \<notin> set (ended_ids ?A)" using that tr by simp_all
    have "store ?ex i = store ex i" by (rule level_data_inv_store[OF di a(2)])
    then show ?thesis using inv a(1) unfolding run_inv_def by simp
  qed
  have r1: "run_inv out NL (insert l L) ?ex"
    unfolding run_inv_def
  proof (intro conjI allI impI)
    fix e assume "e \<in> set (trace ?ex)"
    then show "\<exists>n l'. n \<in> set out \<and> l' \<in> insert l L \<and> NL (node_id n) = Some (Level l') \<and>
           event_ok n (store ?ex) e" by (rule g1)
  next
    fix i assume "i \<notin> set (ended_ids (trace ?ex))"
    then show "store ?ex i = initial_state" by (rule g2)
  qed
  have evn: "\<forall>e \<in> set ?A. event_id e \<in> node_id ` set ?nodes"
  proof
    fix e assume "e \<in> set ?A"
    from new[OF this] obtain n where "n \<in> set ?nodes" "node_id n = event_id e" by blast
    then show "event_id e \<in> node_id ` set ?nodes" by (metis imageI)
  qed
  have rej: "rejection ?ex = (case abort_ids out ?A of [] \<Rightarrow> None | i # rest \<Rightarrow> Some (AbortedAt i))"
    using level_data_inv_rejection[OF di] abort_ids_sub[OF d sub evn] by simp
  have rn: "running ?ex = []" using run_level_inv[OF idle, of ?nodes] by simp
  from level_trace_inv_added[OF ti]
  have m1: "mset (started_ids ?A) = mset (map (\<lambda>r. node_id (fst r)) (running ?ex)) + mset (ended_ids ?A)"
    and m2: "mset (map node_id ?nodes) = mset (started_ids ?A) + mset (map node_id (tasks (semaphore ?ex)))"
    by simp_all
  have all: "tasks (semaphore ?ex) = [] \<longrightarrow> node_id ` set ?nodes \<subseteq> set (ended_ids ?A)"
  proof
    assume w: "tasks (semaphore ?ex) = []"
    have "mset (map node_id ?nodes) = mset (ended_ids ?A)" using m1 m2 rn w by simp
    then have "set (map node_id ?nodes) = set (ended_ids ?A)" by (rule mset_eq_setD)
    then show "node_id ` set ?nodes \<subseteq> set (ended_ids ?A)" by simp
  qed
  show ?thesis by (intro conjI) (rule r1, rule tr, rule ev_l, rule rej, rule all)
qed

lemma run_inv_mono: "run_inv out NL L ex \<Longrightarrow> L \<subseteq> L' \<Longrightarrow> run_inv out NL L' ex"
  unfolding run_inv_def by (meson subsetD)

lemma run_inv_event_level:
  "run_inv out NL L ex \<Longrightarrow> e \<in> set (trace ex) \<Longrightarrow> \<exists>le. le \<in> L \<and> NL (event_id e) = Some (Level le)"
  unfolding run_inv_def by (metis event_ok_id)

lemma abort_ids_event: "i \<in> set (abort_ids nodes T) \<Longrightarrow> \<exists>e \<in> set T. event_id e = i"
  by (auto simp: abort_ids_def)

lemma run_levels_extends:
  "running ex = [] \<Longrightarrow> tasks (semaphore ex) = [] \<Longrightarrow>
   \<exists>T. trace (snd (run_levels out NL ls ex)) = trace ex @ T"
proof (induction ls arbitrary: ex)
  case Nil
  then show ?case by simp
next
  case (Cons l ls)
  let ?nodes = "filter (\<lambda>node. NL (node_id node) = Some (Level l)) out"
  let ?ex = "run_level ?nodes ex"
  from run_level_inv[OF Cons.prems, of ?nodes]
  have ti: "level_trace_inv ex ?nodes ?ex" and rn: "running ?ex = []" by simp_all
  have tr: "trace ?ex = trace ex @ added ex ?ex" using level_trace_inv_added[OF ti] by simp
  show ?case
  proof (cases "tasks (semaphore ?ex) = []")
    case False
    then show ?thesis using tr by (simp add: run_levels_Cons Let_def)
  next
    case True
    show ?thesis
    proof (cases "rejection ?ex")
      case (Some e)
      then show ?thesis using tr True by (simp add: run_levels_Cons Let_def)
    next
      case None
      from Cons.IH[OF rn True] obtain T where "trace (snd (run_levels out NL ls ?ex)) = trace ?ex @ T"
        by blast
      then have "trace (snd (run_levels out NL ls ?ex)) = trace ex @ (added ex ?ex @ T)"
        using tr by simp
      then show ?thesis using True None by (simp add: run_levels_Cons Let_def)
    qed
  qed
qed

lemma run_levels_data:
  assumes ok: "levels_ok out NL"
  shows "sorted_wrt (<) ls \<Longrightarrow> run_inv out NL L ex \<Longrightarrow> running ex = [] \<Longrightarrow>
     tasks (semaphore ex) = [] \<Longrightarrow> (\<forall>l' \<in> L. \<forall>l \<in> set ls. l' < l) \<Longrightarrow>
     abort_ids out (trace ex) = [] \<Longrightarrow>
     run_result_ok out NL (L \<union> set ls) (run_levels out NL ls ex) \<and>
     (fst (run_levels out NL ls ex) = Fulfilled () \<longrightarrow>
        (\<forall>n l. n \<in> set out \<longrightarrow> l \<in> set ls \<longrightarrow> NL (node_id n) = Some (Level l) \<longrightarrow>
           node_id n \<in> set (ended_ids (trace (snd (run_levels out NL ls ex)))))) \<and>
     (\<forall>i li. fst (run_levels out NL ls ex) = RejectedWith (AbortedAt i) \<longrightarrow>
        NL i = Some (Level li) \<longrightarrow>
        (\<forall>n l. n \<in> set out \<longrightarrow> l \<in> set ls \<longrightarrow> l \<le> li \<longrightarrow> NL (node_id n) = Some (Level l) \<longrightarrow>
           node_id n \<in> set (ended_ids (trace (snd (run_levels out NL ls ex))))))"
proof (induction ls arbitrary: ex L)
  case Nil
  then show ?case by (simp add: run_result_ok_def)
next
  case (Cons l ls)
  let ?nodes = "nodes_at out NL l"
  let ?ex = "run_level ?nodes ex"
  let ?A = "added ex ?ex"
  have below: "\<forall>l' \<in> L. l' < l" using Cons.prems(5) by simp
  from run_inv_level[OF ok Cons.prems(2,3,4) below]
  have r1: "run_inv out NL (insert l L) ?ex"
    and tr: "trace ?ex = trace ex @ ?A"
    and ev_l: "\<forall>e \<in> set ?A. NL (event_id e) = Some (Level l)"
    and rej: "rejection ?ex = (case abort_ids out ?A of [] \<Rightarrow> None | i # rest \<Rightarrow> Some (AbortedAt i))"
    and all: "tasks (semaphore ?ex) = [] \<longrightarrow> node_id ` set ?nodes \<subseteq> set (ended_ids ?A)"
    by blast+
  have rn: "running ?ex = []" using run_level_inv[OF Cons.prems(3,4), of ?nodes] by simp
  have ab: "abort_ids out (trace ?ex) = abort_ids out ?A"
    using tr Cons.prems(6) by (simp add: abort_ids_append)
  have step: "run_levels out NL (l # ls) ex =
     (if tasks (semaphore ?ex) \<noteq> [] then (NeverSettles, ?ex)
      else case rejection ?ex of Some e \<Rightarrow> (RejectedWith e, ?ex)
           | None \<Rightarrow> run_levels out NL ls ?ex)"
    unfolding nodes_at_def by (simp add: run_levels_Cons Let_def)
  have r2: "run_inv out NL (L \<union> set (l # ls)) ?ex"
    by (rule run_inv_mono[OF r1]) auto
  show ?case
  proof (cases "tasks (semaphore ?ex) = []")
    case False
    then have res: "run_levels out NL (l # ls) ex = (NeverSettles, ?ex)" using step by simp
    show ?thesis unfolding res run_result_ok_def using r2 by simp
  next
    case True
    show ?thesis
    proof (cases "abort_ids out ?A")
      case (Cons i rest)
      then have res: "run_levels out NL (l # ls) ex = (RejectedWith (AbortedAt i), ?ex)"
        using step True rej by simp
      have "i \<in> set (abort_ids out ?A)" using Cons by simp
      from abort_ids_event[OF this] obtain e where "e \<in> set ?A" "event_id e = i" by blast
      then have li: "NL i = Some (Level l)" using ev_l by blast
      have lev: "\<exists>le. NL (event_id e) = Some (Level le) \<and> le \<le> l" if "e \<in> set (trace ?ex)" for e
      proof (cases "e \<in> set ?A")
        case True
        then show ?thesis using ev_l by blast
      next
        case False
        then have "e \<in> set (trace ex)" using that tr by auto
        from run_inv_event_level[OF Cons.prems(2) this] below show ?thesis
          by (meson less_imp_le_nat)
      qed
      have sib: "node_id n \<in> set (ended_ids (trace ?ex))"
        if "n \<in> set out" "l' \<in> set (l # ls)" "l' \<le> l" "NL (node_id n) = Some (Level l')" for n l'
      proof -
        have "l' = l" using that(2,3) Cons.prems(1) by auto
        then have "n \<in> set ?nodes" using that(1,4) by (simp add: nodes_at_def)
        then have "node_id n \<in> set (ended_ids ?A)" using all True by blast
        then show ?thesis unfolding tr by simp
      qed
      have c1: "run_result_ok out NL (L \<union> set (l # ls)) (RejectedWith (AbortedAt i), ?ex)"
        unfolding run_result_ok_def using r2 ab Cons li lev by simp
      have c3: "\<forall>i' li. fst (RejectedWith (AbortedAt i), ?ex) = RejectedWith (AbortedAt i') \<longrightarrow>
          NL i' = Some (Level li) \<longrightarrow>
          (\<forall>n l'. n \<in> set out \<longrightarrow> l' \<in> set (l # ls) \<longrightarrow> l' \<le> li \<longrightarrow> NL (node_id n) = Some (Level l') \<longrightarrow>
             node_id n \<in> set (ended_ids (trace (snd (RejectedWith (AbortedAt i), ?ex)))))"
      proof (intro allI impI)
        fix i' li' n l'
        assume a: "fst (RejectedWith (AbortedAt i), ?ex) = RejectedWith (AbortedAt i')"
          "NL i' = Some (Level li')" "n \<in> set out" "l' \<in> set (l # ls)" "l' \<le> li'"
          "NL (node_id n) = Some (Level l')"
        have "i' = i" using a(1) by simp
        then have "li' = l" using a(2) li by simp
        then have "node_id n \<in> set (ended_ids (trace ?ex))" using sib[OF a(3,4) _ a(6)] a(5) by simp
        then show "node_id n \<in> set (ended_ids (trace (snd (RejectedWith (AbortedAt i), ?ex))))"
          by simp
      qed
      show ?thesis unfolding res using c1 c3 by simp
    next
      case Nil
      then have res: "run_levels out NL (l # ls) ex = run_levels out NL ls ?ex"
        using step True rej by simp
      have b': "\<forall>l' \<in> insert l L. \<forall>l'' \<in> set ls. l' < l''" using Cons.prems(1,5) by auto
      have s': "sorted_wrt (<) ls" using Cons.prems(1) by simp
      have ab': "abort_ids out (trace ?ex) = []" using ab Nil by simp
      from Cons.IH[OF s' r1 rn True b' ab']
      have ih1: "run_result_ok out NL (insert l L \<union> set ls) (run_levels out NL ls ?ex)"
        and ih2: "fst (run_levels out NL ls ?ex) = Fulfilled () \<longrightarrow>
          (\<forall>n l. n \<in> set out \<longrightarrow> l \<in> set ls \<longrightarrow> NL (node_id n) = Some (Level l) \<longrightarrow>
             node_id n \<in> set (ended_ids (trace (snd (run_levels out NL ls ?ex)))))"
        and ih3: "\<forall>i li. fst (run_levels out NL ls ?ex) = RejectedWith (AbortedAt i) \<longrightarrow>
          NL i = Some (Level li) \<longrightarrow>
          (\<forall>n l. n \<in> set out \<longrightarrow> l \<in> set ls \<longrightarrow> l \<le> li \<longrightarrow> NL (node_id n) = Some (Level l) \<longrightarrow>
             node_id n \<in> set (ended_ids (trace (snd (run_levels out NL ls ?ex)))))"
        by blast+
      have eqs: "insert l L \<union> set ls = L \<union> set (l # ls)" by auto
      from run_levels_extends[OF rn True, of out NL ls] obtain T where
        T: "trace (snd (run_levels out NL ls ?ex)) = trace ?ex @ T" by blast
      have here: "node_id n \<in> set (ended_ids (trace (snd (run_levels out NL ls ?ex))))"
        if "n \<in> set out" "NL (node_id n) = Some (Level l)" for n
      proof -
        have "n \<in> set ?nodes" using that by (simp add: nodes_at_def)
        then have "node_id n \<in> set (ended_ids ?A)" using all True by blast
        then show ?thesis unfolding T tr by simp
      qed
      have c2: "fst (run_levels out NL ls ?ex) = Fulfilled () \<longrightarrow>
        (\<forall>n l'. n \<in> set out \<longrightarrow> l' \<in> set (l # ls) \<longrightarrow> NL (node_id n) = Some (Level l') \<longrightarrow>
           node_id n \<in> set (ended_ids (trace (snd (run_levels out NL ls ?ex)))))"
        using ih2 here by auto
      have c3: "\<forall>i li. fst (run_levels out NL ls ?ex) = RejectedWith (AbortedAt i) \<longrightarrow>
          NL i = Some (Level li) \<longrightarrow>
          (\<forall>n l'. n \<in> set out \<longrightarrow> l' \<in> set (l # ls) \<longrightarrow> l' \<le> li \<longrightarrow> NL (node_id n) = Some (Level l') \<longrightarrow>
             node_id n \<in> set (ended_ids (trace (snd (run_levels out NL ls ?ex)))))"
        using ih3 here by auto
      have c1: "run_result_ok out NL (L \<union> set (l # ls)) (run_levels out NL ls ?ex)"
        using ih1 unfolding eqs .
      show ?thesis unfolding res by (intro conjI) (rule c1, rule c2, rule c3)
    qed
  qed
qed

lemma assign_levels_ok:
  assumes db: "deps_before {} out" and d: "distinct (map node_id out)"
  shows "levels_ok out (assign_levels out Map.empty)"
  unfolding levels_ok_def using d assign_levels_edges[OF db d] by blast

lemma assign_levels_covered:
  assumes db: "deps_before {} out" and d: "distinct (map node_id out)" and n: "n \<in> set out"
  shows "\<exists>l. assign_levels out Map.empty (node_id n) = Some (Level l) \<and>
           l \<in> set (levels_upto (math_max (map (\<lambda>node. get_level (assign_levels out Map.empty) (node_id node)) out)))"
proof -
  let ?NL = "assign_levels out Map.empty"
  let ?xs = "map (\<lambda>node. get_level ?NL (node_id node)) out"
  have e: "all_numbers Map.empty" by (simp add: all_numbers_def)
  from assign_levels_inv[OF e, of out] db d
  have an: "all_numbers ?NL" and dm: "dom ?NL = node_id ` set out" by simp_all
  have num: "\<exists>l. ?NL (node_id m) = Some (Level l)" if "m \<in> set out" for m
  proof -
    have "node_id m \<in> dom ?NL" using dm that by blast
    then obtain v where "?NL (node_id m) = Some v" by blast
    then show ?thesis using an unfolding all_numbers_def by blast
  qed
  have a: "\<forall>x \<in> set ?xs. \<exists>l. x = Level l"
  proof
    fix x assume "x \<in> set ?xs"
    then obtain m where m: "m \<in> set out" "x = get_level ?NL (node_id m)" by auto
    from num[OF m(1)] obtain l where "?NL (node_id m) = Some (Level l)" by blast
    then show "\<exists>l. x = Level l" using m(2) by (simp add: get_level_def)
  qed
  have ne: "?xs \<noteq> []" using n by auto
  from math_max_numbers[OF a ne] obtain mx where mx: "math_max ?xs = Level mx"
    "\<forall>k. Level k \<in> set ?xs \<longrightarrow> k \<le> mx" by blast
  from num[OF n] obtain l where l: "?NL (node_id n) = Some (Level l)" by blast
  have "get_level ?NL (node_id n) = Level l" using l by (simp add: get_level_def)
  then have "Level l \<in> set ?xs" using n by force
  then have "l \<le> mx" using mx(2) by blast
  then have "l \<in> set (levels_upto (math_max ?xs))" unfolding mx(1) by (simp del: upt_Suc)
  then show ?thesis using l by blast
qed

lemma initial_exec_run_inv: "run_inv out NL {} (initial_exec K t0)"
  by (simp add: run_inv_def initial_exec_def)

text \<open>The execution of a plan: a list of nodes with distinct ids, each after its dependencies.\<close>

lemma driver_data:
  assumes db: "deps_before {} out" and d: "distinct (map node_id out)"
  shows "run_result_ok out (assign_levels out Map.empty)
           (set (levels_upto (math_max (map (\<lambda>node. get_level (assign_levels out Map.empty) (node_id node)) out))))
           (executeTasksWithConcurrencyLimit out K t0)"
    and "fst (executeTasksWithConcurrencyLimit out K t0) = Fulfilled () \<Longrightarrow>
         node_id ` set out \<subseteq> set (ended_ids (trace (snd (executeTasksWithConcurrencyLimit out K t0))))"
    and "fst (executeTasksWithConcurrencyLimit out K t0) = RejectedWith (AbortedAt i) \<Longrightarrow>
         assign_levels out Map.empty i = Some (Level li) \<Longrightarrow> n \<in> set out \<Longrightarrow>
         assign_levels out Map.empty (node_id n) = Some (Level l) \<Longrightarrow> l \<le> li \<Longrightarrow>
         node_id n \<in> set (ended_ids (trace (snd (executeTasksWithConcurrencyLimit out K t0))))"
proof -
  let ?NL = "assign_levels out Map.empty"
  let ?ls = "levels_upto (math_max (map (\<lambda>node. get_level ?NL (node_id node)) out))"
  let ?ex0 = "initial_exec K t0"
  have run: "executeTasksWithConcurrencyLimit out K t0 = run_levels out ?NL ?ls ?ex0"
    by (simp add: executeTasksWithConcurrencyLimit_def Let_def)
  have ok: "levels_ok out ?NL" by (rule assign_levels_ok[OF db d])
  have a0: "abort_ids out (trace ?ex0) = []" by (simp add: initial_exec_idle abort_ids_def)
  have b0: "\<forall>l' \<in> {}. \<forall>l \<in> set ?ls. l' < l" by simp
  from run_levels_data[OF ok levels_upto_sorted initial_exec_run_inv
      initial_exec_idle(1)[of K t0] initial_exec_idle(2)[of K t0] b0 a0]
  have r: "run_result_ok out ?NL ({} \<union> set ?ls) (run_levels out ?NL ?ls ?ex0)"
    and f: "fst (run_levels out ?NL ?ls ?ex0) = Fulfilled () \<longrightarrow>
        (\<forall>n l. n \<in> set out \<longrightarrow> l \<in> set ?ls \<longrightarrow> ?NL (node_id n) = Some (Level l) \<longrightarrow>
           node_id n \<in> set (ended_ids (trace (snd (run_levels out ?NL ?ls ?ex0)))))"
    and g: "\<forall>i li. fst (run_levels out ?NL ?ls ?ex0) = RejectedWith (AbortedAt i) \<longrightarrow>
        ?NL i = Some (Level li) \<longrightarrow>
        (\<forall>n l. n \<in> set out \<longrightarrow> l \<in> set ?ls \<longrightarrow> l \<le> li \<longrightarrow> ?NL (node_id n) = Some (Level l) \<longrightarrow>
           node_id n \<in> set (ended_ids (trace (snd (run_levels out ?NL ?ls ?ex0)))))"
    by blast+
  show "run_result_ok out ?NL (set ?ls) (executeTasksWithConcurrencyLimit out K t0)"
    using r unfolding run by simp
  show "node_id ` set out \<subseteq> set (ended_ids (trace (snd (executeTasksWithConcurrencyLimit out K t0))))"
    if ful: "fst (executeTasksWithConcurrencyLimit out K t0) = Fulfilled ()"
  proof
    fix i assume "i \<in> node_id ` set out"
    then obtain n where n: "n \<in> set out" "i = node_id n" by blast
    from assign_levels_covered[OF db d n(1)] obtain l where
      l: "?NL (node_id n) = Some (Level l)" "l \<in> set ?ls" by blast
    from f ful n(1) l show "i \<in> set (ended_ids (trace (snd (executeTasksWithConcurrencyLimit out K t0))))"
      unfolding run n(2) by blast
  qed
  show "node_id n \<in> set (ended_ids (trace (snd (executeTasksWithConcurrencyLimit out K t0))))"
    if rej: "fst (executeTasksWithConcurrencyLimit out K t0) = RejectedWith (AbortedAt i)"
      and li: "?NL i = Some (Level li)" and n: "n \<in> set out"
      and l: "?NL (node_id n) = Some (Level l)" and le: "l \<le> li"
  proof -
    from assign_levels_covered[OF db d n] l have "l \<in> set ?ls" by simp
    with g rej li n l le show ?thesis unfolding run by blast
  qed
qed

lemma driver_event:
  assumes db: "deps_before {} out" and d: "distinct (map node_id out)"
    and e: "e \<in> set (trace (snd (executeTasksWithConcurrencyLimit out K t0)))"
  shows "\<exists>n. n \<in> set out \<and> event_ok n (store (snd (executeTasksWithConcurrencyLimit out K t0))) e"
  using driver_data(1)[OF db d, of K t0] e unfolding run_result_ok_def run_inv_def by blast

lemma driver_started:
  assumes db: "deps_before {} out" and d: "distinct (map node_id out)"
    and c: "c \<in> set out"
    and e: "Started (node_id c) args t \<in> set (trace (snd (executeTasksWithConcurrencyLimit out K t0)))"
  shows "args = map (\<lambda>p. artifact (store (snd (executeTasksWithConcurrencyLimit out K t0)) p))
                  (node_dependencies c)"
proof -
  from driver_event[OF db d e] obtain n where n: "n \<in> set out"
    "event_ok n (store (snd (executeTasksWithConcurrencyLimit out K t0))) (Started (node_id c) args t)"
    by blast
  then have "node_id c = node_id n" by simp
  then have "c = n" using d c n(1) by (meson distinct_map inj_onD)
  then show ?thesis using n(2) by simp
qed

lemma driver_ended:
  assumes db: "deps_before {} out" and d: "distinct (map node_id out)"
    and c: "c \<in> set out"
    and e: "Ended (node_id c) r t \<in> set (trace (snd (executeTasksWithConcurrencyLimit out K t0)))"
  shows "artifact (store (snd (executeTasksWithConcurrencyLimit out K t0)) (node_id c)) =
           artifact_after c r VUndefined"
proof -
  from driver_event[OF db d e] obtain n where n: "n \<in> set out"
    "event_ok n (store (snd (executeTasksWithConcurrencyLimit out K t0))) (Ended (node_id c) r t)"
    by blast
  then have "node_id c = node_id n" by simp
  then have "c = n" using d c n(1) by (meson distinct_map inj_onD)
  then show ?thesis using n(2) by simp
qed

lemma driver_verdict:
  assumes db: "deps_before {} out" and d: "distinct (map node_id out)" and K: "1 \<le> K"
  shows "fst (executeTasksWithConcurrencyLimit out K t0) =
           (case abort_ids out (trace (snd (executeTasksWithConcurrencyLimit out K t0))) of
              [] \<Rightarrow> Fulfilled () | i # rest \<Rightarrow> RejectedWith (AbortedAt i))"
  using driver_data(1)[OF db d, of K t0] driver_settles[OF K, of out t0]
  unfolding run_result_ok_def by blast

lemma driver_stops:
  assumes db: "deps_before {} out" and d: "distinct (map node_id out)"
    and r: "fst (executeTasksWithConcurrencyLimit out K t0) = RejectedWith (AbortedAt i)"
  shows "\<exists>li. assign_levels out Map.empty i = Some (Level li) \<and>
           (\<forall>e. e \<in> set (trace (snd (executeTasksWithConcurrencyLimit out K t0))) \<longrightarrow>
              (\<exists>le. assign_levels out Map.empty (event_id e) = Some (Level le) \<and> le \<le> li))"
  using driver_data(1)[OF db d, of K t0] r unfolding run_result_ok_def by blast

lemma addTask_deps:
  assumes "addTask g t = Inr g'"
  shows "deps g' k = (if k = task_id t then deps g k @ deplist t else deps g k)"
proof -
  let ?g1 = "case map_of g (task_id t) of None \<Rightarrow> g @ [(task_id t, new_GraphNode t)] | Some node \<Rightarrow> g"
  have l: "link_dependencies (task_id t) ?g1 (deplist t) = Inr g'" using assms by (simp add: addTask_eq)
  have kin: "task_id t \<in> fst ` set ?g1"
    by (cases "map_of g (task_id t)") (auto dest: map_of_Some_key)
  have sub: "set (deplist t) \<subseteq> fst ` set ?g1" using link_dependencies_keys[OF l] by simp
  from link_dependencies_ok[OF kin sub] l
  have d: "deps g' k = (if k = task_id t then deps ?g1 k @ deplist t else deps ?g1 k)" by auto
  have e1: "deps ?g1 k' = deps g k'" for k'
    by (cases "map_of g (task_id t)") (simp_all add: deps_snoc_fresh)
  show ?thesis by (simp only: d e1)
qed

lemma addTasks_deps:
  "addTasks g ts = Inr g' \<Longrightarrow> deps g' k = deps g k @ declared_parents ts k"
proof (induction ts arbitrary: g)
  case Nil
  then show ?case by (simp add: declared_parents_def)
next
  case (Cons t ts)
  from Cons.prems obtain g1 where g1: "addTask g t = Inr g1" "addTasks g1 ts = Inr g'"
    by (auto split: sum.splits)
  from Cons.IH[OF g1(2)] addTask_deps[OF g1(1), of k] show ?case
    by (simp add: declared_parents_def)
qed

lemma sorted_node_dependencies:
  assumes "addTasks [] ts = Inr g" and "topologicalSortWithPriority g = Inr sortedNodes"
    and "c \<in> set sortedNodes"
  shows "node_dependencies c = declared_parents ts (node_id c)"
proof -
  have wf: "wf_graph g" by (rule wf_graph_addTasks[OF wf_graph_empty assms(1)])
  from topologicalSort_sound[OF wf assms(2)] assms(3)
  obtain n0 where "map_of g (node_id c) = Some n0" "node_dependencies n0 = node_dependencies c"
    by blast
  then have "deps g (node_id c) = node_dependencies c" by (simp add: deps_def)
  then show ?thesis using addTasks_deps[OF assms(1), of "node_id c"] by (simp add: deps_def)
qed

lemma try_block_invoke_args:
  "try_block task args n st now = (x, st1, tevs, now1) \<Longrightarrow>
   \<forall>e \<in> set tevs. is_invoke e \<longrightarrow> (\<exists>k. e = Invoke k args)"
  by (auto simp: try_block_def Let_def split: if_splits prod.splits sum.splits)

lemma retry_loop_invokes:
  "\<forall>e \<in> set evs. is_invoke e \<longrightarrow> (\<exists>k. e = Invoke k args) \<Longrightarrow>
   \<forall>e \<in> set (events (retry_loop task args mx d st evs a now)). is_invoke e \<longrightarrow> (\<exists>k. e = Invoke k args)"
proof (induction task args mx d st evs a now rule: retry_loop.induct)
  case (1 task args mx d st evs a now)
  obtain x st1 tevs now1 where tb: "try_block task args (nat a) st now = (x, st1, tevs, now1)"
    by (cases "try_block task args (nat a) st now") auto
  have c: "\<forall>e \<in> set tevs. is_invoke e \<longrightarrow> (\<exists>k. e = Invoke k args)"
    by (rule try_block_invoke_args[OF tb])
  show ?case
  proof (cases "a \<le> mx \<and> (\<exists>e. x = Inl e \<and> has_message e) \<and> \<not> a + 1 > mx")
    case True
    then obtain e where e: "a \<le> mx" "x = Inl e" "has_message e" "\<not> a + 1 > mx" by blast
    have hm: "\<not> \<not> has_message e" using e(3) by simp
    have p: "\<forall>e \<in> set (evs @ tevs @ [Delay d]). is_invoke e \<longrightarrow> (\<exists>k. e = Invoke k args)"
      using "1.prems" c by auto
    from "1.IH"[OF e(1) tb[symmetric] e(2) refl refl refl hm e(4) p]
    show ?thesis using e by (subst retry_loop.simps) (simp add: tb Let_def)
  next
    case False
    then show ?thesis using c "1.prems"
      by (subst retry_loop.simps) (auto simp: tb Let_def split: sum.splits)
  qed
qed

lemma runner_invokes:
  "e \<in> set (events (executeTaskWithRetries task args st now)) \<Longrightarrow> is_invoke e \<Longrightarrow> \<exists>k. e = Invoke k args"
  using retry_loop_invokes[of "[]" args task] by (simp add: executeTaskWithRetries_def)

lemma ran_as_mono: "ran_as n T R \<Longrightarrow> set T \<subseteq> set T' \<Longrightarrow> ran_as n T' R"
  unfolding ran_as_def by blast

lemma link_invI:
  assumes "\<And>w. w \<in> set (tasks (semaphore ex)) \<Longrightarrow> w \<in> set out"
    and "\<And>r. r \<in> set (running ex) \<Longrightarrow> fst r \<in> set out \<and> ran_as (fst r) (trace ex) (snd r)"
    and "\<And>i r t. Ended i r t \<in> set (trace ex) \<Longrightarrow>
        \<exists>n R. n \<in> set out \<and> node_id n = i \<and> ran_as n (trace ex) R \<and> r = outcome R \<and> t = finished R"
  shows "link_inv out ex"
  unfolding link_inv_def using assms by blast

lemma link_inv_waiting: "link_inv out ex \<Longrightarrow> w \<in> set (tasks (semaphore ex)) \<Longrightarrow> w \<in> set out"
  unfolding link_inv_def by blast

lemma link_inv_running:
  "link_inv out ex \<Longrightarrow> r \<in> set (running ex) \<Longrightarrow> fst r \<in> set out \<and> ran_as (fst r) (trace ex) (snd r)"
  unfolding link_inv_def by blast

lemma link_inv_ended:
  "link_inv out ex \<Longrightarrow> Ended i r t \<in> set (trace ex) \<Longrightarrow>
   \<exists>n R. n \<in> set out \<and> node_id n = i \<and> ran_as n (trace ex) R \<and> r = outcome R \<and> t = finished R"
  unfolding link_inv_def by blast

lemma link_inv_semaphore:
  assumes "link_inv out ex" "\<And>w. w \<in> set (tasks s) \<Longrightarrow> w \<in> set out"
  shows "link_inv out (ex\<lparr>semaphore := s\<rparr>)"
proof (rule link_invI)
  fix w assume "w \<in> set (tasks (semaphore (ex\<lparr>semaphore := s\<rparr>)))"
  then show "w \<in> set out" using assms(2) by simp
next
  fix r assume "r \<in> set (running (ex\<lparr>semaphore := s\<rparr>))"
  then show "fst r \<in> set out \<and> ran_as (fst r) (trace (ex\<lparr>semaphore := s\<rparr>)) (snd r)"
    using link_inv_running[OF assms(1), of r] by simp
next
  fix i r t assume "Ended i r t \<in> set (trace (ex\<lparr>semaphore := s\<rparr>))"
  then show "\<exists>n R. n \<in> set out \<and> node_id n = i \<and> ran_as n (trace (ex\<lparr>semaphore := s\<rparr>)) R \<and>
      r = outcome R \<and> t = finished R"
    using link_inv_ended[OF assms(1), of i r t] by simp
qed

lemma link_inv_start:
  assumes inv: "link_inv out ex" and n: "n \<in> set out"
  shows "link_inv out (start_node n ex)"
proof (rule link_invI)
  let ?e = "Started (node_id n) (dependencyResults ex n) (clock ex)"
  have tr: "trace (start_node n ex) = trace ex @ [?e]" by (simp add: start_node_eq)
  have sub: "set (trace ex) \<subseteq> set (trace (start_node n ex))" unfolding tr by auto
  have new: "ran_as n (trace (start_node n ex)) (run_of ex n)"
    unfolding ran_as_def tr run_of_def by auto
  {
    fix w assume "w \<in> set (tasks (semaphore (start_node n ex)))"
    then show "w \<in> set out" using link_inv_waiting[OF inv, of w] by (simp add: start_node_eq)
  next
    fix r assume "r \<in> set (running (start_node n ex))"
    then have "r \<in> set (running ex) \<or> r = (n, run_of ex n)" by (auto simp: start_node_eq)
    then show "fst r \<in> set out \<and> ran_as (fst r) (trace (start_node n ex)) (snd r)"
    proof
      assume "r \<in> set (running ex)"
      from link_inv_running[OF inv this] show ?thesis using ran_as_mono[OF _ sub] by blast
    next
      assume "r = (n, run_of ex n)"
      then show ?thesis using n new by simp
    qed
  next
    fix i r t assume "Ended i r t \<in> set (trace (start_node n ex))"
    then have "Ended i r t \<in> set (trace ex)" unfolding tr by auto
    from link_inv_ended[OF inv this]
    show "\<exists>n' R. n' \<in> set out \<and> node_id n' = i \<and> ran_as n' (trace (start_node n ex)) R \<and>
      r = outcome R \<and> t = finished R"
      using ran_as_mono[OF _ sub] by blast
  }
qed

lemma link_inv_launch:
  assumes inv: "link_inv out ex" and n: "n \<in> set out"
  shows "link_inv out (launch n ex)"
proof (cases "counter (semaphore ex) > 0")
  case True
  have "link_inv out (ex\<lparr>semaphore := (semaphore ex)\<lparr>counter := counter (semaphore ex) - 1\<rparr>\<rparr>)"
    by (rule link_inv_semaphore[OF inv]) (use link_inv_waiting[OF inv] in simp)
  from link_inv_start[OF this n] show ?thesis using True by (simp add: launch_eq)
next
  case False
  have "link_inv out (ex\<lparr>semaphore := (semaphore ex)\<lparr>tasks := tasks (semaphore ex) @ [n]\<rparr>\<rparr>)"
    by (rule link_inv_semaphore[OF inv]) (use link_inv_waiting[OF inv] n in auto)
  then show ?thesis using False by (simp add: launch_eq)
qed

lemma link_inv_fold:
  "link_inv out ex \<Longrightarrow> set nodes \<subseteq> set out \<Longrightarrow> link_inv out (fold launch nodes ex)"
proof (induction nodes arbitrary: ex)
  case Nil
  then show ?case by simp
next
  case (Cons n nodes)
  have "link_inv out (launch n ex)" by (rule link_inv_launch[OF Cons.prems(1)]) (use Cons.prems(2) in simp)
  from Cons.IH[OF this] Cons.prems(2) show ?case by simp
qed

lemma link_inv_finish:
  assumes inv: "link_inv out ex" and run: "(node, R) \<in> set (running ex)"
    and sub: "set others \<subseteq> set (running ex)"
  shows "link_inv out (finish node R (ex\<lparr>running := others\<rparr>))"
proof (rule link_invI)
  let ?ex = "finish node R (ex\<lparr>running := others\<rparr>)"
  have tr: "trace ?ex = trace ex @ [Ended (node_id node) (outcome R) (finished R)]"
    by (simp add: finish_def)
  have subT: "set (trace ex) \<subseteq> set (trace ?ex)" unfolding tr by auto
  from link_inv_running[OF inv run] have nd: "node \<in> set out" "ran_as node (trace ex) R" by simp_all
  {
    fix w assume "w \<in> set (tasks (semaphore ?ex))"
    then show "w \<in> set out" using link_inv_waiting[OF inv, of w] by (simp add: finish_def)
  next
    fix r assume "r \<in> set (running ?ex)"
    then have "r \<in> set (running ex)" using sub by (auto simp: finish_def)
    from link_inv_running[OF inv this]
    show "fst r \<in> set out \<and> ran_as (fst r) (trace ?ex) (snd r)" using ran_as_mono[OF _ subT] by blast
  next
    fix i r t assume "Ended i r t \<in> set (trace ?ex)"
    then have "Ended i r t \<in> set (trace ex) \<or> (i = node_id node \<and> r = outcome R \<and> t = finished R)"
      unfolding tr by auto
    then show "\<exists>n R'. n \<in> set out \<and> node_id n = i \<and> ran_as n (trace ?ex) R' \<and>
        r = outcome R' \<and> t = finished R'"
    proof
      assume "Ended i r t \<in> set (trace ex)"
      from link_inv_ended[OF inv this] show ?thesis using ran_as_mono[OF _ subT] by blast
    next
      assume "i = node_id node \<and> r = outcome R \<and> t = finished R"
      then show ?thesis using nd ran_as_mono[OF nd(2) subT] by blast
    qed
  }
qed

lemma link_inv_settle:
  assumes inv: "link_inv out ex" and nxt: "next_settled (running ex) = Some ((node, R), others)"
  shows "link_inv out (settle node R (ex\<lparr>running := others\<rparr>))"
proof -
  let ?ex1 = "ex\<lparr>running := others\<rparr>"
  from next_settled_props[OF nxt] have m: "mset (running ex) = add_mset (node, R) (mset others)" by simp
  then have run: "(node, R) \<in> set (running ex)" by (metis mset_eq_setD set_mset_add_mset_insert insertI1 set_mset_mset)
  have sub: "set others \<subseteq> set (running ex)" using m by (metis mset_eq_setD set_mset_add_mset_insert set_mset_mset subset_insertI)
  have f: "link_inv out (finish node R ?ex1)" by (rule link_inv_finish[OF inv run sub])
  have ws: "\<And>w. w \<in> set (tasks (semaphore ex)) \<Longrightarrow> w \<in> set out" using link_inv_waiting[OF inv] by blast
  show ?thesis
  proof (cases "tasks (semaphore ex)")
    case Nil
    have "link_inv out ((finish node R ?ex1)\<lparr>semaphore := (semaphore ?ex1)\<lparr>counter := counter (semaphore ?ex1) + 1\<rparr>\<rparr>)"
      by (rule link_inv_semaphore[OF f]) (use ws in simp)
    then show ?thesis using Nil by (simp add: settle_eq)
  next
    case (Cons w rest)
    have "link_inv out ((finish node R ?ex1)\<lparr>semaphore := (semaphore ?ex1)\<lparr>tasks := rest\<rparr>\<rparr>)"
      by (rule link_inv_semaphore[OF f]) (use ws Cons in simp)
    from link_inv_start[OF this, of w] ws[of w] Cons show ?thesis by (simp add: settle_eq)
  qed
qed

lemma link_inv_drain: "link_inv out ex \<Longrightarrow> link_inv out (drain ex)"
proof (induction ex rule: drain.induct)
  case (1 ex)
  show ?case
  proof (cases "next_settled (running ex)")
    case None
    then show ?thesis using "1.prems" by (subst drain.simps) simp
  next
    case (Some a)
    obtain node R others where a: "a = ((node, R), others)" by (cases a) auto
    have "link_inv out (settle node R (ex\<lparr>running := others\<rparr>))"
      by (rule link_inv_settle[OF "1.prems" Some[unfolded a]])
    from "1.IH"[OF Some[unfolded a] refl refl this]
    show ?thesis using Some a by (subst drain.simps) simp
  qed
qed

lemma link_inv_run_level:
  assumes "link_inv out ex" "set nodes \<subseteq> set out"
  shows "link_inv out (run_level nodes ex)"
proof -
  have "link_inv out (ex\<lparr>rejection := None\<rparr>)"
    by (rule link_invI)
       (use link_inv_waiting[OF assms(1)] link_inv_running[OF assms(1)] link_inv_ended[OF assms(1)] in simp_all)
  from link_inv_drain[OF link_inv_fold[OF this assms(2)]] show ?thesis by (simp add: run_level_def)
qed

lemma link_inv_run_levels:
  "link_inv out ex \<Longrightarrow> link_inv out (snd (run_levels out NL ls ex))"
proof (induction ls arbitrary: ex)
  case Nil
  then show ?case by simp
next
  case (Cons l ls)
  let ?ex = "run_level (filter (\<lambda>node. NL (node_id node) = Some (Level l)) out) ex"
  have s: "link_inv out ?ex" by (rule link_inv_run_level[OF Cons.prems]) simp
  show ?case
  proof (cases "tasks (semaphore ?ex) = []")
    case False
    then show ?thesis using s by (simp add: run_levels_Cons Let_def)
  next
    case True
    show ?thesis
    proof (cases "rejection ?ex")
      case None
      then show ?thesis using True Cons.IH[OF s] by (simp add: run_levels_Cons Let_def)
    next
      case (Some e)
      then show ?thesis using True s by (simp add: run_levels_Cons Let_def)
    qed
  qed
qed

lemma driver_link: "link_inv out (snd (executeTasksWithConcurrencyLimit out K t0))"
proof -
  have "link_inv out (initial_exec K t0)"
    by (rule link_invI) (simp_all add: initial_exec_def new_Semaphore_def)
  from link_inv_run_levels[OF this] show ?thesis
    by (simp add: executeTaskWithRetries_def executeTasksWithConcurrencyLimit_def Let_def)
qed

text \<open>The outcome and the duration of a run do not depend on the fields of the task.\<close>

lemma try_block_indep:
  "fst (try_block task args n st now) = fst (try_block task args n st' now) \<and>
   snd (snd (snd (try_block task args n st now))) = snd (snd (snd (try_block task args n st' now)))"
  by (auto simp: try_block_def Let_def split: if_splits prod.splits sum.splits)

lemma retry_loop_indep:
  "outcome (retry_loop task args mx d st evs a now) = outcome (retry_loop task args mx d st' evs' a now) \<and>
   finished (retry_loop task args mx d st evs a now) = finished (retry_loop task args mx d st' evs' a now)"
proof (induction task args mx d st evs a now arbitrary: st' evs' rule: retry_loop.induct)
  case (1 task args mx d st evs a now)
  obtain x st1 tevs now1 where tb: "try_block task args (nat a) st now = (x, st1, tevs, now1)"
    by (cases "try_block task args (nat a) st now") auto
  obtain x' st1' tevs' now1' where tb': "try_block task args (nat a) st' now = (x', st1', tevs', now1')"
    by (cases "try_block task args (nat a) st' now") auto
  have same: "x' = x" "now1' = now1"
    using try_block_indep[of task args "nat a" st now st'] tb tb' by simp_all
  show ?case
  proof (cases "a \<le> mx \<and> (\<exists>e. x = Inl e \<and> has_message e) \<and> \<not> a + 1 > mx")
    case True
    then obtain e where e: "a \<le> mx" "x = Inl e" "has_message e" "\<not> a + 1 > mx" by blast
    have hm: "\<not> \<not> has_message e" using e(3) by simp
    from "1.IH"[OF e(1) tb[symmetric] e(2) refl refl refl hm e(4), of st1' "evs' @ tevs' @ [Delay d]"]
    show ?thesis using e same
      by (subst (1 3) retry_loop.simps, subst (2 4) retry_loop.simps) (simp add: tb tb' Let_def)
  next
    case False
    then show ?thesis using same
      by (subst (1 3) retry_loop.simps, subst (2 4) retry_loop.simps)
         (auto simp: tb tb' Let_def split: sum.splits)
  qed
qed

lemma runner_indep:
  "outcome (executeTaskWithRetries task args st now) = outcome (executeTaskWithRetries task args st' now)"
  "finished (executeTaskWithRetries task args st now) = finished (executeTaskWithRetries task args st' now)"
  using retry_loop_indep[of task args _ _ st "[]" 0 now st' "[]"]
  by (simp_all add: executeTaskWithRetries_def)

lemma driver_ended_outcome:
  assumes d: "distinct (map node_id out)" and c: "c \<in> set out"
    and e: "Ended (node_id c) r t \<in> set (trace (snd (executeTasksWithConcurrencyLimit out K t0)))"
  shows "\<exists>args s. Started (node_id c) args s \<in> set (trace (snd (executeTasksWithConcurrencyLimit out K t0))) \<and>
           r = outcome (executeTaskWithRetries (node_task c) args initial_state s) \<and>
           t = finished (executeTaskWithRetries (node_task c) args initial_state s)"
proof -
  let ?T = "trace (snd (executeTasksWithConcurrencyLimit out K t0))"
  from link_inv_ended[OF driver_link e] obtain n R where n: "n \<in> set out" "node_id n = node_id c"
    "ran_as n ?T R" "r = outcome R" "t = finished R" by blast
  have "n = c" using d c n(1,2) by (meson distinct_map inj_onD)
  then obtain args s st where a: "Started (node_id c) args s \<in> set ?T"
    "R = executeTaskWithRetries (node_task c) args st s" using n(3) unfolding ran_as_def by blast
  have "r = outcome (executeTaskWithRetries (node_task c) args initial_state s)"
    "t = finished (executeTaskWithRetries (node_task c) args initial_state s)"
    using n(4,5) a(2) runner_indep[of "node_task c" args st s initial_state] by simp_all
  then show ?thesis using a(1) by blast
qed

section \<open>The examples, evaluated\<close>

lemmas build_simps = addTask_def update_node_def new_GraphNode_def Let_def
  topologicalSortWithPriority_def sort_loop.simps sort_queue_def priority_of_def

lemmas run_simps = executeTasksWithConcurrencyLimit_def get_level_def initial_exec_def
  new_Semaphore_def run_level_def launch_def acquire_def release_def start_node_def settle_def
  dependencyResults_def drain.simps executeTaskWithRetries_def retry_loop.simps
  try_block_def log_args_throws_def log_throws_def delay_def timeout_def
  initial_state_def Let_def

lemma task_ids [simp]: "task_id task_A = ''A''" "task_id task_B = ''B''" "task_id task_C = ''C''"
  "dependencies task_A = Some []" "dependencies task_B = Some [''A'']"
  "dependencies task_C = Some [''B'']" "priority task_A = None" "priority task_B = None"
  "priority task_C = None"
  by (simp_all add: task_A_def task_B_def task_C_def simple_task_def)

lemma chain_addTasks: "addTasks [] chain = Inr chain_graph"
  by (simp add: chain_def chain_graph_def build_simps)

lemma chain_sort: "topologicalSortWithPriority chain_graph = Inr chain_sorted"
  by (simp add: chain_graph_def chain_sorted_def build_simps)

lemma chain_run:
  "executeTasksWithConcurrencyLimit chain_sorted 2 1000 =
     (Fulfilled (),
      \<lparr>clock = 1012,
       store = (\<lambda>i. initial_state)
         (''A'' := \<lparr>artifact = VStr ''a'',
                    metrics = Some \<lparr>startTime = 1000, endTime = 1003, duration = 3\<rparr>,
                    status = Some Success\<rparr>,
          ''B'' := \<lparr>artifact = VStr ''ab'',
                    metrics = Some \<lparr>startTime = 1003, endTime = 1007, duration = 4\<rparr>,
                    status = Some Success\<rparr>,
          ''C'' := \<lparr>artifact = VStr ''abc'',
                    metrics = Some \<lparr>startTime = 1007, endTime = 1012, duration = 5\<rparr>,
                    status = Some Success\<rparr>),
       semaphore = \<lparr>tasks = [], counter = 2\<rparr>,
       running = [],
       trace = [Started ''A'' [] 1000, Ended ''A'' (Inr (VStr ''a'')) 1003,
                Started ''B'' [VStr ''a''] 1003, Ended ''B'' (Inr (VStr ''ab'')) 1007,
                Started ''C'' [VStr ''ab''] 1007, Ended ''C'' (Inr (VStr ''abc'')) 1012],
       rejection = None\<rparr>)"
  by (simp add: chain_sorted_def task_A_def task_B_def task_C_def simple_task_def run_simps)

section \<open>More examples, evaluated\<close>

lemma join_ids [simp]: "task_id task_X = ''X''" "task_id task_Y = ''Y''" "task_id task_J = ''J''"
  "dependencies task_X = Some []" "dependencies task_Y = Some []"
  "dependencies task_J = Some [''Y'', ''X'']" "priority task_X = None" "priority task_Y = None"
  "priority task_J = None"
  by (simp_all add: task_X_def task_Y_def task_J_def simple_task_def)

lemma join_addTasks: "addTasks [] join_seq = Inr join_graph"
  by (simp add: join_seq_def join_graph_def build_simps)

lemma join_sort: "topologicalSortWithPriority join_graph = Inr join_sorted"
  by (simp add: join_graph_def join_sorted_def node_J_def build_simps)

lemma join_run:
  "fst (executeTasksWithConcurrencyLimit join_sorted 2 1000) = Fulfilled () \<and>
   trace (snd (executeTasksWithConcurrencyLimit join_sorted 2 1000)) =
     [Started ''X'' [] 1000, Started ''Y'' [] 1000, Ended ''Y'' (Inr (VStr ''y'')) 1002,
      Ended ''X'' (Inr (VStr ''x'')) 1003, Started ''J'' [VStr ''y'', VStr ''x''] 1003,
      Ended ''J'' (Inr (VStr ''yx'')) 1004] \<and>
   map (\<lambda>i. artifact (store (snd (executeTasksWithConcurrencyLimit join_sorted 2 1000)) i))
     [''X'', ''Y'', ''J''] = [VStr ''x'', VStr ''y'', VStr ''yx'']"
  by (simp add: join_sorted_def node_J_def task_X_def task_Y_def task_J_def simple_task_def run_simps)

lemma fail_ids [simp]: "task_id (failing pol) = ''F''" "task_id task_G = ''G''"
  "dependencies (failing pol) = None" "dependencies task_G = Some [''F'']"
  "priority (failing pol) = None" "priority task_G = None"
  by (simp_all add: failing_def task_G_def simple_task_def)

lemma fail_addTasks: "addTasks [] (fail_seq pol) = Inr (fail_graph pol)"
  by (simp add: fail_seq_def fail_graph_def node_F_def node_G_def build_simps)

lemma fail_sort: "topologicalSortWithPriority (fail_graph pol) = Inr (fail_sorted pol)"
  by (simp add: fail_graph_def fail_sorted_def node_F_def node_G_def build_simps)

lemma abort_run:
  "fst (executeTasksWithConcurrencyLimit (fail_sorted (Some Abort)) 2 1000) =
     RejectedWith (AbortedAt ''F'') \<and>
   trace (snd (executeTasksWithConcurrencyLimit (fail_sorted (Some Abort)) 2 1000)) =
     [Started ''F'' [] 1000, Ended ''F'' (Inl (Thrown ''boom'')) 1005]"
  by (simp add: fail_sorted_def node_F_def node_G_def failing_def task_G_def simple_task_def run_simps)

lemma continue_run:
  "fst (executeTasksWithConcurrencyLimit (fail_sorted (Some Continue)) 2 1000) = Fulfilled () \<and>
   trace (snd (executeTasksWithConcurrencyLimit (fail_sorted (Some Continue)) 2 1000)) =
     [Started ''F'' [] 1000, Ended ''F'' (Inl (Thrown ''boom'')) 1005,
      Started ''G'' [VNull] 1005, Ended ''G'' (Inr (VStr ''g'')) 1009] \<and>
   map (\<lambda>i. artifact (store (snd (executeTasksWithConcurrencyLimit (fail_sorted (Some Continue)) 2 1000)) i))
     [''F'', ''G''] = [VNull, VStr ''g'']"
  by (simp add: fail_sorted_def node_F_def node_G_def failing_def task_G_def simple_task_def run_simps)

section \<open>Bounded concurrency\<close>

lemma roots_addTasks: "addTasks [] three_roots = Inr roots_graph"
  by (simp add: three_roots_def roots_graph_def root_node_def root_task_def build_simps)

lemma roots_sort: "topologicalSortWithPriority roots_graph = Inr roots_sorted"
  by (simp add: roots_graph_def roots_sorted_def root_node_def root_task_def build_simps)

lemma roots_serial:
  "fst (executeTasksWithConcurrencyLimit roots_sorted 1 1000) = Fulfilled () \<and>
   trace (snd (executeTasksWithConcurrencyLimit roots_sorted 1 1000)) =
     [Started ''B'' [] 1000, Ended ''B'' (Inr (VStr ''b'')) 1009,
      Started ''C'' [] 1009, Ended ''C'' (Inr (VStr ''c'')) 1014,
      Started ''A'' [] 1014, Ended ''A'' (Inr (VStr ''a'')) 1017]"
  by (simp add: roots_sorted_def root_node_def root_task_def run_simps)

lemma roots_two:
  "fst (executeTasksWithConcurrencyLimit roots_sorted 2 1000) = Fulfilled () \<and>
   trace (snd (executeTasksWithConcurrencyLimit roots_sorted 2 1000)) =
     [Started ''B'' [] 1000, Started ''C'' [] 1000, Ended ''C'' (Inr (VStr ''c'')) 1005,
      Started ''A'' [] 1005, Ended ''A'' (Inr (VStr ''a'')) 1008,
      Ended ''B'' (Inr (VStr ''b'')) 1009]"
  by (simp add: roots_sorted_def root_node_def root_task_def run_simps)

lemma build_trace:
  "addTasks [] ts = Inr g \<Longrightarrow> topologicalSortWithPriority g = Inr sortedNodes \<Longrightarrow>
   fst (executeTasksWithConcurrencyLimit sortedNodes
          (case maxConcurrency config of None \<Rightarrow> 2 | Some k \<Rightarrow> k) now) \<noteq> NeverSettles \<Longrightarrow>
   trace_of (build config ts now) =
     Some (trace (snd (executeTasksWithConcurrencyLimit sortedNodes
          (case maxConcurrency config of None \<Rightarrow> 2 | Some k \<Rightarrow> k) now)))"
  by (cases "executeTasksWithConcurrencyLimit sortedNodes
          (case maxConcurrency config of None \<Rightarrow> 2 | Some k \<Rightarrow> k) now")
     (auto simp: build_def build_on_def trace_of_def split: promise.splits)

text \<open>
  Claim C10. A configuration without \<^verbatim>\<open>maxConcurrency\<close> builds and runs as one with
  \<^verbatim>\<open>maxConcurrency = 2\<close>; with that capacity the driver never has more than two launches in
  flight, whatever the nodes; and the three independent roots run two at a time: the first
  two start together and the third starts when one of them has ended.
\<close>

theorem default_concurrency_is_two:
  "build \<lparr>verbose = v, maxConcurrency = None\<rparr> ts now =
     build \<lparr>verbose = v, maxConcurrency = Some 2\<rparr> ts now \<and>
   bounded 2 (trace (snd (executeTasksWithConcurrencyLimit sortedNodes 2 now))) \<and>
   trace_of (build \<lparr>verbose = v, maxConcurrency = None\<rparr> three_roots 1000) =
     Some [Started ''B'' [] 1000, Started ''C'' [] 1000, Ended ''C'' (Inr (VStr ''c'')) 1005,
           Started ''A'' [] 1005, Ended ''A'' (Inr (VStr ''a'')) 1008,
           Ended ''B'' (Inr (VStr ''b'')) 1009]"
proof -
  have a: "build \<lparr>verbose = v, maxConcurrency = None\<rparr> ts now =
     build \<lparr>verbose = v, maxConcurrency = Some 2\<rparr> ts now"
    by (simp add: build_def build_on_def split: sum.splits)
  have b: "bounded 2 (trace (snd (executeTasksWithConcurrencyLimit sortedNodes 2 now)))"
    by (rule driver_bounded) simp
  have c: "trace_of (build \<lparr>verbose = v, maxConcurrency = None\<rparr> three_roots 1000) =
     Some (trace (snd (executeTasksWithConcurrencyLimit roots_sorted 2 1000)))"
    using build_trace[OF roots_addTasks roots_sort, of "\<lparr>verbose = v, maxConcurrency = None\<rparr>" 1000]
      roots_two by simp
  show ?thesis using a b c roots_two by simp
qed

theorem default_concurrency_is_two_witness:
  "in_flight (take 2 (trace (snd (executeTasksWithConcurrencyLimit roots_sorted 2 1000)))) = 2 \<and>
   in_flight (take 4 (trace (snd (executeTasksWithConcurrencyLimit roots_sorted 2 1000)))) \<le> 2 \<and>
   trace_of (build \<lparr>verbose = None, maxConcurrency = None\<rparr> three_roots 1000) =
     trace_of (build \<lparr>verbose = None, maxConcurrency = Some 2\<rparr> three_roots 1000)"
proof -
  from default_concurrency_is_two[of None three_roots 1000 roots_sorted]
  have b: "bounded 2 (trace (snd (executeTasksWithConcurrencyLimit roots_sorted 2 1000)))"
    and e: "build \<lparr>verbose = None, maxConcurrency = None\<rparr> three_roots 1000 =
       build \<lparr>verbose = None, maxConcurrency = Some 2\<rparr> three_roots 1000" by simp_all
  from b have "in_flight (take 4 (trace (snd (executeTasksWithConcurrencyLimit roots_sorted 2 1000)))) \<le> 2"
    unfolding bounded_def by (simp add: roots_two)
  then show ?thesis using e by (simp add: roots_two)
qed

text \<open>
  Claim C9. With a capacity \<open>K \<ge> 1\<close>, in every reachable state of the semaphore at most \<open>K\<close>
  permits are held, the counter is \<open>K\<close> minus the number of permits held, and the waiters
  admitted so far followed by the waiters still queued are the waiters in their order of
  arrival (first in, first out). \<open>release\<close> with a waiter queued resolves the longest-waiting
  one and leaves the counter at zero: the permit goes to that waiter and is never free in
  between. In the driver, no prefix of the trace has more than \<open>K\<close> launches started and not
  ended: at every instant at most \<open>K\<close> runners are running.
\<close>

theorem semaphore_bound_fifo:
  assumes "1 \<le> K" "reachable K sys"
  shows "int (length (holders sys)) \<le> K \<and>
         counter (sem sys) = K - int (length (holders sys)) \<and>
         queued sys = admitted sys @ tasks (sem sys) \<and>
         (case tasks (sem sys) of
            [] \<Rightarrow> release (sem sys) = (None, (sem sys)\<lparr>counter := counter (sem sys) + 1\<rparr>)
          | w # rest \<Rightarrow> counter (sem sys) = 0 \<and> release (sem sys) = (Some w, (sem sys)\<lparr>tasks := rest\<rparr>)) \<and>
         bounded K (trace (snd (executeTasksWithConcurrencyLimit sortedNodes K t0)))"
proof -
  have "sem_inv K sys" using reachable_inv[OF assms(2)] assms(1) by simp
  then have "int (length (holders sys)) \<le> K \<and>
         counter (sem sys) = K - int (length (holders sys)) \<and>
         queued sys = admitted sys @ tasks (sem sys) \<and>
         (case tasks (sem sys) of
            [] \<Rightarrow> release (sem sys) = (None, (sem sys)\<lparr>counter := counter (sem sys) + 1\<rparr>)
          | w # rest \<Rightarrow> counter (sem sys) = 0 \<and> release (sem sys) = (Some w, (sem sys)\<lparr>tasks := rest\<rparr>))"
    by (cases "sem sys") (auto simp: sem_inv_def release_def Let_def split: list.splits)
  moreover have "bounded K (trace (snd (executeTasksWithConcurrencyLimit sortedNodes K t0)))"
    by (rule driver_bounded) (use assms(1) in simp)
  ultimately show ?thesis by blast
qed

lemma three_clients_eq: "three_clients =
   \<lparr>sem = \<lparr>tasks = [''c''], counter = 0\<rparr>, holders = [''b''], queued = [''b'', ''c''], admitted = [''b'']\<rparr>"
  by (simp add: three_clients_def do_release_def do_acquire_def acquire_def release_def sem_init_def new_Semaphore_def)

lemma three_clients_reachable: "reachable 1 three_clients"
  unfolding three_clients_def
  apply (rule reachable.rel)
   apply (rule reachable.acq)
     apply (rule reachable.acq)
       apply (rule reachable.acq)
         apply (rule reachable.init)
  by (simp_all add: do_acquire_def acquire_def sem_init_def new_Semaphore_def)

theorem semaphore_bound_fifo_witness:
  "reachable 1 three_clients \<and> holders three_clients = [''b''] \<and>
   int (length (holders three_clients)) \<le> 1 \<and>
   queued three_clients = [''b'', ''c''] \<and> admitted three_clients = [''b''] \<and>
   release (sem three_clients) = (Some ''c'', \<lparr>tasks = [], counter = 0\<rparr>) \<and>
   in_flight (take 1 (trace (snd (executeTasksWithConcurrencyLimit roots_sorted 1 1000)))) = 1 \<and>
   in_flight (take 3 (trace (snd (executeTasksWithConcurrencyLimit roots_sorted 1 1000)))) \<le> 1"
proof -
  from semaphore_bound_fifo[of 1 three_clients roots_sorted 1000] three_clients_reachable
  have a: "int (length (holders three_clients)) \<le> 1"
    and b: "bounded 1 (trace (snd (executeTasksWithConcurrencyLimit roots_sorted 1 1000)))"
    by simp_all
  from b have "in_flight (take 3 (trace (snd (executeTasksWithConcurrencyLimit roots_sorted 1 1000)))) \<le> 1"
    unfolding bounded_def by (simp add: roots_serial)
  then show ?thesis using a three_clients_reachable
    by (simp add: three_clients_eq roots_serial release_def)
qed

section \<open>Ordering of the execution\<close>

text \<open>
  Claim C1. In the graph built from the descriptors, for every edge \<open>p \<rightarrow> c\<close>: the driver gives
  \<open>c\<close> a strictly larger level than \<open>p\<close>, and wherever the trace of the execution has the start
  of \<open>c\<close> (its launch has its permit and enters the runner, at time \<open>t\<close>), the end of \<open>p\<close> (its
  runner has settled after its last attempt) stands earlier in the trace, at a time no later
  than \<open>t\<close>. This holds for every capacity of the semaphore and every starting time.
\<close>

theorem driver_respects_edges:
  assumes "addTasks [] ts = Inr g" and "topologicalSortWithPriority g = Inr sortedNodes"
    and "c \<in> set sortedNodes" and "p \<in> set (node_dependencies c)"
  shows "(\<exists>lp lc. assign_levels sortedNodes Map.empty p = Some (Level lp) \<and>
            assign_levels sortedNodes Map.empty (node_id c) = Some (Level lc) \<and> lp < lc) \<and>
         (\<forall>j args t.
            j < length (trace (snd (executeTasksWithConcurrencyLimit sortedNodes K t0))) \<longrightarrow>
            trace (snd (executeTasksWithConcurrencyLimit sortedNodes K t0)) ! j =
              Started (node_id c) args t \<longrightarrow>
            ends_before (trace (snd (executeTasksWithConcurrencyLimit sortedNodes K t0))) p j t)"
proof -
  have wf: "wf_graph g" by (rule wf_graph_addTasks[OF wf_graph_empty assms(1)])
  from topologicalSort_sound[OF wf assms(2)]
  have d: "distinct (map node_id sortedNodes)" and db: "deps_before {} sortedNodes" by simp_all
  show ?thesis
    using assign_levels_edges[OF db d assms(3,4)] driver_order[OF db d assms(3,4)] by blast
qed

theorem driver_respects_edges_witness:
  "addTasks [] chain = Inr chain_graph \<and>
   topologicalSortWithPriority chain_graph = Inr chain_sorted \<and>
   chain_sorted ! 2 \<in> set chain_sorted \<and>
   ''B'' \<in> set (node_dependencies (chain_sorted ! 2)) \<and>
   trace (snd (executeTasksWithConcurrencyLimit chain_sorted 2 1000)) ! 4 =
     Started ''C'' [VStr ''ab''] 1007 \<and>
   trace (snd (executeTasksWithConcurrencyLimit chain_sorted 2 1000)) ! 3 =
     Ended ''B'' (Inr (VStr ''ab'')) 1007 \<and>
   ends_before (trace (snd (executeTasksWithConcurrencyLimit chain_sorted 2 1000))) ''B'' 4 1007"
proof -
  have c: "chain_sorted ! 2 \<in> set chain_sorted" and p: "''B'' \<in> set (node_dependencies (chain_sorted ! 2))"
    and i: "node_id (chain_sorted ! 2) = ''C''"
    by (simp_all add: chain_sorted_def)
  have tr: "trace (snd (executeTasksWithConcurrencyLimit chain_sorted 2 1000)) =
     [Started ''A'' [] 1000, Ended ''A'' (Inr (VStr ''a'')) 1003,
      Started ''B'' [VStr ''a''] 1003, Ended ''B'' (Inr (VStr ''ab'')) 1007,
      Started ''C'' [VStr ''ab''] 1007, Ended ''C'' (Inr (VStr ''abc'')) 1012]"
    by (simp add: chain_run)
  from driver_respects_edges[OF chain_addTasks chain_sort c p, of 2 1000]
  have "ends_before (trace (snd (executeTasksWithConcurrencyLimit chain_sorted 2 1000))) ''B'' 4 1007"
    unfolding i tr by simp
  then show ?thesis using chain_addTasks chain_sort c p by (simp add: tr)
qed

section \<open>What the builder accepts\<close>

lemma addTasks_append:
  "addTasks g (xs @ ys) = (case addTasks g xs of Inl e \<Rightarrow> Inl e | Inr g' \<Rightarrow> addTasks g' ys)"
  by (induction xs arbitrary: g) (auto split: sum.splits)

lemma addTasks_not_added_before:
  assumes i: "i < length ts" and d: "d \<in> set (deplist (ts ! i))"
    and nb: "d \<notin> set (take (Suc i) (map task_id ts))"
  shows "\<exists>t' \<in> set ts. \<exists>d' \<in> set (deplist t'). addTasks [] ts = Inl (DependencyNotFound d' (task_id t'))"
proof (cases "addTasks [] ts")
  case (Inl e)
  then show ?thesis using addTasks_error[OF Inl] by auto
next
  case (Inr g)
  have "addTasks [] (take (Suc i) ts @ drop (Suc i) ts) = Inr g" using Inr by simp
  then obtain g1 where g1: "addTasks [] (take (Suc i) ts) = Inr g1"
    unfolding addTasks_append by (cases "addTasks [] (take (Suc i) ts)") auto
  from addTasks_keys[OF g1]
  have k: "set (map fst g1) = set (map fst ([]::Graph)) \<union> task_id ` set (take (Suc i) ts)"
    and dd: "\<forall>t \<in> set (take (Suc i) ts). set (deplist t) \<subseteq> set (map fst g1)" by blast+
  have "ts ! i \<in> set (take (Suc i) ts)" using i by (simp add: take_Suc_conv_app_nth)
  then have "d \<in> set (map fst g1)" using dd d by blast
  then have "d \<in> task_id ` set (take (Suc i) ts)" unfolding k by simp
  then have "d \<in> set (take (Suc i) (map task_id ts))" by (simp add: take_map)
  then show ?thesis using nb by simp
qed

lemma build_rejects_iff:
  "build config ts now = RejectedWith e \<longleftrightarrow>
     addTasks [] ts = Inl e \<or> (\<exists>g. addTasks [] ts = Inr g \<and> topologicalSortWithPriority g = Inl e)"
  by (auto simp: build_def build_on_def Let_def split: sum.splits promise.splits prod.splits)

text \<open>
  Claim C5 as stated fails: the builder does not accept descriptors in any order. \<open>task_B\<close>
  names \<open>task_A\<close> as its parent; added before \<open>task_A\<close>, it fails the build, although its parent
  is in the list and the graph has no cycle; in the other order the build goes through.
\<close>

theorem build_order_counterexample:
  "deplist task_B = [''A''] \<and> task_id task_A = ''A'' \<and> deplist task_A = [] \<and>
   build \<lparr>verbose = None, maxConcurrency = None\<rparr> [task_B, task_A] 1000 =
     RejectedWith (DependencyNotFound ''A'' ''B'') \<and>
   trace_of (build \<lparr>verbose = None, maxConcurrency = None\<rparr> [task_A, task_B] 1000) =
     Some [Started ''A'' [] 1000, Ended ''A'' (Inr (VStr ''a'')) 1003,
           Started ''B'' [VStr ''a''] 1003, Ended ''B'' (Inr (VStr ''ab'')) 1007]"
  by (simp add: deplist_def task_A_def task_B_def simple_task_def build_def build_on_def trace_of_def
        build_simps run_simps)

text \<open>
  Claim C5, as the source has it. A list of descriptors with distinct ids in which every
  parent is the id of a descriptor added earlier builds: the graph and the plan are made,
  and \<^verbatim>\<open>build()\<close> does not reject. A parent that is not the id of a descriptor added before
  (or of the descriptor itself), and so in particular an id that no descriptor has, makes
  \<^verbatim>\<open>addTask\<close> throw "Dependency not found": \<^verbatim>\<open>build()\<close> rejects with that error, and nothing
  has been executed.
\<close>

theorem build_accepts_dependency_order:
  "(tasks_in_order ts \<longrightarrow>
      (\<exists>g sortedNodes. addTasks [] ts = Inr g \<and> map fst g = map task_id ts \<and>
          topologicalSortWithPriority g = Inr sortedNodes \<and>
          (\<forall>e. build config ts now \<noteq> RejectedWith e))) \<and>
   (\<forall>i d. i < length ts \<longrightarrow> d \<in> set (deplist (ts ! i)) \<longrightarrow>
      d \<notin> set (take (Suc i) (map task_id ts)) \<longrightarrow>
      (\<exists>d' c. build config ts now = RejectedWith (DependencyNotFound d' c))) \<and>
   (\<forall>t d. t \<in> set ts \<longrightarrow> d \<in> set (deplist t) \<longrightarrow> d \<notin> task_id ` set ts \<longrightarrow>
      (\<exists>d' c. build config ts now = RejectedWith (DependencyNotFound d' c)))"
proof (intro conjI allI impI)
  assume "tasks_in_order ts"
  then obtain g where g: "addTasks [] ts = Inr g" "wf_graph g" "forward g" "map fst g = map task_id ts"
    using addTasks_in_order by blast
  obtain out where out: "topologicalSortWithPriority g = Inr out"
    using topologicalSort_complete[OF g(2,3)] by blast
  have "\<forall>e. build config ts now \<noteq> RejectedWith e"
    using g(1) out by (simp add: build_rejects_iff)
  then show "\<exists>g sortedNodes. addTasks [] ts = Inr g \<and> map fst g = map task_id ts \<and>
          topologicalSortWithPriority g = Inr sortedNodes \<and>
          (\<forall>e. build config ts now \<noteq> RejectedWith e)"
    using g(1,4) out by blast
next
  fix i d assume "i < length ts" "d \<in> set (deplist (ts ! i))"
    "d \<notin> set (take (Suc i) (map task_id ts))"
  from addTasks_not_added_before[OF this]
  show "\<exists>d' c. build config ts now = RejectedWith (DependencyNotFound d' c)"
    by (auto simp: build_rejects_iff)
next
  fix t d assume "t \<in> set ts" "d \<in> set (deplist t)" "d \<notin> task_id ` set ts"
  from addTasks_unknown[OF this]
  show "\<exists>d' c. build config ts now = RejectedWith (DependencyNotFound d' c)"
    by (auto simp: build_rejects_iff)
qed

theorem build_accepts_dependency_order_witness:
  "tasks_in_order chain \<and>
   addTasks [] chain = Inr chain_graph \<and> map fst chain_graph = map task_id chain \<and>
   topologicalSortWithPriority chain_graph = Inr chain_sorted \<and>
   build \<lparr>verbose = None, maxConcurrency = None\<rparr> chain 1000 \<noteq> RejectedWith CycleDetected \<and>
   ''A'' \<in> set (deplist ([task_B, task_A] ! 0)) \<and>
   ''A'' \<notin> set (take (Suc 0) (map task_id [task_B, task_A])) \<and>
   build \<lparr>verbose = None, maxConcurrency = None\<rparr> [task_B, task_A] 1000 =
     RejectedWith (DependencyNotFound ''A'' ''B'') \<and>
   ''Z'' \<in> set (deplist (simple_task ''Y'' [''Z''] (\<lambda>n args. (Inr VNull, 0)))) \<and>
   (\<exists>d' c. build \<lparr>verbose = None, maxConcurrency = None\<rparr>
              [simple_task ''Y'' [''Z''] (\<lambda>n args. (Inr VNull, 0))] 1000 =
            RejectedWith (DependencyNotFound d' c))"
proof -
  have ord: "tasks_in_order chain"
    by (auto simp: tasks_in_order_def chain_def deplist_def less_Suc_eq)
  have dB: "''A'' \<in> set (deplist ([task_B, task_A] ! 0))" by (simp add: deplist_def)
  have nB: "''A'' \<notin> set (take (Suc 0) (map task_id [task_B, task_A]))" by simp
  have dY: "''Z'' \<in> set (deplist (simple_task ''Y'' [''Z''] (\<lambda>n args. (Inr VNull, 0))))"
    by (simp add: deplist_def simple_task_def)
  have nY: "''Z'' \<notin> task_id ` set [simple_task ''Y'' [''Z''] (\<lambda>n args. (Inr VNull, 0))]"
    by (simp add: simple_task_def)
  note thm1 = build_accepts_dependency_order[of chain "\<lparr>verbose = None, maxConcurrency = None\<rparr>" 1000]
  note thm2 = build_accepts_dependency_order[of "[task_B, task_A]" "\<lparr>verbose = None, maxConcurrency = None\<rparr>" 1000]
  note thm3 = build_accepts_dependency_order[of "[simple_task ''Y'' [''Z''] (\<lambda>n args. (Inr VNull, 0))]"
      "\<lparr>verbose = None, maxConcurrency = None\<rparr>" 1000]
  from thm1 ord have a: "build \<lparr>verbose = None, maxConcurrency = None\<rparr> chain 1000 \<noteq> RejectedWith CycleDetected"
    by blast
  from thm2 dB nB have "\<exists>d' c. build \<lparr>verbose = None, maxConcurrency = None\<rparr> [task_B, task_A] 1000 =
     RejectedWith (DependencyNotFound d' c)" by (metis length_Cons zero_less_Suc)
  moreover have "build \<lparr>verbose = None, maxConcurrency = None\<rparr> [task_B, task_A] 1000 =
     RejectedWith (DependencyNotFound ''A'' ''B'')"
    by (simp add: build_def build_on_def build_simps)
  moreover from thm3 dY nY have "\<exists>d' c. build \<lparr>verbose = None, maxConcurrency = None\<rparr>
              [simple_task ''Y'' [''Z''] (\<lambda>n args. (Inr VNull, 0))] 1000 =
            RejectedWith (DependencyNotFound d' c)"
    by (metis list.set_intros(1))
  ultimately show ?thesis
    using ord a dB nB dY chain_addTasks chain_sort
    by (simp add: chain_graph_def chain_def)
qed

lemma link_one_node_task:
  "map_option node_task (map_of (link_one nid depId g) k) = map_option node_task (map_of g k)"
  by (cases "map_of g k") (auto simp: link_one_def map_of_update_node)

lemma link_dependencies_node_task:
  "link_dependencies nid g ds = Inr g' \<Longrightarrow>
   map_option node_task (map_of g' k) = map_option node_task (map_of g k)"
proof (induction ds arbitrary: g)
  case Nil
  then show ?case by simp
next
  case (Cons d ds)
  from Cons.prems obtain dn where "map_of g d = Some dn"
    and rest: "link_dependencies nid (link_one nid d g) ds = Inr g'"
    by (cases "map_of g d") (auto simp: link_dependencies_Cons simp del: link_dependencies.simps)
  from Cons.IH[OF rest] show ?case by (simp add: link_one_node_task)
qed

text \<open>
  Claim C6 as stated fails: two descriptors with the same id do not fail the build. The
  second descriptor finds the node of the first; the run executes the action of the first
  descriptor once and \<^verbatim>\<open>build()\<close> is fulfilled.
\<close>

theorem duplicate_id_counterexample:
  "task_id first_A = task_id second_A \<and>
   build \<lparr>verbose = None, maxConcurrency = None\<rparr> [first_A, second_A] 1000 \<noteq>
     RejectedWith CycleDetected \<and>
   trace_of (build \<lparr>verbose = None, maxConcurrency = None\<rparr> [first_A, second_A] 1000) =
     Some [Started ''A'' [] 1000, Ended ''A'' (Inr (VStr ''first'')) 1003]"
  by (simp add: first_A_def second_A_def simple_task_def build_def build_on_def trace_of_def
        build_simps run_simps)

text \<open>
  Claim C6, as the source has it. A descriptor whose id is already in the graph is not an
  error: \<^verbatim>\<open>addTask\<close> creates no node for it and links its dependencies to the node that is
  there. When that succeeds, the graph has the same nodes in the same order, and the node
  keeps the task of the first descriptor (so the later descriptor's action is never run) and
  has the later descriptor's dependencies appended to its own. \<^verbatim>\<open>build()\<close> rejects only with
  "Dependency not found" or with the cycle error of the sort.
\<close>

theorem duplicate_id_merges:
  assumes "map_of g (task_id t) = Some n"
  shows "addTask g t = link_dependencies (task_id t) g (deplist t) \<and>
         (\<forall>g'. addTask g t = Inr g' \<longrightarrow>
            map fst g' = map fst g \<and>
            (\<exists>n'. map_of g' (task_id t) = Some n' \<and> node_task n' = node_task n \<and>
                   node_dependencies n' = node_dependencies n @ deplist t)) \<and>
         (\<forall>config ts now e. build config ts now = RejectedWith e \<longrightarrow>
            (\<exists>d c. e = DependencyNotFound d c) \<or> e = CycleDetected)"
proof -
  have eq: "addTask g t = link_dependencies (task_id t) g (deplist t)"
    using assms by (simp add: addTask_eq)
  have merged: "map fst g' = map fst g \<and>
            (\<exists>n'. map_of g' (task_id t) = Some n' \<and> node_task n' = node_task n \<and>
                   node_dependencies n' = node_dependencies n @ deplist t)"
    if "addTask g t = Inr g'" for g'
  proof -
    have l: "link_dependencies (task_id t) g (deplist t) = Inr g'" using that eq by simp
    have kin: "task_id t \<in> fst ` set g" using assms by (rule map_of_Some_key)
    from link_dependencies_keys[OF l] have keys: "map fst g' = map fst g"
      and sub: "set (deplist t) \<subseteq> fst ` set g" by simp_all
    from link_dependencies_ok[OF kin sub] l
    have d: "deps g' (task_id t) = deps g (task_id t) @ deplist t" by auto
    have "task_id t \<in> fst ` set g'" using kin keys by (metis set_map)
    then obtain n' where n': "map_of g' (task_id t) = Some n'"
      by (metis map_of_None_iff not_Some_eq)
    have "node_task n' = node_task n"
      using link_dependencies_node_task[OF l, of "task_id t"] n' assms by simp
    moreover have "node_dependencies n' = node_dependencies n @ deplist t"
      using d n' assms by (simp add: deps_def)
    ultimately show ?thesis using keys n' by blast
  qed
  have errs: "(\<exists>d c. e = DependencyNotFound d c) \<or> e = CycleDetected"
    if "build config ts now = RejectedWith e" for config ts now e
    using that addTasks_error[of "[]" ts e]
    by (auto simp: build_rejects_iff topologicalSortWithPriority_def Let_def split: if_splits)
  show ?thesis using eq merged errs by blast
qed

theorem duplicate_id_merges_witness:
  "map_of [(''A'', new_GraphNode first_A)] (task_id second_A) = Some (new_GraphNode first_A) \<and>
   addTask [(''A'', new_GraphNode first_A)] second_A = Inr [(''A'', new_GraphNode first_A)] \<and>
   addTasks [] [first_A, second_A] = Inr [(''A'', new_GraphNode first_A)] \<and>
   node_task (new_GraphNode first_A) = first_A"
proof -
  have m: "map_of [(''A'', new_GraphNode first_A)] (task_id second_A) = Some (new_GraphNode first_A)"
    by (simp add: second_A_def simple_task_def)
  from duplicate_id_merges[OF m]
  have "addTask [(''A'', new_GraphNode first_A)] second_A =
      link_dependencies (task_id second_A) [(''A'', new_GraphNode first_A)] (deplist second_A)"
    by blast
  then have a: "addTask [(''A'', new_GraphNode first_A)] second_A = Inr [(''A'', new_GraphNode first_A)]"
    by (simp add: deplist_def second_A_def simple_task_def)
  have "addTask [] first_A = Inr [(''A'', new_GraphNode first_A)]"
    by (simp add: addTask_def first_A_def simple_task_def)
  then show ?thesis using m a by (simp add: new_GraphNode_def)
qed

section \<open>The planner refines its specification\<close>

lemma extract_best_is_best:
  "extract_best pool = Some (n, others) \<Longrightarrow> is_best_of pool n others"
proof (induction pool arbitrary: n others)
  case Nil
  then show ?case by simp
next
  case (Cons x xs)
  show ?case
  proof (cases "extract_best xs")
    case None
    then have "xs = []" by (simp add: extract_best_None)
    then show ?thesis using Cons.prems unfolding is_best_of_def by (intro exI[of _ 0]) auto
  next
    case (Some a)
    obtain m r where a: "a = (m, r)" by (cases a)
    from Cons.IH[OF Some[unfolded a]] obtain i where i: "i < length xs" "xs ! i = m"
      "r = take i xs @ drop (Suc i) xs" "\<forall>j < length xs. priority_of (xs ! j) \<le> priority_of m"
      "\<forall>j < i. priority_of (xs ! j) < priority_of m"
      unfolding is_best_of_def by blast
    show ?thesis
    proof (cases "priority_of m \<le> priority_of x")
      case True
      then have nx: "n = x" "others = xs" using Cons.prems Some a by simp_all
      have "priority_of (xs ! j) \<le> priority_of x" if "j < length xs" for j
        using i(4) True that by (meson order_trans)
      then have "\<forall>j < length (x # xs). priority_of ((x # xs) ! j) \<le> priority_of x"
        by (auto simp: nth_Cons')
      then show ?thesis unfolding is_best_of_def nx by (intro exI[of _ 0]) simp
    next
      case False
      then have nm: "n = m" "others = x # r" using Cons.prems Some a by simp_all
      have a1: "\<forall>j < length (x # xs). priority_of ((x # xs) ! j) \<le> priority_of m"
        using i(4) False by (auto simp: nth_Cons')
      have a2: "\<forall>j < Suc i. priority_of ((x # xs) ! j) < priority_of m"
        using i(5) False by (auto simp: nth_Cons')
      show ?thesis unfolding is_best_of_def nm
        using i(1,2,3) a1 a2 by (intro exI[of _ "Suc i"]) simp
    qed
  qed
qed

text \<open>The sorted queue of the source and the pool of the specification.\<close>

lemma sort_queue_extract:
  "extract_best pool = Some (n, others) \<Longrightarrow> sort_queue pool = n # sort_queue others"
proof (induction pool arbitrary: n others)
  case Nil
  then show ?case by simp
next
  case (Cons x xs)
  show ?case
  proof (cases "extract_best xs")
    case None
    then have "xs = []" by (simp add: extract_best_None)
    then show ?thesis using Cons.prems by (simp add: sort_queue_def)
  next
    case (Some a)
    obtain m r where a: "a = (m, r)" by (cases a)
    have ih: "sort_queue xs = m # sort_queue r" by (rule Cons.IH[OF Some[unfolded a]])
    show ?thesis
    proof (cases "priority_of m \<le> priority_of x")
      case True
      then have "n = x" "others = xs" using Cons.prems Some a by simp_all
      then show ?thesis using ih True by (simp add: sort_queue_def)
    next
      case False
      then have "n = m" "others = x # r" using Cons.prems Some a by simp_all
      then show ?thesis using ih False by (simp add: sort_queue_def)
    qed
  qed
qed

lemma sort_queue_idem_append: "sort_queue (sort_queue xs @ ys) = sort_queue (xs @ ys)"
  unfolding sort_queue_def
proof (rule properties_for_sort_key)
  let ?f = "\<lambda>n. - priority_of n"
  show "mset (sort_key ?f (xs @ ys)) = mset (sort_key ?f xs @ ys)" by simp
  show "sorted (map ?f (sort_key ?f (xs @ ys)))" by simp
  fix k
  have eq: "(\<lambda>x. ?f k = ?f x) = (\<lambda>x. ?f x = ?f k)" by (rule ext) auto
  show "filter (\<lambda>x. ?f k = ?f x) (sort_key ?f (xs @ ys)) =
      filter (\<lambda>x. ?f k = ?f x) (sort_key ?f xs @ ys)"
    unfolding eq by (simp only: filter_append sort_key_stable)
qed

lemma release_dependents_append:
  "release_dependents cs g queue = (g', queue') \<Longrightarrow>
   \<exists>new. queue' = queue @ new \<and> (\<forall>q. release_dependents cs g q = (g', q @ new))"
proof (induction cs arbitrary: g queue queue')
  case Nil
  then show ?case by simp
next
  case (Cons c cs)
  show ?case
  proof (cases "map_of g c")
    case None
    then show ?thesis using Cons by simp
  next
    case (Some d)
    let ?g = "update_node c (\<lambda>n. n\<lparr>inDegree := inDegree n - 1\<rparr>) g"
    let ?d = "d\<lparr>inDegree := inDegree d - 1\<rparr>"
    show ?thesis
    proof (cases "inDegree ?d = 0")
      case True
      then have "release_dependents cs ?g (queue @ [?d]) = (g', queue')"
        using Cons.prems Some by (simp add: Let_def)
      from Cons.IH[OF this] obtain new where new: "queue' = (queue @ [?d]) @ new"
        "\<forall>q. release_dependents cs ?g q = (g', q @ new)" by blast
      have "\<forall>q. release_dependents (c # cs) g q = (g', q @ (?d # new))"
        using new(2) Some True by (simp add: Let_def)
      then show ?thesis using new(1) by (intro exI[of _ "?d # new"]) simp
    next
      case False
      then have "release_dependents cs ?g queue = (g', queue')"
        using Cons.prems Some by (simp add: Let_def)
      from Cons.IH[OF this] obtain new where new: "queue' = queue @ new"
        "\<forall>q. release_dependents cs ?g q = (g', q @ new)" by blast
      have "\<forall>q. release_dependents (c # cs) g q = (g', q @ new)"
        using new(2) Some False by (simp add: Let_def)
      then show ?thesis using new(1) by blast
    qed
  qed
qed

lemma sort_loop_refines:
  "sort_queue queue = sort_queue pool \<Longrightarrow> sort_loop g queue out = planner_loop g pool out"
proof (induction g pool out arbitrary: queue rule: planner_loop.induct)
  case (1 g pool out)
  show ?case
  proof (cases "extract_best pool")
    case None
    then have "pool = []" by (simp add: extract_best_None)
    then have "sort_queue queue = []" using "1.prems" by (simp add: sort_queue_def)
    then show ?thesis using None
      by (subst sort_loop.simps, subst planner_loop.simps) simp
  next
    case (Some a)
    obtain node others where a: "a = (node, others)" by (cases a)
    have sq: "sort_queue queue = node # sort_queue others"
      using sort_queue_extract[OF Some[unfolded a]] "1.prems" by simp
    obtain g' pool' where r: "release_dependents (dependents node) g others = (g', pool')"
      by (cases "release_dependents (dependents node) g others")
    from release_dependents_append[OF r] obtain new where new: "pool' = others @ new"
      "\<forall>q. release_dependents (dependents node) g q = (g', q @ new)" by blast
    have rq: "release_dependents (dependents node) g (sort_queue others) = (g', sort_queue others @ new)"
      using new(2) by simp
    have "sort_queue (sort_queue others @ new) = sort_queue pool'"
      unfolding new(1) by (rule sort_queue_idem_append)
    from "1.IH"[OF Some a[symmetric] r[symmetric] this]
    have "sort_loop g' (sort_queue others @ new) (out @ [node]) = planner_loop g' pool' (out @ [node])" .
    then show ?thesis using Some a sq rq r
      by (subst sort_loop.simps, subst planner_loop.simps) simp
  qed
qed

lemma topologicalSort_refines: "topologicalSortWithPriority g = planner_spec g"
  by (simp add: topologicalSortWithPriority_def planner_spec_def sort_loop_refines)



lemma edges_keys:
  assumes "wf_graph g"
  shows "edges g \<subseteq> fst ` set g \<times> fst ` set g"
proof
  fix e assume e: "e \<in> edges g"
  obtain p c where pc: "e = (p, c)" by (cases e)
  have p: "p \<in> set (deps g c)" using e pc by (simp add: edges_def)
  then have "map_of g c \<noteq> None" by (cases "map_of g c") (simp_all add: deps_def)
  then have c: "c \<in> fst ` set g" by (simp add: map_of_None_iff)
  have "p \<in> fst ` set g" using assms p unfolding wf_graph_def by blast
  then show "e \<in> fst ` set g \<times> fst ` set g" using c pc by simp
qed

lemma finite_edges: "wf_graph g \<Longrightarrow> finite (edges g)"
  by (rule finite_subset[OF edges_keys]) simp_all

text \<open>Kahn's algorithm covers every node of a graph without a cycle.\<close>

lemma topologicalSort_acyclic:
  assumes wf: "wf_graph g" and ac: "acyclic (edges g)"
  shows "\<exists>out. topologicalSortWithPriority g = Inr out"
proof -
  define out where "out = sort_loop g (filter (\<lambda>node. inDegree node = 0) (map snd g)) []"
  obtain g' where inv: "kahn_inv g g' [] out []" using kahn_final[OF wf] out_def by blast
  have keys: "fst ` set g' = fst ` set g"
    using inv same_but_degree_keys unfolding kahn_inv_def by (metis set_map)
  have degs: "k \<in> fst ` set g \<Longrightarrow> deg g' k = int (open_deps (node_id ` set out) (deps g k))" for k
    using inv keys unfolding kahn_inv_def by simp
  have compl: "k \<in> fst ` set g \<Longrightarrow> deg g' k = 0 \<Longrightarrow> k \<in> node_id ` set out" for k
    using inv keys unfolding kahn_inv_def by simp
  have w: "wf (edges g)" by (rule finite_acyclic_wf[OF finite_edges[OF wf] ac])
  have "fst ` set g \<subseteq> node_id ` set out"
  proof (rule ccontr)
    assume "\<not> fst ` set g \<subseteq> node_id ` set out"
    then obtain x where x: "x \<in> fst ` set g - node_id ` set out" by blast
    from wfE_min[OF w x] obtain z where z: "z \<in> fst ` set g - node_id ` set out"
      "\<And>y. (y, z) \<in> edges g \<Longrightarrow> y \<notin> fst ` set g - node_id ` set out" by blast
    have "set (deps g z) \<subseteq> node_id ` set out"
    proof
      fix y assume y: "y \<in> set (deps g z)"
      then have "(y, z) \<in> edges g" by (simp add: edges_def)
      then have "y \<notin> fst ` set g - node_id ` set out" by (rule z(2))
      moreover have "y \<in> fst ` set g" using wf y unfolding wf_graph_def by blast
      ultimately show "y \<in> node_id ` set out" by blast
    qed
    then have "open_deps (node_id ` set out) (deps g z) = 0" by (simp add: open_deps_zero)
    moreover have kin: "z \<in> fst ` set g" using z(1) by blast
    ultimately have "z \<in> node_id ` set out" using degs[OF kin] compl[OF kin] by simp
    then show False using z(1) by blast
  qed
  then have eq: "node_id ` set out = fst ` set g" using kahn_inv_out_keys[OF inv] by blast
  have d: "distinct (map node_id out)" using inv unfolding kahn_inv_def by simp
  have "length out = card (node_id ` set out)" using d by (metis distinct_card length_map set_map)
  also have "\<dots> = length g"
    unfolding eq using wf by (metis wf_graph_def distinct_card length_map set_map)
  finally show ?thesis
    by (simp add: topologicalSortWithPriority_def Let_def out_def)
qed

lemma topologicalSort_error: "topologicalSortWithPriority g = Inl e \<Longrightarrow> e = CycleDetected"
  by (auto simp: topologicalSortWithPriority_def Let_def split: if_splits)

text \<open>In a plan every dependency of a node stands before the node.\<close>

lemma deps_before_index:
  "deps_before seen out \<Longrightarrow> j < length out \<Longrightarrow> p \<in> set (node_dependencies (out ! j)) \<Longrightarrow>
   p \<in> seen \<or> (\<exists>i<j. node_id (out ! i) = p)"
proof (induction out arbitrary: seen j)
  case Nil
  then show ?case by simp
next
  case (Cons n ns)
  show ?case
  proof (cases j)
    case 0
    then show ?thesis using Cons.prems by auto
  next
    case (Suc j')
    have "p \<in> insert (node_id n) seen \<or> (\<exists>i<j'. node_id (ns ! i) = p)"
      by (rule Cons.IH) (use Cons.prems Suc in simp_all)
    then show ?thesis
    proof (elim disjE exE conjE)
      assume "p \<in> insert (node_id n) seen"
      then show ?thesis using Suc by auto
    next
      fix i assume "i < j'" "node_id (ns ! i) = p"
      then have "Suc i < j \<and> node_id ((n # ns) ! Suc i) = p" using Suc by simp
      then show ?thesis by blast
    qed
  qed
qed

lemma sorted_node_deps:
  assumes wf: "wf_graph g" and res: "topologicalSortWithPriority g = Inr out" and m: "m \<in> set out"
  shows "deps g (node_id m) = node_dependencies m"
proof -
  from topologicalSort_sound[OF wf res] m
  obtain n0 where "map_of g (node_id m) = Some n0" "node_dependencies n0 = node_dependencies m"
    by blast
  then show ?thesis by (simp add: deps_def)
qed

lemma plan_edges_forward:
  assumes wf: "wf_graph g" and res: "topologicalSortWithPriority g = Inr out"
    and i: "i < length out" and j: "j < length out"
    and e: "(node_id (out ! i), node_id (out ! j)) \<in> edges g"
  shows "i < j"
proof -
  from topologicalSort_sound[OF wf res]
  have d: "distinct (map node_id out)" and db: "deps_before {} out" by simp_all
  have "node_id (out ! i) \<in> set (node_dependencies (out ! j))"
    using e sorted_node_deps[OF wf res, of "out ! j"] j by (simp add: edges_def)
  from deps_before_index[OF db j this] obtain i' where i': "i' < j" "node_id (out ! i') = node_id (out ! i)"
    by auto
  have eq: "map node_id out ! i' = map node_id out ! i" using i' i j by simp
  have "i' = i" using nth_eq_iff_index_eq[OF d, of i' i] eq i i' j by simp
  then show ?thesis using i'(1) by simp
qed

text \<open>A graph that has a plan has no cycle.\<close>

lemma plan_acyclic:
  assumes wf: "wf_graph g" and res: "topologicalSortWithPriority g = Inr out"
  shows "acyclic (edges g)"
proof -
  from topologicalSort_sound[OF wf res]
  have d: "distinct (map node_id out)" and ids: "node_id ` set out = fst ` set g" by simp_all
  define rank where "rank k = (SOME i. i < length out \<and> node_id (out ! i) = k)" for k
  have rk: "rank (node_id (out ! i)) = i" if "i < length out" for i
    unfolding rank_def
  proof (rule some_equality)
    show "i < length out \<and> node_id (out ! i) = node_id (out ! i)" using that by simp
  next
    fix i' assume a: "i' < length out \<and> node_id (out ! i') = node_id (out ! i)"
    then have "map node_id out ! i' = map node_id out ! i" using that by simp
    then show "i' = i" using nth_eq_iff_index_eq[OF d, of i' i] a that by simp
  qed
  have "edges g \<subseteq> inv_image less_than rank"
  proof
    fix e assume e: "e \<in> edges g"
    obtain p c where pc: "e = (p, c)" by (cases e)
    from edges_keys[OF wf] e pc have "p \<in> node_id ` set out" "c \<in> node_id ` set out"
      unfolding ids by auto
    then obtain i j where ij: "i < length out" "p = node_id (out ! i)" "j < length out" "c = node_id (out ! j)"
      by (auto simp: in_set_conv_nth)
    have "i < j" by (rule plan_edges_forward[OF wf res ij(1,3)]) (use e pc ij in simp)
    then show "e \<in> inv_image less_than rank" using pc ij rk by simp
  qed
  then have "wf (edges g)" by (rule wf_subset[OF wf_inv_image[OF wf_less_than]])
  then show ?thesis by (rule wf_acyclic)
qed


lemma plan_addTasks: "addTasks [] plan_tasks = Inr plan_graph"
  by (simp add: plan_tasks_def plan_graph_def plan_node_def plan_task_def build_simps)

lemma plan_sort: "topologicalSortWithPriority plan_graph = Inr plan_sorted"
  by (simp add: plan_graph_def plan_sorted_def plan_node_def plan_task_def build_simps)

lemma self_addTasks: "addTasks [] [plan_task ''Z'' 1 [''Z'']] = Inr self_graph"
  by (simp add: self_graph_def plan_node_def plan_task_def build_simps)

lemma self_sort: "topologicalSortWithPriority self_graph = Inl CycleDetected"
  by (simp add: self_graph_def plan_node_def plan_task_def build_simps)

text \<open>
  Claim C8. For the graph built from the descriptors, whose edges are the dependencies that
  the descriptors declare: the planner is the planner as the specification words it, which
  extracts at each step the node that \<open>extract_best\<close> selects: one with the highest priority in
  the pool, the earliest inserted among those of that priority; only an empty pool gives
  none. It produces a plan exactly when the graph has no cycle, and reports a cycle
  otherwise. A plan lists every node of the graph exactly once, each after all the nodes it
  depends on: every edge goes from an earlier position of the plan to a later one. The three
  independent roots \<open>A\<close> (priority 1), \<open>B\<close> (priority 5) and \<open>C\<close> (priority 3), run with
  concurrency 1, are launched in the order \<open>B\<close>, \<open>C\<close>, \<open>A\<close>.
\<close>

theorem planner_priority_order:
  assumes "addTasks [] ts = Inr g"
  shows "topologicalSortWithPriority g = planner_spec g \<and>
         fst ` set g = task_id ` set ts \<and>
         edges g = {(p, c). p \<in> set (declared_parents ts c)} \<and>
         ((\<exists>out. topologicalSortWithPriority g = Inr out) \<longleftrightarrow> acyclic (edges g)) \<and>
         (\<not> acyclic (edges g) \<longrightarrow> topologicalSortWithPriority g = Inl CycleDetected) \<and>
         (\<forall>out. topologicalSortWithPriority g = Inr out \<longrightarrow>
            distinct (map node_id out) \<and> node_id ` set out = fst ` set g \<and>
            deps_before {} out \<and>
            (\<forall>i j. i < length out \<longrightarrow> j < length out \<longrightarrow>
               (node_id (out ! i), node_id (out ! j)) \<in> edges g \<longrightarrow> i < j)) \<and>
         (case extract_best pool of
            None \<Rightarrow> pool = []
          | Some (n, others) \<Rightarrow> is_best_of pool n others) \<and>
         map_option started_ids
           (trace_of (build \<lparr>verbose = v, maxConcurrency = Some 1\<rparr> three_roots 1000)) =
           Some [''B'', ''C'', ''A'']"
proof -
  have wf: "wf_graph g" by (rule wf_graph_addTasks[OF wf_graph_empty assms])
  have r: "topologicalSortWithPriority g = planner_spec g" by (rule topologicalSort_refines)
  have k: "fst ` set g = task_id ` set ts" using addTasks_keys[OF assms] by simp
  have "deps g c = declared_parents ts c" for c
    using addTasks_deps[OF assms, of c] by (simp add: deps_def)
  then have ed: "edges g = {(p, c). p \<in> set (declared_parents ts c)}" by (simp add: edges_def)
  have iff: "(\<exists>out. topologicalSortWithPriority g = Inr out) \<longleftrightarrow> acyclic (edges g)"
    using topologicalSort_acyclic[OF wf] plan_acyclic[OF wf] by blast
  have cyc: "\<not> acyclic (edges g) \<longrightarrow> topologicalSortWithPriority g = Inl CycleDetected"
  proof
    assume n: "\<not> acyclic (edges g)"
    show "topologicalSortWithPriority g = Inl CycleDetected"
    proof (cases "topologicalSortWithPriority g")
      case (Inl e)
      then show ?thesis using topologicalSort_error[OF Inl] by simp
    next
      case (Inr out)
      then show ?thesis using iff n by blast
    qed
  qed
  have pl: "\<forall>out. topologicalSortWithPriority g = Inr out \<longrightarrow>
            distinct (map node_id out) \<and> node_id ` set out = fst ` set g \<and>
            deps_before {} out \<and>
            (\<forall>i j. i < length out \<longrightarrow> j < length out \<longrightarrow>
               (node_id (out ! i), node_id (out ! j)) \<in> edges g \<longrightarrow> i < j)"
  proof (intro allI impI conjI)
    fix out assume res: "topologicalSortWithPriority g = Inr out"
    from topologicalSort_sound[OF wf res]
    show "distinct (map node_id out)" "node_id ` set out = fst ` set g" "deps_before {} out"
      by simp_all
    fix i j assume "i < length out" "j < length out"
      "(node_id (out ! i), node_id (out ! j)) \<in> edges g"
    then show "i < j" by (rule plan_edges_forward[OF wf res])
  qed
  have b: "(case extract_best pool of None \<Rightarrow> pool = []
          | Some (n, others) \<Rightarrow> is_best_of pool n others)"
    by (auto simp: extract_best_None extract_best_is_best split: option.splits)
  have "fst (executeTasksWithConcurrencyLimit roots_sorted 1 1000) \<noteq> NeverSettles"
    by (simp add: roots_serial)
  then have "trace_of (build \<lparr>verbose = v, maxConcurrency = Some 1\<rparr> three_roots 1000) =
      Some (trace (snd (executeTasksWithConcurrencyLimit roots_sorted 1 1000)))"
    using build_trace[OF roots_addTasks roots_sort, of "\<lparr>verbose = v, maxConcurrency = Some 1\<rparr>" 1000]
    by simp
  then have e: "map_option started_ids
           (trace_of (build \<lparr>verbose = v, maxConcurrency = Some 1\<rparr> three_roots 1000)) =
           Some [''B'', ''C'', ''A'']"
    by (simp add: roots_serial started_ids_def)
  show ?thesis by (intro conjI) (rule r, rule k, rule ed, rule iff, rule cyc, rule pl, rule b, rule e)
qed

theorem planner_priority_order_witness:
  "addTasks [] plan_tasks = Inr plan_graph \<and>
   edges plan_graph = {(''P'', ''Q''), (''R'', ''T''), (''S'', ''T'')} \<and>
   acyclic (edges plan_graph) \<and>
   topologicalSortWithPriority plan_graph = Inr plan_sorted \<and>
   planner_spec plan_graph = Inr plan_sorted \<and>
   map node_id plan_sorted = [''R'', ''S'', ''T'', ''P'', ''Q''] \<and>
   map (\<lambda>n. (node_id n, priority_of n)) (map snd plan_graph) =
     [(''P'', 1), (''Q'', 9), (''R'', 5), (''S'', 5), (''T'', 7)] \<and>
   extract_best [plan_node ''P'' 1 [] [''Q''] 0, plan_node ''R'' 5 [] [''T''] 0,
                 plan_node ''S'' 5 [] [''T''] 0] =
     Some (plan_node ''R'' 5 [] [''T''] 0,
           [plan_node ''P'' 1 [] [''Q''] 0, plan_node ''S'' 5 [] [''T''] 0]) \<and>
   is_best_of [plan_node ''P'' 1 [] [''Q''] 0, plan_node ''R'' 5 [] [''T''] 0,
               plan_node ''S'' 5 [] [''T''] 0]
     (plan_node ''R'' 5 [] [''T''] 0)
     [plan_node ''P'' 1 [] [''Q''] 0, plan_node ''S'' 5 [] [''T''] 0] \<and>
   addTasks [] [plan_task ''Z'' 1 [''Z'']] = Inr self_graph \<and>
   edges self_graph = {(''Z'', ''Z'')} \<and>
   \<not> acyclic (edges self_graph) \<and>
   topologicalSortWithPriority self_graph = Inl CycleDetected"
proof -
  let ?pool = "[plan_node ''P'' 1 [] [''Q''] 0, plan_node ''R'' 5 [] [''T''] 0,
                 plan_node ''S'' 5 [] [''T''] 0]"
  note p = planner_priority_order[OF plan_addTasks, of ?pool]
  note z = planner_priority_order[OF self_addTasks, of "[]"]
  have x: "extract_best ?pool =
     Some (plan_node ''R'' 5 [] [''T''] 0,
           [plan_node ''P'' 1 [] [''Q''] 0, plan_node ''S'' 5 [] [''T''] 0])"
    by (simp add: plan_node_def plan_task_def priority_of_def)
  have i: "map node_id plan_sorted = [''R'', ''S'', ''T'', ''P'', ''Q'']"
    by (simp add: plan_sorted_def plan_node_def)
  have q: "map (\<lambda>n. (node_id n, priority_of n)) (map snd plan_graph) =
     [(''P'', 1), (''Q'', 9), (''R'', 5), (''S'', 5), (''T'', 7)]"
    by (simp add: plan_graph_def plan_node_def plan_task_def priority_of_def)
  have dp: "declared_parents plan_tasks c =
      (if c = ''Q'' then [''P''] else if c = ''T'' then [''R'', ''S''] else [])" for c
    by (simp add: declared_parents_def plan_tasks_def plan_task_def deplist_def)
  have e1: "edges plan_graph = {(''P'', ''Q''), (''R'', ''T''), (''S'', ''T'')}"
    using p dp by (auto split: if_splits)
  have dz: "declared_parents [plan_task ''Z'' 1 [''Z'']] c = (if c = ''Z'' then [''Z''] else [])" for c
    by (simp add: declared_parents_def plan_task_def deplist_def)
  have e2: "edges self_graph = {(''Z'', ''Z'')}"
    using z dz by (auto split: if_splits)
  have "(\<exists>out. topologicalSortWithPriority plan_graph = Inr out) \<longleftrightarrow> acyclic (edges plan_graph)"
    by (rule p[THEN conjunct2, THEN conjunct2, THEN conjunct2, THEN conjunct1])
  then have a1: "acyclic (edges plan_graph)" by (simp add: plan_sort)
  have "(\<exists>out. topologicalSortWithPriority self_graph = Inr out) \<longleftrightarrow> acyclic (edges self_graph)"
    by (rule z[THEN conjunct2, THEN conjunct2, THEN conjunct2, THEN conjunct1])
  then have a2: "\<not> acyclic (edges self_graph)" by (simp add: self_sort)
  have s: "planner_spec plan_graph = Inr plan_sorted" using p plan_sort by simp
  have b: "is_best_of ?pool (plan_node ''R'' 5 [] [''T''] 0)
     [plan_node ''P'' 1 [] [''Q''] 0, plan_node ''S'' 5 [] [''T''] 0]"
    using p x by simp
  show ?thesis
    by (intro conjI) (rule plan_addTasks, rule e1, rule a1, rule plan_sort, rule s, rule i,
      rule q, rule x, rule b, rule self_addTasks, rule e2, rule a2, rule self_sort)
qed

section \<open>Arguments and failures\<close>

lemma addTask_node_task:
  assumes "addTask g t = Inr g'"
  shows "map_option node_task (map_of g' k) =
           (case map_option node_task (map_of g k) of
              Some x \<Rightarrow> Some x
            | None \<Rightarrow> if k = task_id t then Some t else None)"
proof -
  let ?g1 = "case map_of g (task_id t) of None \<Rightarrow> g @ [(task_id t, new_GraphNode t)] | Some node \<Rightarrow> g"
  have l: "link_dependencies (task_id t) ?g1 (deplist t) = Inr g'" using assms by (simp add: addTask_eq)
  have e: "map_option node_task (map_of g' k) = map_option node_task (map_of ?g1 k)"
    by (rule link_dependencies_node_task[OF l])
  show ?thesis
  proof (cases "map_of g (task_id t)")
    case None
    have g1: "?g1 = g @ [(task_id t, new_GraphNode t)]" using None by simp
    have look: "map_of ?g1 k = (if k = task_id t then Some (new_GraphNode t) else map_of g k)"
      unfolding g1 by (rule map_of_snoc[OF None])
    show ?thesis unfolding e look using None
      by (cases "map_of g k") (auto simp: new_GraphNode_def)
  next
    case (Some n)
    show ?thesis unfolding e using Some by (cases "map_of g k") auto
  qed
qed

lemma addTasks_node_task:
  "addTasks g ts = Inr g' \<Longrightarrow>
   map_option node_task (map_of g' k) =
     (case map_option node_task (map_of g k) of
        Some x \<Rightarrow> Some x
      | None \<Rightarrow> List.find (\<lambda>t. task_id t = k) ts)"
proof (induction ts arbitrary: g)
  case Nil
  then show ?case by (simp split: option.splits)
next
  case (Cons t ts)
  from Cons.prems obtain g1 where g1: "addTask g t = Inr g1" "addTasks g1 ts = Inr g'"
    by (auto split: sum.splits)
  show ?case unfolding Cons.IH[OF g1(2)] addTask_node_task[OF g1(1)]
    by (auto split: option.splits)
qed

lemma sorted_node_task:
  assumes "addTasks [] ts = Inr g" and "topologicalSortWithPriority g = Inr sortedNodes"
    and "c \<in> set sortedNodes"
  shows "List.find (\<lambda>t. task_id t = node_id c) ts = Some (node_task c)"
proof -
  have wf: "wf_graph g" by (rule wf_graph_addTasks[OF wf_graph_empty assms(1)])
  from topologicalSort_sound[OF wf assms(2)] assms(3)
  obtain n0 where "map_of g (node_id c) = Some n0" "node_task n0 = node_task c"
    by blast
  then show ?thesis using addTasks_node_task[OF assms(1), of "node_id c"] by simp
qed

lemma build_on_outcome:
  "addTasks [] ts = Inr g \<Longrightarrow> topologicalSortWithPriority g = Inr sortedNodes \<Longrightarrow>
   outcome_of (build_on columns config ts now) =
     (case executeTasksWithConcurrencyLimit sortedNodes
             (case maxConcurrency config of None \<Rightarrow> 2 | Some k \<Rightarrow> k) now of
        (Fulfilled u, ex) \<Rightarrow> Fulfilled (generateTimeline columns (task_objects [] (store ex) ts) now)
      | (RejectedWith e, ex) \<Rightarrow> Fulfilled (Some e)
      | (NeverSettles, ex) \<Rightarrow> NeverSettles)"
  by (cases "executeTasksWithConcurrencyLimit sortedNodes
          (case maxConcurrency config of None \<Rightarrow> 2 | Some k \<Rightarrow> k) now")
     (auto simp: build_on_def outcome_of_def split: promise.splits)

text \<open>The timeline throws a \<^verbatim>\<open>TypeError\<close> exactly when no task has metrics.\<close>

lemma sort_key_Nil: "sort_key f xs = [] \<longleftrightarrow> xs = []"
  by (metis length_0_conv length_sort)

lemma generateTimeline_TypeError:
  "generateTimeline columns taskObjects executionStart = Some TimelineTypeError \<longleftrightarrow>
     (\<forall>x \<in> set taskObjects. metrics (snd x) = None)"
proof -
  have "List.map_filter (\<lambda>(t, s). map_option (\<lambda>m. (task_id t, m)) (metrics s)) taskObjects = [] \<longleftrightarrow>
      (\<forall>x \<in> set taskObjects. metrics (snd x) = None)"
    by (induction taskObjects) (auto simp: List.map_filter_def)
  then show ?thesis
    by (simp add: generateTimeline_def sort_key_Nil Let_def)
qed

lemmas timeline_simps = generateTimeline_def List.map_filter_def floor_scaled_def Let_def

lemma chain_timeline:
  "generateTimeline None
     (task_objects [] (store (snd (executeTasksWithConcurrencyLimit chain_sorted 2 1000))) chain) 1000 = None"
  by (simp add: chain_run chain_def timeline_simps)

lemma build_artifacts:
  "addTasks [] ts = Inr g \<Longrightarrow> topologicalSortWithPriority g = Inr sortedNodes \<Longrightarrow>
   fst (executeTasksWithConcurrencyLimit sortedNodes
          (case maxConcurrency config of None \<Rightarrow> 2 | Some k \<Rightarrow> k) now) \<noteq> NeverSettles \<Longrightarrow>
   artifacts_of (build config ts now) ids =
     Some (map (\<lambda>i. artifact (store (snd (executeTasksWithConcurrencyLimit sortedNodes
          (case maxConcurrency config of None \<Rightarrow> 2 | Some k \<Rightarrow> k) now)) i)) ids)"
  by (cases "executeTasksWithConcurrencyLimit sortedNodes
          (case maxConcurrency config of None \<Rightarrow> 2 | Some k \<Rightarrow> k) now")
     (auto simp: build_def build_on_def artifacts_of_def split: promise.splits)

text \<open>
  Claim C2. In the execution of the graph built from the descriptors, a launch that enters
  the runner does so with the artifacts of the dependencies that the descriptors declare for
  its id, one argument for each, in the order of the declaration; the task of the node is the
  first descriptor with its id, and every call of its action that the runner makes with these
  arguments passes exactly them. The end of a launch carries the outcome of the runner for the
  arguments of a start of that launch, and the artifact of a task whose launch ended with a
  result is that result. For the chain \<open>A\<close>, \<open>B\<close>, \<open>C\<close>, \<^verbatim>\<open>build()\<close> is
  fulfilled with no error caught, \<open>B\<close> is started with \<open>"a"\<close> and \<open>C\<close> with \<open>"ab"\<close>, and the artifacts
  are \<open>"a"\<close>, \<open>"ab"\<close> and \<open>"abc"\<close>.
\<close>

theorem driver_passes_parent_artifacts:
  assumes "addTasks [] ts = Inr g" and "topologicalSortWithPriority g = Inr sortedNodes"
    and "c \<in> set sortedNodes"
    and "Started (node_id c) args t \<in>
           set (trace (snd (executeTasksWithConcurrencyLimit sortedNodes K t0)))"
  shows "args = map (\<lambda>p. artifact (store (snd (executeTasksWithConcurrencyLimit sortedNodes K t0)) p))
                  (declared_parents ts (node_id c)) \<and>
         (\<forall>p r t'. p \<in> set sortedNodes \<longrightarrow>
            Ended (node_id p) (Inr r) t' \<in>
              set (trace (snd (executeTasksWithConcurrencyLimit sortedNodes K t0))) \<longrightarrow>
            artifact (store (snd (executeTasksWithConcurrencyLimit sortedNodes K t0)) (node_id p)) = r) \<and>
         List.find (\<lambda>d. task_id d = node_id c) ts = Some (node_task c) \<and>
         (\<forall>e st now. e \<in> set (events (executeTaskWithRetries (node_task c) args st now)) \<longrightarrow>
            is_invoke e \<longrightarrow> (\<exists>k. e = Invoke k args)) \<and>
         (\<forall>p r t'. p \<in> set sortedNodes \<longrightarrow>
            Ended (node_id p) r t' \<in>
              set (trace (snd (executeTasksWithConcurrencyLimit sortedNodes K t0))) \<longrightarrow>
            (\<exists>args' s. Started (node_id p) args' s \<in>
                 set (trace (snd (executeTasksWithConcurrencyLimit sortedNodes K t0))) \<and>
               r = outcome (executeTaskWithRetries (node_task p) args' initial_state s) \<and>
               t' = finished (executeTaskWithRetries (node_task p) args' initial_state s))) \<and>
         outcome_of (build \<lparr>verbose = v, maxConcurrency = None\<rparr> chain 1000) = Fulfilled None \<and>
         trace_of (build \<lparr>verbose = v, maxConcurrency = None\<rparr> chain 1000) =
           Some [Started ''A'' [] 1000, Ended ''A'' (Inr (VStr ''a'')) 1003,
                 Started ''B'' [VStr ''a''] 1003, Ended ''B'' (Inr (VStr ''ab'')) 1007,
                 Started ''C'' [VStr ''ab''] 1007, Ended ''C'' (Inr (VStr ''abc'')) 1012] \<and>
         artifacts_of (build \<lparr>verbose = v, maxConcurrency = None\<rparr> chain 1000) [''A'', ''B'', ''C''] =
           Some [VStr ''a'', VStr ''ab'', VStr ''abc'']"
proof -
  let ?R = "executeTasksWithConcurrencyLimit sortedNodes K t0"
  have wf: "wf_graph g" by (rule wf_graph_addTasks[OF wf_graph_empty assms(1)])
  from topologicalSort_sound[OF wf assms(2)]
  have d: "distinct (map node_id sortedNodes)" and db: "deps_before {} sortedNodes" by simp_all
  have "args = map (\<lambda>p. artifact (store (snd ?R) p)) (node_dependencies c)"
    by (rule driver_started[OF db d assms(3,4)])
  then have a: "args = map (\<lambda>p. artifact (store (snd ?R) p)) (declared_parents ts (node_id c))"
    using sorted_node_dependencies[OF assms(1,2,3)] by simp
  have b: "\<forall>p r t'. p \<in> set sortedNodes \<longrightarrow> Ended (node_id p) (Inr r) t' \<in> set (trace (snd ?R)) \<longrightarrow>
            artifact (store (snd ?R) (node_id p)) = r"
  proof (intro allI impI)
    fix p r t' assume "p \<in> set sortedNodes" "Ended (node_id p) (Inr r) t' \<in> set (trace (snd ?R))"
    from driver_ended[OF db d this] show "artifact (store (snd ?R) (node_id p)) = r"
      by (simp add: artifact_after_def)
  qed
  have f: "List.find (\<lambda>d. task_id d = node_id c) ts = Some (node_task c)"
    by (rule sorted_node_task[OF assms(1,2,3)])
  have o: "\<forall>p r t'. p \<in> set sortedNodes \<longrightarrow> Ended (node_id p) r t' \<in> set (trace (snd ?R)) \<longrightarrow>
            (\<exists>args' s. Started (node_id p) args' s \<in> set (trace (snd ?R)) \<and>
               r = outcome (executeTaskWithRetries (node_task p) args' initial_state s) \<and>
               t' = finished (executeTaskWithRetries (node_task p) args' initial_state s))"
    using driver_ended_outcome[OF d] by blast
  have r: "\<forall>e st now. e \<in> set (events (executeTaskWithRetries (node_task c) args st now)) \<longrightarrow>
            is_invoke e \<longrightarrow> (\<exists>k. e = Invoke k args)"
    using runner_invokes by blast
  have ns: "fst (executeTasksWithConcurrencyLimit chain_sorted
      (case maxConcurrency \<lparr>verbose = v, maxConcurrency = None\<rparr> of None \<Rightarrow> 2 | Some k \<Rightarrow> k) 1000)
      \<noteq> NeverSettles"
    by (simp add: chain_run)
  have e1: "outcome_of (build \<lparr>verbose = v, maxConcurrency = None\<rparr> chain 1000) = Fulfilled None"
    using build_on_outcome[OF chain_addTasks chain_sort, of None "\<lparr>verbose = v, maxConcurrency = None\<rparr>" 1000]
      chain_timeline
    by (cases "executeTasksWithConcurrencyLimit chain_sorted 2 1000") (simp add: build_def chain_run)
  have e2: "trace_of (build \<lparr>verbose = v, maxConcurrency = None\<rparr> chain 1000) =
           Some [Started ''A'' [] 1000, Ended ''A'' (Inr (VStr ''a'')) 1003,
                 Started ''B'' [VStr ''a''] 1003, Ended ''B'' (Inr (VStr ''ab'')) 1007,
                 Started ''C'' [VStr ''ab''] 1007, Ended ''C'' (Inr (VStr ''abc'')) 1012]"
    using build_trace[OF chain_addTasks chain_sort ns] by (simp add: chain_run)
  have e3: "artifacts_of (build \<lparr>verbose = v, maxConcurrency = None\<rparr> chain 1000) [''A'', ''B'', ''C''] =
           Some [VStr ''a'', VStr ''ab'', VStr ''abc'']"
    using build_artifacts[OF chain_addTasks chain_sort ns, of "[''A'', ''B'', ''C'']"]
    by (simp add: chain_run)
  show ?thesis by (intro conjI) (rule a, rule b, rule f, rule r, rule o, rule e1, rule e2, rule e3)
qed

theorem driver_passes_parent_artifacts_witness:
  "addTasks [] join_seq = Inr join_graph \<and>
   topologicalSortWithPriority join_graph = Inr join_sorted \<and>
   node_J \<in> set join_sorted \<and>
   Started (node_id node_J) [VStr ''y'', VStr ''x''] 1003 \<in>
     set (trace (snd (executeTasksWithConcurrencyLimit join_sorted 2 1000))) \<and>
   declared_parents join_seq ''J'' = [''Y'', ''X''] \<and>
   List.find (\<lambda>d. task_id d = ''J'') join_seq = Some task_J \<and>
   [VStr ''y'', VStr ''x''] =
     map (\<lambda>p. artifact (store (snd (executeTasksWithConcurrencyLimit join_sorted 2 1000)) p))
       (declared_parents join_seq (node_id node_J)) \<and>
   artifact (store (snd (executeTasksWithConcurrencyLimit join_sorted 2 1000)) ''J'') = VStr ''yx''"
proof -
  have c: "node_J \<in> set join_sorted" by (simp add: join_sorted_def)
  have s: "Started (node_id node_J) [VStr ''y'', VStr ''x''] 1003 \<in>
     set (trace (snd (executeTasksWithConcurrencyLimit join_sorted 2 1000)))"
    by (simp add: join_run node_J_def)
  have dp: "declared_parents join_seq ''J'' = [''Y'', ''X'']"
    by (simp add: declared_parents_def join_seq_def deplist_def)
  have j: "artifact (store (snd (executeTasksWithConcurrencyLimit join_sorted 2 1000)) ''J'') = VStr ''yx''"
    using join_run by simp
  have fd: "List.find (\<lambda>d. task_id d = ''J'') join_seq = Some task_J"
    by (simp add: join_seq_def)
  from driver_passes_parent_artifacts[OF join_addTasks join_sort c s]
  show ?thesis using join_addTasks join_sort c s dp j fd by simp
qed



text \<open>The examples of failures, evaluated.\<close>

lemma sibling_addTasks: "addTasks [] sibling_seq = Inr sibling_graph"
  by (simp add: sibling_seq_def sibling_graph_def node_F_def node_S_def node_G_def failing_def
      task_S_def task_G_def simple_task_def build_simps)

lemma sibling_sort: "topologicalSortWithPriority sibling_graph = Inr sibling_sorted"
  by (simp add: sibling_graph_def sibling_sorted_def node_F_def node_S_def node_G_def failing_def
      task_S_def task_G_def simple_task_def build_simps)

lemma sibling_run:
  "fst (executeTasksWithConcurrencyLimit sibling_sorted 1 1000) = RejectedWith (AbortedAt ''F'') \<and>
   trace (snd (executeTasksWithConcurrencyLimit sibling_sorted 1 1000)) =
     [Started ''F'' [] 1000, Ended ''F'' (Inl (Thrown ''boom'')) 1005,
      Started ''S'' [] 1005, Ended ''S'' (Inr (VStr ''s'')) 1009]"
  by (simp add: sibling_sorted_def node_F_def node_S_def node_G_def failing_def task_S_def
      task_G_def simple_task_def run_simps)

lemma sibling_levels:
  "assign_levels sibling_sorted Map.empty =
     [''F'' \<mapsto> Level 0, ''S'' \<mapsto> Level 0, ''G'' \<mapsto> Level 1]"
  by (simp add: sibling_sorted_def node_F_def node_S_def node_G_def run_simps)

lemma lonely_addTasks: "addTasks [] [failing (Some Continue)] = Inr [(''F'', lonely_node)]"
  by (simp add: lonely_node_def failing_def build_simps)

lemma lonely_sort: "topologicalSortWithPriority [(''F'', lonely_node)] = Inr [lonely_node]"
  by (simp add: lonely_node_def failing_def build_simps)

lemma lonely_run:
  "fst (executeTasksWithConcurrencyLimit [lonely_node] 1 1000) = Fulfilled () \<and>
   trace (snd (executeTasksWithConcurrencyLimit [lonely_node] 1 1000)) =
     [Started ''F'' [] 1000, Ended ''F'' (Inl (Thrown ''boom'')) 1005] \<and>
   metrics (store (snd (executeTasksWithConcurrencyLimit [lonely_node] 1 1000)) ''F'') = None"
  by (simp add: lonely_node_def failing_def run_simps)

lemma continue_metrics:
  "metrics (store (snd (executeTasksWithConcurrencyLimit (fail_sorted (Some Continue)) 2 1000)) ''F'') = None \<and>
   metrics (store (snd (executeTasksWithConcurrencyLimit (fail_sorted (Some Continue)) 2 1000)) ''G'') =
     Some \<lparr>startTime = 1005, endTime = 1009, duration = 4\<rparr>"
  by (simp add: fail_sorted_def node_F_def node_G_def failing_def task_G_def simple_task_def run_simps)

lemma continue_timeline:
  "generateTimeline None
     (task_objects [] (store (snd (executeTasksWithConcurrencyLimit (fail_sorted (Some Continue)) 2 1000)))
        (fail_seq (Some Continue))) 1000 = None"
  by (simp add: continue_metrics fail_seq_def failing_def task_G_def simple_task_def timeline_simps)

text \<open>
  Claim C3 as stated does not hold: when a task whose policy is to abort has failed,
  \<^verbatim>\<open>build()\<close> is fulfilled. The driver rejects; \<^verbatim>\<open>build()\<close> catches the error and logs it.
\<close>

theorem abort_is_caught_counterexample:
  "outcome_of (build \<lparr>verbose = None, maxConcurrency = None\<rparr> (fail_seq (Some Abort)) 1000) =
     Fulfilled (Some (AbortedAt ''F'')) \<and>
   fst (executeTasksWithConcurrencyLimit (fail_sorted (Some Abort)) 2 1000) =
     RejectedWith (AbortedAt ''F'')"
  using build_on_outcome[OF fail_addTasks[of "Some Abort"] fail_sort,
      of None "\<lparr>verbose = None, maxConcurrency = None\<rparr>" 1000] abort_run
  by (cases "executeTasksWithConcurrencyLimit (fail_sorted (Some Abort)) 2 1000")
     (simp add: build_def)

text \<open>
  Claim C3, amended. With a capacity of at least one, the driver rejects exactly when the
  launch of a node whose policy is to abort has ended in failure, with the error that names
  the first such node in the trace, and fulfils otherwise. \<^verbatim>\<open>build()\<close> is fulfilled in both
  cases: after it caught that error in the first, and in the second with the error that the
  timeline threw, if it threw one, which is a \<^verbatim>\<open>TypeError\<close> exactly when no task has metrics.
  When the driver rejects for a node, every event of the trace belongs to a node whose level
  is at most the level of that node, so no later level is entered, and the launches that end
  are exactly those of the nodes of these levels: the other launches of the level of that
  node run to their end. When the driver fulfils, the launch of every node has ended. A node
  that failed and whose policy is not to abort has the artifact \<^verbatim>\<open>null\<close>, and a node is started
  with the artifacts of its dependencies, so with \<^verbatim>\<open>null\<close> for such a dependency.
\<close>

theorem failure_policy:
  assumes "addTasks [] ts = Inr g" and "topologicalSortWithPriority g = Inr sortedNodes"
    and "1 \<le> K"
  shows "(let R = executeTasksWithConcurrencyLimit sortedNodes K t0; T = trace (snd R);
              nodeLevels = assign_levels sortedNodes Map.empty;
              timeline = generateTimeline columns (task_objects [] (store (snd R)) ts) t0 in
          fst R = (case abort_ids sortedNodes T of
                     [] \<Rightarrow> Fulfilled () | i # rest \<Rightarrow> RejectedWith (AbortedAt i)) \<and>
          outcome_of (build_on columns \<lparr>verbose = v, maxConcurrency = Some K\<rparr> ts t0) =
            (case abort_ids sortedNodes T of
               [] \<Rightarrow> Fulfilled timeline | i # rest \<Rightarrow> Fulfilled (Some (AbortedAt i))) \<and>
          (timeline = Some TimelineTypeError \<longleftrightarrow>
             (\<forall>x \<in> set (task_objects [] (store (snd R)) ts). metrics (snd x) = None)) \<and>
          (\<forall>i. fst R = RejectedWith (AbortedAt i) \<longrightarrow>
             (\<exists>li. nodeLevels i = Some (Level li) \<and>
                (\<forall>e. e \<in> set T \<longrightarrow>
                   (\<exists>le. nodeLevels (event_id e) = Some (Level le) \<and> le \<le> li)) \<and>
                (\<forall>n. n \<in> set sortedNodes \<longrightarrow>
                   (\<exists>l. nodeLevels (node_id n) = Some (Level l) \<and>
                      (node_id n \<in> set (ended_ids T) \<longleftrightarrow> l \<le> li))))) \<and>
          (fst R = Fulfilled () \<longrightarrow> node_id ` set sortedNodes \<subseteq> set (ended_ids T)) \<and>
          (\<forall>n err t. n \<in> set sortedNodes \<longrightarrow> Ended (node_id n) (Inl err) t \<in> set T \<longrightarrow>
             onError (node_task n) \<noteq> Some Abort \<longrightarrow>
             artifact (store (snd R) (node_id n)) = VNull) \<and>
          (\<forall>c args t. c \<in> set sortedNodes \<longrightarrow> Started (node_id c) args t \<in> set T \<longrightarrow>
             args = map (\<lambda>p. artifact (store (snd R) p)) (node_dependencies c)))"
proof -
  let ?R = "executeTasksWithConcurrencyLimit sortedNodes K t0"
  let ?T = "trace (snd ?R)"
  let ?NL = "assign_levels sortedNodes Map.empty"
  let ?tl = "generateTimeline columns (task_objects [] (store (snd ?R)) ts) t0"
  have wf: "wf_graph g" by (rule wf_graph_addTasks[OF wf_graph_empty assms(1)])
  from topologicalSort_sound[OF wf assms(2)]
  have d: "distinct (map node_id sortedNodes)" and db: "deps_before {} sortedNodes" by simp_all
  have c1: "fst ?R = (case abort_ids sortedNodes ?T of
                     [] \<Rightarrow> Fulfilled () | i # rest \<Rightarrow> RejectedWith (AbortedAt i))"
    by (rule driver_verdict[OF db d assms(3)])
  have c2: "outcome_of (build_on columns \<lparr>verbose = v, maxConcurrency = Some K\<rparr> ts t0) =
            (case abort_ids sortedNodes ?T of
               [] \<Rightarrow> Fulfilled ?tl | i # rest \<Rightarrow> Fulfilled (Some (AbortedAt i)))"
    using build_on_outcome[OF assms(1,2), of columns "\<lparr>verbose = v, maxConcurrency = Some K\<rparr>" t0] c1
    by (cases ?R) (simp split: list.splits)
  have c2': "?tl = Some TimelineTypeError \<longleftrightarrow>
             (\<forall>x \<in> set (task_objects [] (store (snd ?R)) ts). metrics (snd x) = None)"
    by (rule generateTimeline_TypeError)
  have c3: "\<forall>i. fst ?R = RejectedWith (AbortedAt i) \<longrightarrow>
             (\<exists>li. ?NL i = Some (Level li) \<and>
                (\<forall>e. e \<in> set ?T \<longrightarrow>
                   (\<exists>le. ?NL (event_id e) = Some (Level le) \<and> le \<le> li)) \<and>
                (\<forall>n. n \<in> set sortedNodes \<longrightarrow>
                   (\<exists>l. ?NL (node_id n) = Some (Level l) \<and>
                      (node_id n \<in> set (ended_ids ?T) \<longleftrightarrow> l \<le> li))))"
  proof (intro allI impI)
    fix i assume r: "fst ?R = RejectedWith (AbortedAt i)"
    from driver_stops[OF db d r] obtain li where li: "?NL i = Some (Level li)"
      and ev: "\<And>e. e \<in> set ?T \<Longrightarrow> \<exists>le. ?NL (event_id e) = Some (Level le) \<and> le \<le> li"
      by blast
    have sib: "\<exists>l. ?NL (node_id n) = Some (Level l) \<and>
        (node_id n \<in> set (ended_ids ?T) \<longleftrightarrow> l \<le> li)" if n: "n \<in> set sortedNodes" for n
    proof -
      from assign_levels_covered[OF db d n] obtain l where l: "?NL (node_id n) = Some (Level l)"
        by blast
      have "node_id n \<in> set (ended_ids ?T)" if "l \<le> li"
        by (rule driver_data(3)[OF db d r li n l that])
      moreover have "l \<le> li" if "node_id n \<in> set (ended_ids ?T)"
      proof -
        from that obtain e where e: "e \<in> set ?T" "event_id e = node_id n"
          by (auto simp: ended_ids_def)
        from ev[OF e(1)] l e(2) show ?thesis by simp
      qed
      ultimately show ?thesis using l by blast
    qed
    show "\<exists>li. ?NL i = Some (Level li) \<and>
                (\<forall>e. e \<in> set ?T \<longrightarrow>
                   (\<exists>le. ?NL (event_id e) = Some (Level le) \<and> le \<le> li)) \<and>
                (\<forall>n. n \<in> set sortedNodes \<longrightarrow>
                   (\<exists>l. ?NL (node_id n) = Some (Level l) \<and>
                      (node_id n \<in> set (ended_ids ?T) \<longleftrightarrow> l \<le> li)))"
      using li ev sib by blast
  qed
  have c4: "fst ?R = Fulfilled () \<longrightarrow> node_id ` set sortedNodes \<subseteq> set (ended_ids ?T)"
    using driver_data(2)[OF db d] by blast
  have c5: "\<forall>n err t. n \<in> set sortedNodes \<longrightarrow> Ended (node_id n) (Inl err) t \<in> set ?T \<longrightarrow>
             onError (node_task n) \<noteq> Some Abort \<longrightarrow>
             artifact (store (snd ?R) (node_id n)) = VNull"
  proof (intro allI impI)
    fix n err t assume "n \<in> set sortedNodes" "Ended (node_id n) (Inl err) t \<in> set ?T"
      and pol: "onError (node_task n) \<noteq> Some Abort"
    from driver_ended[OF db d this(1,2)] pol
    show "artifact (store (snd ?R) (node_id n)) = VNull" by (simp add: artifact_after_def)
  qed
  have c6: "\<forall>c args t. c \<in> set sortedNodes \<longrightarrow> Started (node_id c) args t \<in> set ?T \<longrightarrow>
             args = map (\<lambda>p. artifact (store (snd ?R) p)) (node_dependencies c)"
    using driver_started[OF db d] by blast
  show ?thesis unfolding Let_def
    by (intro conjI) (rule c1, rule c2, rule c2', rule c3, rule c4, rule c5, rule c6)
qed

theorem failure_policy_witness:
  "addTasks [] sibling_seq = Inr sibling_graph \<and>
   topologicalSortWithPriority sibling_graph = Inr sibling_sorted \<and>
   (1::int) \<le> 1 \<and>
   fst (executeTasksWithConcurrencyLimit sibling_sorted 1 1000) = RejectedWith (AbortedAt ''F'') \<and>
   trace (snd (executeTasksWithConcurrencyLimit sibling_sorted 1 1000)) =
     [Started ''F'' [] 1000, Ended ''F'' (Inl (Thrown ''boom'')) 1005,
      Started ''S'' [] 1005, Ended ''S'' (Inr (VStr ''s'')) 1009] \<and>
   abort_ids sibling_sorted (trace (snd (executeTasksWithConcurrencyLimit sibling_sorted 1 1000))) =
     [''F''] \<and>
   assign_levels sibling_sorted Map.empty =
     [''F'' \<mapsto> Level 0, ''S'' \<mapsto> Level 0, ''G'' \<mapsto> Level 1] \<and>
   outcome_of (build_on None \<lparr>verbose = None, maxConcurrency = Some 1\<rparr> sibling_seq 1000) =
     Fulfilled (Some (AbortedAt ''F'')) \<and>
   addTasks [] (fail_seq (Some Continue)) = Inr (fail_graph (Some Continue)) \<and>
   topologicalSortWithPriority (fail_graph (Some Continue)) = Inr (fail_sorted (Some Continue)) \<and>
   (1::int) \<le> 2 \<and>
   abort_ids (fail_sorted (Some Continue))
     (trace (snd (executeTasksWithConcurrencyLimit (fail_sorted (Some Continue)) 2 1000))) = [] \<and>
   fst (executeTasksWithConcurrencyLimit (fail_sorted (Some Continue)) 2 1000) = Fulfilled () \<and>
   outcome_of (build_on None \<lparr>verbose = None, maxConcurrency = Some 2\<rparr> (fail_seq (Some Continue)) 1000) =
     Fulfilled None \<and>
   trace (snd (executeTasksWithConcurrencyLimit (fail_sorted (Some Continue)) 2 1000)) =
     [Started ''F'' [] 1000, Ended ''F'' (Inl (Thrown ''boom'')) 1005,
      Started ''G'' [VNull] 1005, Ended ''G'' (Inr (VStr ''g'')) 1009] \<and>
   artifact (store (snd (executeTasksWithConcurrencyLimit (fail_sorted (Some Continue)) 2 1000)) ''F'') =
     VNull \<and>
   addTasks [] [failing (Some Continue)] = Inr [(''F'', lonely_node)] \<and>
   topologicalSortWithPriority [(''F'', lonely_node)] = Inr [lonely_node] \<and>
   fst (executeTasksWithConcurrencyLimit [lonely_node] 1 1000) = Fulfilled () \<and>
   outcome_of (build_on None \<lparr>verbose = None, maxConcurrency = Some 1\<rparr> [failing (Some Continue)] 1000) =
     Fulfilled (Some TimelineTypeError)"
proof -
  have k1: "(1::int) \<le> 1" and k2: "(1::int) \<le> 2" by simp_all
  note s = failure_policy[OF sibling_addTasks sibling_sort k1, of 1000 None None, unfolded Let_def]
  note c = failure_policy[OF fail_addTasks fail_sort k2, of "Some Continue" 1000 None None, unfolded Let_def]
  note l = failure_policy[OF lonely_addTasks lonely_sort k1, of 1000 None None, unfolded Let_def]
  have sa: "abort_ids sibling_sorted
      (trace (snd (executeTasksWithConcurrencyLimit sibling_sorted 1 1000))) = [''F'']"
    by (simp only: sibling_run)
       (simp add: abort_ids_def abort_policy_def sibling_sorted_def node_F_def node_S_def
         node_G_def failing_def task_S_def task_G_def simple_task_def)
  have so: "outcome_of (build_on None \<lparr>verbose = None, maxConcurrency = Some 1\<rparr> sibling_seq 1000) =
     Fulfilled (Some (AbortedAt ''F''))"
    using s[THEN conjunct2, THEN conjunct1] sa by simp
  have ca: "abort_ids (fail_sorted (Some Continue))
     (trace (snd (executeTasksWithConcurrencyLimit (fail_sorted (Some Continue)) 2 1000))) = []"
    by (simp only: continue_run)
       (simp add: abort_ids_def abort_policy_def fail_sorted_def node_F_def node_G_def
         failing_def task_G_def simple_task_def)
  have co: "outcome_of (build_on None \<lparr>verbose = None, maxConcurrency = Some 2\<rparr> (fail_seq (Some Continue)) 1000) =
     Fulfilled None"
    using c[THEN conjunct2, THEN conjunct1] ca continue_timeline by simp
  have la: "abort_ids [lonely_node]
     (trace (snd (executeTasksWithConcurrencyLimit [lonely_node] 1 1000))) = []"
    by (simp only: lonely_run) (simp add: abort_ids_def abort_policy_def lonely_node_def failing_def)
  have lm: "\<forall>x \<in> set (task_objects [] (store (snd (executeTasksWithConcurrencyLimit [lonely_node] 1 1000)))
       [failing (Some Continue)]). metrics (snd x) = None"
    using lonely_run by (simp add: failing_def)
  have "generateTimeline None (task_objects []
      (store (snd (executeTasksWithConcurrencyLimit [lonely_node] 1 1000))) [failing (Some Continue)]) 1000 =
      Some TimelineTypeError"
    using l[THEN conjunct2, THEN conjunct2, THEN conjunct1] lm by blast
  then have lo: "outcome_of (build_on None \<lparr>verbose = None, maxConcurrency = Some 1\<rparr> [failing (Some Continue)] 1000) =
     Fulfilled (Some TimelineTypeError)"
    using l[THEN conjunct2, THEN conjunct1] la by simp
  have cf: "artifact (store (snd (executeTasksWithConcurrencyLimit (fail_sorted (Some Continue)) 2 1000)) ''F'') =
     VNull"
    using continue_run by simp
  show ?thesis
    by (intro conjI) (rule sibling_addTasks, rule sibling_sort, rule k1,
      rule sibling_run[THEN conjunct1], rule sibling_run[THEN conjunct2], rule sa,
      rule sibling_levels, rule so, rule fail_addTasks, rule fail_sort, rule k2, rule ca,
      rule continue_run[THEN conjunct1], rule co, rule continue_run[THEN conjunct2, THEN conjunct1],
      rule cf, rule lonely_addTasks, rule lonely_sort, rule lonely_run[THEN conjunct1], rule lo)
qed

end
